(* ===== verification/Prelude.thy ===== *)
theory Prelude
  imports Main "HOL-Library.Word" "HOL-Library.Signed_Division"
begin

text \<open>
  The shared base of the development: C's fixed-width integers and the operators the sources use on
  them, checked array accesses, results that may be a fault, decimal output of \<open>%d\<close>, counting the
  threads of a list that satisfy a predicate, and interleaved executions of a list of threads.

  \<^item> \<open>int\<close> is \<open>32 word\<close> and \<open>long\<close> is \<open>64 word\<close>; \<open>+\<close> and \<open>-\<close> wrap, comparisons are the signed
    ones (\<open><s\<close>, \<open><=s\<close>), and C's \<open>/\<close> and \<open>%\<close> (which round towards zero) are \<open>c_div\<close> and \<open>c_mod\<close>.
  \<^item> An array is a list; \<open>arr_get\<close> and \<open>arr_set\<close> return the fault \<open>OutOfBounds\<close> where the C access
    would be undefined, so "no undefined access" is a theorem and not an assumption.
  \<^item> A call that would wait for ever in a sequential run is the fault \<open>Blocked\<close>.
  \<^item> The collection \<open>cint_simps\<close> holds the rules that read small machine integers as numbers,
    \<open>cnt_simps\<close> those that count threads.
\<close>

named_theorems cint_simps "reading machine integers as natural numbers"
named_theorems cnt_simps "counting the threads that satisfy a predicate"

section \<open>C integers\<close>

type_synonym cint = "32 word"
type_synonym clong = "64 word"

definition c_div :: "'a::len word \<Rightarrow> 'a word \<Rightarrow> 'a word" where
  "c_div a b = word_of_int (sint a sdiv sint b)"

definition c_mod :: "'a::len word \<Rightarrow> 'a word \<Rightarrow> 'a word" where
  "c_mod a b = word_of_int (sint a smod sint b)"

section \<open>Faults and results\<close>

datatype fault = OutOfBounds | Blocked

type_synonym 'a result = "fault + 'a"

fun rbind :: "'a result \<Rightarrow> ('a \<Rightarrow> 'b result) \<Rightarrow> 'b result" where
  "rbind (Inl f) g = Inl f"
| "rbind (Inr x) g = g x"

definition arr_get :: "'a list \<Rightarrow> cint \<Rightarrow> 'a result" where
  "arr_get xs i =
     (if 0 <=s i \<and> sint i < int (length xs) then Inr (xs ! nat (sint i)) else Inl OutOfBounds)"

definition arr_set :: "'a list \<Rightarrow> cint \<Rightarrow> 'a \<Rightarrow> 'a list result" where
  "arr_set xs i v =
     (if 0 <=s i \<and> sint i < int (length xs) then Inr (xs[nat (sint i) := v])
      else Inl OutOfBounds)"

section \<open>Decimal output\<close>

fun show_nat :: "nat \<Rightarrow> string" where
  "show_nat n =
     (if n < 10 then [char_of (48 + n)] else show_nat (n div 10) @ [char_of (48 + n mod 10)])"

declare show_nat.simps [simp del]

text \<open>The conversion \<open>%d\<close> of the \<open>printf\<close> family on an \<open>int\<close> argument.\<close>

definition fmt_d :: "cint \<Rightarrow> string" where
  "fmt_d w = (if sint w < 0 then CHR ''-'' # show_nat (nat (- sint w)) else show_nat (nat (sint w)))"

text \<open>A conversion between single quotes, and the end of a line.\<close>

definition quoted :: "string \<Rightarrow> string" where
  "quoted s = CHR 0x27 # s @ [CHR 0x27]"

definition newline :: string where
  "newline = [CHR 0x0A]"

section \<open>Counting threads\<close>

definition cnt :: "('p \<Rightarrow> bool) \<Rightarrow> 'p list \<Rightarrow> nat" where
  "cnt P ps = length (filter P ps)"

text \<open>The number of threads at a given position.\<close>

definition occ :: "'p list \<Rightarrow> 'p \<Rightarrow> nat" where
  "occ ps q = cnt ((=) q) ps"

text \<open>The number of threads at one of several positions.\<close>

definition occs :: "'p list \<Rightarrow> 'p list \<Rightarrow> nat" where
  "occs ps qs = cnt (\<lambda>p. p \<in> set qs) ps"

section \<open>Interleaved executions\<close>

text \<open>
  A step function \<open>f\<close> says what thread \<open>t\<close> does next; \<open>None\<close> means that the thread cannot move now.
  A schedule is the sequence of the choices made; \<open>exec\<close> runs it, and \<open>reach\<close> is the set of states
  some schedule leads to.
\<close>

fun exec :: "('c \<Rightarrow> 's \<Rightarrow> 's option) \<Rightarrow> 'c list \<Rightarrow> 's \<Rightarrow> 's option" where
  "exec f [] s = Some s"
| "exec f (c # cs) s = (case f c s of None \<Rightarrow> None | Some s' \<Rightarrow> exec f cs s')"

text \<open>The schedule runs to its end, and the choice \<open>x\<close> is possible in no state of the run.\<close>

fun kept_out :: "('c \<Rightarrow> 's \<Rightarrow> 's option) \<Rightarrow> 'c \<Rightarrow> 'c list \<Rightarrow> 's \<Rightarrow> bool" where
  "kept_out f x [] s \<longleftrightarrow> f x s = None"
| "kept_out f x (c # cs) s \<longleftrightarrow> f x s = None \<and> (case f c s of None \<Rightarrow> False | Some s' \<Rightarrow> kept_out f x cs s')"

inductive reach :: "('c \<Rightarrow> 's \<Rightarrow> 's option) \<Rightarrow> 's \<Rightarrow> 's \<Rightarrow> bool" for f s0 where
  start: "reach f s0 s0"
| step: "reach f s0 s \<Longrightarrow> f c s = Some s' \<Longrightarrow> reach f s0 s'"

section \<open>Lemmas on machine integers\<close>

lemma uint_lt_iff_unat: "uint (i :: cint) < int n \<longleftrightarrow> unat i < n"
  by (metis of_nat_less_iff of_nat_unat)

lemma sint_small: "unat (i :: cint) < 2147483648 \<Longrightarrow> sint i = uint i"
  using uint_lt_iff_unat [of i 2147483648] order_trans [OF _ uint_ge_0 [of i], of "- 2147483648"]
  by (simp add: sint_uint signed_take_bit_int_eq_self_iff)

lemma sless_zero_small [cint_simps]:
  "unat (i :: cint) < 2147483648 \<Longrightarrow> (0 <s i) = (0 < unat i)"
  using uint_lt_iff_unat [of i 1] by (simp add: word_sless_alt sint_small) linarith

lemma sle_small [cint_simps]:
  "unat (i :: cint) < 2147483648 \<Longrightarrow> unat (j :: cint) < 2147483648 \<Longrightarrow> (i <=s j) = (unat i \<le> unat j)"
  by (simp add: word_sle_eq sint_small flip: word_le_def word_le_nat_alt)

lemma sless_small [cint_simps]:
  "unat (i :: cint) < 2147483648 \<Longrightarrow> unat (j :: cint) < 2147483648 \<Longrightarrow> (i <s j) = (unat i < unat j)"
  using sle_small [of j i] by (auto simp: signed.not_le [symmetric])

text \<open>A loop counter below a bound does not wrap when it is incremented.\<close>

lemma sint_inc:
  assumes lt: "i <s (b :: cint)"
  shows "sint (i + 1) = sint i + 1"
proof -
  have "sint b < 2 ^ 31" and "- (2 ^ 31) \<le> sint i"
    using sint_lt [of b] sint_ge [of i] by simp_all
  with lt show ?thesis
    by (simp add: word_sless_alt sint_word_ariths signed_take_bit_int_eq_self)
qed

lemma loop_bound: "i <s (b :: cint) \<Longrightarrow> sint i < sint b \<and> sint i < sint (i + 1)"
  by (simp add: sint_inc) (simp add: word_sless_alt)

lemma nonneg_iff_small: "(\<not> i <s 0) = (unat (i :: cint) < 2147483648)"
proof
  assume "\<not> i <s 0"
  then have "0 \<le> sint i"
    by (simp add: word_sless_alt)
  moreover have "sint i < 2 ^ 31"
    using sint_lt [of i] by simp
  ultimately have "uint i < int 2147483648"
    by (simp add: uint_sint take_bit_int_eq_self)
  then show "unat i < 2147483648"
    by (simp only: uint_lt_iff_unat)
next
  assume "unat i < 2147483648"
  then show "\<not> i <s 0"
    by (simp add: word_sless_alt sint_small)
qed

lemma c_mod_small [cint_simps]:
  assumes "unat (a :: cint) < 2147483648" and "unat (b :: cint) < 2147483648"
  shows "unat (c_mod a b) = unat a mod unat b"
proof -
  have "sint a smod sint b = uint a mod uint b"
    using assms by (cases "a = 0") (simp_all add: sint_small smod_int_alt_def)
  then have "c_mod a b = a mod b"
    by (simp add: c_mod_def word_mod_def)
  then show ?thesis
    by (simp add: unat_mod_distrib)
qed

lemma c_div_small [cint_simps]:
  assumes "unat (a :: cint) < 2147483648" and "unat (b :: cint) < 2147483648"
  shows "unat (c_div a b) = unat a div unat b"
proof -
  have "sint a sdiv sint b = uint a div uint b"
    using assms uint_ge_0 [of a] uint_ge_0 [of b]
    by (auto simp: sint_small signed_divide_int_def sgn_if order.order_iff_strict)
  then have "c_div a b = a div b"
    by (simp add: c_div_def word_div_def)
  then show ?thesis
    by (simp add: unat_div_distrib)
qed

lemma unat_add_small [cint_simps]:
  "unat (a :: cint) + unat (b :: cint) < 4294967296 \<Longrightarrow> unat (a + b) = unat a + unat b"
  by (simp add: unat_word_ariths)

lemma unat_dec [cint_simps]: "0 < unat (a :: cint) \<Longrightarrow> unat (a - 1) = unat a - 1"
  by (rule unat_minus_one) auto

lemma eq_one_unat: "(a :: cint) = 1 \<longleftrightarrow> unat a = 1"
  by (simp add: word_unat_eq_iff)

lemma eq_zero_unat: "(a :: cint) = 0 \<longleftrightarrow> unat a = 0"
  by (simp add: word_unat_eq_iff)

lemma arr_get_small [cint_simps]:
  "unat i < 2147483648 \<Longrightarrow> unat i < length xs \<Longrightarrow> arr_get xs i = Inr (xs ! unat i)"
  by (simp add: arr_get_def word_sle_eq sint_small uint_lt_iff_unat)

lemma arr_set_small [cint_simps]:
  "unat i < 2147483648 \<Longrightarrow> unat i < length xs \<Longrightarrow> arr_set xs i v = Inr (xs[unat i := v])"
  by (simp add: arr_set_def word_sle_eq sint_small uint_lt_iff_unat)

lemma rbind_Inr: "rbind x f = Inr y \<longleftrightarrow> (\<exists>v. x = Inr v \<and> f v = Inr y)"
  by (cases x) auto

lemma nth_update: "u < length xs \<Longrightarrow> xs[t := v] ! u = (if u = t then v else xs ! u)"
  by simp

lemma list_all_tl: "list_all P xs \<Longrightarrow> list_all P (tl xs)"
  by (cases xs) auto

text \<open>Evaluation of closed C expressions by the simplifier.\<close>

lemmas c_eval = c_mod_def c_div_def smod_int_alt_def signed_divide_int_def arr_get_def arr_set_def
  word_sle_eq word_sless_alt

section \<open>Lemmas on counting\<close>

lemma cnt_Nil [simp]: "cnt P [] = 0"
  by (simp add: cnt_def)

lemma cnt_Cons [simp]: "cnt P (p # ps) = (if P p then Suc (cnt P ps) else cnt P ps)"
  by (simp add: cnt_def)

lemma cnt_le: "cnt P ps \<le> length ps"
  by (simp add: cnt_def)

lemma cnt_update [cnt_simps]:
  "t < length ps \<Longrightarrow>
     int (cnt P (ps[t := q])) = int (cnt P ps) - of_bool (P (ps ! t)) + of_bool (P q)"
proof (induction ps arbitrary: t)
  case (Cons p ps)
  then show ?case by (cases t) auto
qed simp

lemma cnt_pos_iff: "0 < cnt P ps \<longleftrightarrow> (\<exists>t < length ps. P (ps ! t))"
  by (simp add: cnt_def filter_empty_conv) (metis in_set_conv_nth nth_mem)

lemma cnt_posI: "t < length ps \<Longrightarrow> P (ps ! t) \<Longrightarrow> 0 < cnt P ps"
  by (auto simp: cnt_pos_iff)

lemma cnt_replicate [simp]: "cnt P (replicate n p) = (if P p then n else 0)"
  by (induction n) auto

lemma cnt_append: "cnt P (ps @ qs) = cnt P ps + cnt P qs"
  by (simp add: cnt_def)

lemma cnt_rotate: "cnt P (rotate n ps) = cnt P ps"
  using cnt_append [of P "take (n mod length ps) ps" "drop (n mod length ps) ps"]
  by (simp add: rotate_drop_take cnt_append)

lemma cnt_all: "list_all P ps \<Longrightarrow> cnt P ps = length ps"
  by (induction ps) auto

lemma cnt_none: "list_all (\<lambda>p. \<not> P p) ps \<Longrightarrow> cnt P ps = 0"
  by (induction ps) auto

lemma cnt_mono: "(\<And>p. P p \<Longrightarrow> Q p) \<Longrightarrow> cnt P ps \<le> cnt Q ps"
  by (induction ps) (auto simp: le_SucI)

text \<open>Two different threads that satisfy a predicate make its count at least two.\<close>

lemma cnt_two:
  "t < length ps \<Longrightarrow> u < length ps \<Longrightarrow> t \<noteq> u \<Longrightarrow> P (ps ! t) \<Longrightarrow> P (ps ! u) \<Longrightarrow> 2 \<le> cnt P ps"
proof (induction ps arbitrary: t u)
  case (Cons p ps)
  then show ?case
    by (cases t; cases u) (auto simp: Suc_le_eq intro: cnt_posI)
qed simp

lemma occ_update [cnt_simps]:
  assumes "t < length ps"
  shows "occ (ps[t := q]) r = occ ps r - (if r = ps ! t then 1 else 0) + (if r = q then 1 else 0)"
proof -
  have "0 < occ ps r" if "r = ps ! t"
    using cnt_posI [OF assms, of "(=) r"] that by (simp add: occ_def)
  then show ?thesis
    using cnt_update [OF assms, of "(=) r" q] by (auto simp: occ_def)
qed

lemma occ_pos: "t < length ps \<Longrightarrow> ps ! t = p \<Longrightarrow> 0 < occ ps p"
  using cnt_posI [of t ps "(=) p"] by (simp add: occ_def)

lemma occ_pos_iff: "0 < occ ps p \<longleftrightarrow> (\<exists>t < length ps. ps ! t = p)"
  by (auto simp: occ_def cnt_pos_iff)

lemma occ_two: "t < length ps \<Longrightarrow> u < length ps \<Longrightarrow> t \<noteq> u \<Longrightarrow> ps ! t = p \<Longrightarrow> ps ! u = p \<Longrightarrow> 2 \<le> occ ps p"
  unfolding occ_def by (rule cnt_two [of t ps u]) (assumption | erule sym)+

lemma occ_Cons: "occ (p # ps) q = (if q = p then Suc (occ ps q) else occ ps q)"
  by (simp add: occ_def)

lemma occ_map_le: "occ ps p \<le> occ (map f ps) (f p)"
  by (induction ps) (auto simp: occ_def)

lemma occ_zeroI: "(\<And>t. t < length ps \<Longrightarrow> ps ! t \<noteq> p) \<Longrightarrow> occ ps p = 0"
  using occ_pos_iff [of ps p] by (cases "occ ps p = 0") auto

lemma occ_replicate [simp]: "occ (replicate n p) q = (if q = p then n else 0)"
  by (simp add: occ_def)

lemma occs_update [cnt_simps]:
  assumes "t < length ps"
  shows "occs (ps[t := q]) qs =
    occs ps qs - (if ps ! t \<in> set qs then 1 else 0) + (if q \<in> set qs then 1 else 0)"
proof -
  have "0 < occs ps qs" if "ps ! t \<in> set qs"
    using cnt_posI [OF assms, of "\<lambda>p. p \<in> set qs"] that by (simp add: occs_def)
  then show ?thesis
    using cnt_update [OF assms, of "\<lambda>p. p \<in> set qs" q] by (auto simp: occs_def)
qed

lemma occ_map_occs: "(\<And>p. f p = r \<longleftrightarrow> p \<in> set qs) \<Longrightarrow> occ (map f ps) r = occs ps qs"
  by (induction ps) (auto simp: occ_Cons occ_def occs_def eq_commute [of r])

lemma occs_pos: "t < length ps \<Longrightarrow> ps ! t \<in> set qs \<Longrightarrow> 0 < occs ps qs"
  using cnt_posI [of t ps "\<lambda>p. p \<in> set qs"] by (simp add: occs_def)

lemma occs_Nil [simp]: "occs ps [] = 0"
  by (simp add: occs_def cnt_def)

lemma occs_Cons: "q \<notin> set qs \<Longrightarrow> occs ps (q # qs) = occ ps q + occs ps qs"
  by (induction ps) (auto simp: occs_def occ_def)

lemma occs_replicate [simp]: "occs (replicate n p) qs = (if p \<in> set qs then n else 0)"
  by (simp add: occs_def)

lemma occs_le: "occs ps qs \<le> length ps"
  by (simp add: occs_def cnt_le)

text \<open>
  A counter that counts the threads at some positions, and a lock (with its number of permits) that
  is held by the threads at some positions.
\<close>

definition tally :: "('p \<Rightarrow> bool) \<Rightarrow> cint \<Rightarrow> 'p list \<Rightarrow> bool" where
  "tally P c ps \<longleftrightarrow> unat c = cnt P ps \<and> length ps < 2147483648"

definition lock_tally :: "('p \<Rightarrow> bool) \<Rightarrow> nat \<Rightarrow> 'p list \<Rightarrow> bool" where
  "lock_tally P m ps \<longleftrightarrow> m + cnt P ps = 1"

lemma cnt_move:
  assumes "t < length ps"
  shows "P (ps ! t) = P q \<Longrightarrow> cnt P (ps[t := q]) = cnt P ps"
    and "\<not> P (ps ! t) \<Longrightarrow> P q \<Longrightarrow> cnt P (ps[t := q]) = Suc (cnt P ps)"
    and "P (ps ! t) \<Longrightarrow> \<not> P q \<Longrightarrow> Suc (cnt P (ps[t := q])) = cnt P ps"
  using cnt_update [OF assms, of P q] by (auto split: if_splits)

lemma cnt_shift: "t < length ps \<Longrightarrow> cnt P (ps[t := q]) + of_bool (P (ps ! t)) = cnt P ps + of_bool (P q)"
  using cnt_move [of t ps P q] by (cases "P (ps ! t)"; cases "P q") auto

lemma tally_moves:
  assumes "tally P c ps" and t: "t < length ps"
  shows "P (ps ! t) = P q \<Longrightarrow> tally P c (ps[t := q])"
    and "\<not> P (ps ! t) \<Longrightarrow> P q \<Longrightarrow> tally P (c + 1) (ps[t := q])"
    and "P (ps ! t) \<Longrightarrow> \<not> P q \<Longrightarrow> tally P (c - 1) (ps[t := q])"
proof -
  have c: "unat c = cnt P ps" "length ps < 2147483648" "cnt P ps \<le> length ps"
    using assms(1) by (simp_all add: tally_def cnt_le)
  show "tally P c (ps[t := q])" if "P (ps ! t) = P q"
    using c cnt_move(1) [OF t that] by (simp add: tally_def)
  show "tally P (c + 1) (ps[t := q])" if "\<not> P (ps ! t)" "P q"
    using c cnt_move(2) [OF t that] by (simp add: tally_def cint_simps)
  show "tally P (c - 1) (ps[t := q])" if "P (ps ! t)" "\<not> P q"
    using c cnt_move(3) [OF t that] by (simp add: tally_def cint_simps)
qed

lemma lock_moves:
  assumes "t < length ps"
  shows "lock_tally P m ps \<Longrightarrow> P (ps ! t) = P q \<Longrightarrow> lock_tally P m (ps[t := q])"
    and "lock_tally P (Suc m) ps \<Longrightarrow> \<not> P (ps ! t) \<Longrightarrow> P q \<Longrightarrow> lock_tally P m (ps[t := q])"
    and "lock_tally P m ps \<Longrightarrow> P (ps ! t) \<Longrightarrow> \<not> P q \<Longrightarrow> lock_tally P (Suc m) (ps[t := q])"
  using cnt_move [OF assms, of P q] by (auto simp: lock_tally_def)

lemma tally_start: "n < 2147483648 \<Longrightarrow> \<not> P p \<Longrightarrow> tally P 0 (replicate n p)"
  and lock_start: "\<not> P p \<Longrightarrow> lock_tally P 1 (replicate n p)"
  by (simp_all add: tally_def lock_tally_def)

text \<open>
  The invariants over numbers of threads are linear arithmetic. These rules would split a sum of such
  numbers into its parts before the arithmetic sees it, and are switched off there.
\<close>

lemmas occ_arith = add_gr_0 add_is_0 One_nat_def

section \<open>Lemmas on lists and results\<close>

lemma rbind_cong: "r = r' \<Longrightarrow> (\<And>x. r' = Inr x \<Longrightarrow> f x = g x) \<Longrightarrow> rbind r f = rbind r' g"
  by (cases r') auto

lemma in_set_update: "x \<in> set xs \<Longrightarrow> xs ! t \<noteq> x \<Longrightarrow> x \<in> set (xs[t := y])"
  by (metis in_set_conv_nth length_list_update nth_list_update_neq)

lemma arr_set_subset: "arr_set r i v = Inr r' \<Longrightarrow> set r' \<subseteq> insert v (set r)"
  by (auto simp: arr_set_def split: if_splits dest: subsetD [OF set_update_subset_insert])

lemma upto_char: "c \<notin> set s \<Longrightarrow> c \<notin> set t \<Longrightarrow> s @ c # r = t @ c # r' \<longleftrightarrow> s = t \<and> r = r'"
  by (induction s arbitrary: t; case_tac t) auto

section \<open>Lemmas on executions\<close>

lemma reach_invariant [consumes 1, case_names start step]:
  assumes "reach f s0 s"
    and "I s0"
    and "\<And>c s s'. reach f s0 s \<Longrightarrow> I s \<Longrightarrow> f c s = Some s' \<Longrightarrow> I s'"
  shows "I s"
  using assms(1) by (induction rule: reach.induct) (use assms(2,3) in blast)+

lemma reach_trans: "reach f s t \<Longrightarrow> reach f r s \<Longrightarrow> reach f r t"
  by (induction rule: reach.induct) (auto intro: reach.step)

lemma exec_reach: "exec f cs s = Some s' \<Longrightarrow> reach f s s'"
proof (induction cs arbitrary: s)
  case Nil
  then show ?case by (simp add: reach.start)
next
  case (Cons c cs)
  then obtain r where "f c s = Some r" and "exec f cs r = Some s'"
    by (auto split: option.splits)
  then have "reach f r s'" and "reach f s r"
    using Cons.IH by (auto intro: reach.start reach.step)
  then show ?case by (rule reach_trans)
qed

lemma exec_append:
  "exec f (cs @ ds) s = (case exec f cs s of None \<Rightarrow> None | Some s' \<Rightarrow> exec f ds s')"
  by (induction cs arbitrary: s) (auto split: option.splits)

lemma kept_out_rounds:
  assumes "exec f cs s = Some s" and "kept_out f x cs s"
  shows "exec f (concat (replicate k cs)) s = Some s \<and> kept_out f x (concat (replicate k cs)) s"
proof -
  have append: "kept_out f x (as @ bs) r" if "kept_out f x as r" "exec f as r = Some r'" "kept_out f x bs r'"
    for as bs r r'
    using that by (induction as arbitrary: r) (auto split: option.splits)
  have "f x s = None"
    using assms(2) by (cases cs) auto
  then show ?thesis
    by (induction k) (auto simp: assms exec_append intro: append [OF assms(2,1)])
qed

lemma reach_exec: "reach f s s' \<Longrightarrow> \<exists>cs. exec f cs s = Some s'"
proof (induction rule: reach.induct)
  case start
  show ?case by (rule exI [of _ "[]"]) simp
next
  case (step s1 c s2)
  then obtain cs where "exec f cs s = Some s1" by blast
  then have "exec f (cs @ [c]) s = Some s2"
    using step.hyps by (simp add: exec_append)
  then show ?case by blast
qed

text \<open>A schedule whose every step lowers a number has at most that many steps.\<close>

lemma exec_measure:
  fixes m :: "'s \<Rightarrow> nat"
  assumes step: "\<And>x s s'. I s \<Longrightarrow> f x s = Some s' \<Longrightarrow> I s' \<and> m s' < m s"
    and "I s" and "exec f xs s = Some s'"
  shows "I s' \<and> length xs + m s' \<le> m s"
  using assms(2,3)
proof (induction xs arbitrary: s)
  case (Cons x xs)
  then obtain r where "f x s = Some r" "exec f xs r = Some s'"
    by (auto split: option.splits)
  then show ?case
    using Cons.IH [of r] step [OF Cons.prems(1)] by fastforce
qed simp

lemma sum_list_less:
  "t < length ns \<Longrightarrow> x < ns ! t \<Longrightarrow> sum_list (ns[t := x]) < sum_list (ns :: nat list)"
  using member_le_sum_list [of "ns ! t" ns] by (simp add: sum_list_update)

end
