(* ===== verification/Ring_Buffer.thy ===== *)
theory Ring_Buffer
  imports Prelude
begin

text \<open>
  The ring-buffer arithmetic the two kboards share. A ring is an array \<open>r\<close>, the index \<open>cur\<close> of its
  oldest item and the number \<open>k\<close> of its items, the last two C integers. \<open>ring_contents\<close> is the
  abstraction, the items from the oldest to the newest; \<open>ring_free\<close> are the other slots in ring
  order. The lemmas say what storing at \<open>(cur + k) % m\<close> and clearing at \<open>cur\<close> do to both, with the
  index computed by C's operators on 32-bit integers and the access checked against the array.
\<close>

definition rslice :: "'a list \<Rightarrow> nat \<Rightarrow> nat \<Rightarrow> nat \<Rightarrow> 'a list" where
  "rslice r c a b = map (\<lambda>j. r ! ((c + j) mod length r)) [a..<b]"

definition ring_contents :: "'a list \<Rightarrow> cint \<Rightarrow> cint \<Rightarrow> 'a list" where
  "ring_contents r cur k = rslice r (unat cur) 0 (unat k)"

definition ring_free :: "'a list \<Rightarrow> cint \<Rightarrow> cint \<Rightarrow> 'a list" where
  "ring_free r cur k = rslice r (unat cur) (unat k) (length r)"

definition ring_inv :: "nat \<Rightarrow> 'a list \<Rightarrow> cint \<Rightarrow> cint \<Rightarrow> bool" where
  "ring_inv n r cur k \<longleftrightarrow> length r = n \<and> unat cur < n \<and> unat k \<le> n \<and> n < 1073741824"

text \<open>
  The initialisation loop \<open>for (index = 0; index < bound; index++) ring[index] = v;\<close> from a given
  index on.
\<close>

function fill_loop :: "cint \<Rightarrow> 'a \<Rightarrow> 'a list \<Rightarrow> cint \<Rightarrow> 'a list result" where
  "fill_loop bound v r i =
     (if i <s bound then rbind (arr_set r i v) (\<lambda>r'. fill_loop bound v r' (i + 1)) else Inr r)"
  by pat_completeness auto
termination
  by (relation "measure (\<lambda>(bound, v, r, i). nat (sint bound - sint i))") (auto dest: loop_bound)
declare fill_loop.simps [simp del]

lemma rslice_length [simp]: "length (rslice r c a b) = b - a"
  by (simp add: rslice_def)

lemma mod_add_inj:
  fixes c i j n :: nat
  assumes "(c + i) mod n = (c + j) mod n" and "i < n" and "j < n"
  shows "i = j"
proof -
  have "int n dvd int (c + i) - int (c + j)"
    using assms(1) by (metis mod_eq_dvd_iff zmod_int)
  then have "int n dvd int i - int j"
    by simp
  moreover have "\<bar>int i - int j\<bar> < int n"
    using assms(2,3) by linarith
  ultimately show ?thesis
    using dvd_imp_le_int [of "int i - int j" "int n"] by fastforce
qed

lemma rslice_update_other:
  assumes "i < length r" and "b \<le> length r" and "i < a \<or> b \<le> i"
  shows "rslice (r[(c + i) mod length r := v]) c a b = rslice r c a b"
  unfolding rslice_def
proof (rule map_cong)
  fix j
  assume "j \<in> set [a..<b]"
  then have "j \<noteq> i" and "j < length r"
    using assms by auto
  then have "(c + i) mod length r \<noteq> (c + j) mod length r"
    using mod_add_inj [of c i "length r" j] assms(1) by auto
  then show "r[(c + i) mod length r := v] ! ((c + j) mod length (r[(c + i) mod length r := v])) =
      r ! ((c + j) mod length r)"
    by simp
qed simp

lemma rslice_snoc: "a \<le> b \<Longrightarrow> rslice r c a (Suc b) = rslice r c a b @ [r ! ((c + b) mod length r)]"
  by (simp add: rslice_def)

lemma rslice_Cons: "a < b \<Longrightarrow> rslice r c a b = r ! ((c + a) mod length r) # rslice r c (Suc a) b"
  by (simp add: rslice_def upt_conv_Cons)

lemma rslice_shift: "rslice r (Suc c mod length r) a b = rslice r c (Suc a) (Suc b)"
  by (rule nth_equalityI) (simp_all add: rslice_def mod_add_left_eq del: upt_Suc)

lemma rslice_push:
  assumes "k < length r" and "c < length r"
  shows "rslice (r[(c + k) mod length r := v]) c 0 (Suc k) = rslice r c 0 k @ [v]"
    and "rslice (r[(c + k) mod length r := v]) c (Suc k) (length r) = tl (rslice r c k (length r))"
proof -
  have "(c + k) mod length r < length r"
    using assms by (intro mod_less_divisor) auto
  then show "rslice (r[(c + k) mod length r := v]) c 0 (Suc k) = rslice r c 0 k @ [v]"
    using assms by (simp add: rslice_snoc rslice_update_other)
  show "rslice (r[(c + k) mod length r := v]) c (Suc k) (length r) = tl (rslice r c k (length r))"
    using assms by (simp add: rslice_update_other rslice_Cons [of k])
qed

lemma rslice_pop:
  assumes "0 < k" and "k \<le> length r" and "c < length r"
  shows "rslice r c 0 k = r ! c # rslice (r[c := w]) (Suc c mod length r) 0 (k - 1)"
    and "rslice (r[c := w]) (Suc c mod length r) (k - 1) (length r) = rslice r c k (length r) @ [w]"
proof -
  note upd = rslice_update_other [of 0 r _ _ c w]
  have sh: "rslice (r[c := w]) (Suc c mod length r) a b = rslice (r[c := w]) c (Suc a) (Suc b)" for a b
    using rslice_shift [of "r[c := w]" c a b] by simp
  have c: "(c + length r) mod length r = c" "c mod length r = c" "r \<noteq> []"
    using assms by auto
  show "rslice r c 0 k = r ! c # rslice (r[c := w]) (Suc c mod length r) 0 (k - 1)"
    using assms upd [of k "Suc 0"] c by (auto simp: sh rslice_Cons [of 0])
  show "rslice (r[c := w]) (Suc c mod length r) (k - 1) (length r) = rslice r c k (length r) @ [w]"
    using assms upd [of "length r" k] c by (simp add: sh rslice_snoc)
qed

lemma fill_loop_all:
  assumes "unat bound = length r" and "length r < 1073741824" and "unat i \<le> length r"
  shows "fill_loop bound v r i = Inr (take (unat i) r @ replicate (length r - unat i) v)"
  using assms
proof (induction bound v r i rule: fill_loop.induct)
  case (1 bound v r i)
  show ?case
  proof (cases "i <s bound")
    case True
    then have lt: "unat i < length r"
      using "1.prems" by (simp add: cint_simps)
    then have "fill_loop bound v (r[unat i := v]) (i + 1) =
        Inr (take (unat (i + 1)) (r[unat i := v]) @ replicate (length r - unat (i + 1)) v)"
      using "1.IH" [OF True, of "r[unat i := v]"] "1.prems" by (simp add: cint_simps)
    moreover have "unat (i + 1) = Suc (unat i)"
      using lt "1.prems" by (simp add: cint_simps)
    ultimately show ?thesis
      using True lt "1.prems"
      by (simp add: fill_loop.simps [of bound v r i] cint_simps take_Suc_conv_app_nth Suc_diff_Suc
          replicate_app_Cons_same flip: replicate_Suc)
  next
    case False
    then have "unat i = length r"
      using "1.prems" by (simp add: cint_simps)
    with False show ?thesis
      by (simp add: fill_loop.simps [of bound v r i])
  qed
qed

section \<open>The ring under C's index arithmetic\<close>

lemma ring_contents_length [simp]: "length (ring_contents r cur k) = unat k"
  by (simp add: ring_contents_def)

text \<open>The items and the free slots together are the whole array, rotated.\<close>

lemma ring_rotate:
  assumes "ring_inv n r cur k"
  shows "ring_contents r cur k @ ring_free r cur k = rotate (unat cur) r"
proof -
  have "rslice r c 0 b @ rslice r c b (length r) = rotate c r" if "b \<le> length r" for b c
  proof (rule nth_equalityI)
    fix i
    assume "i < length (rslice r c 0 b @ rslice r c b (length r))"
    with that show "(rslice r c 0 b @ rslice r c b (length r)) ! i = rotate c r ! i"
      by (auto simp: rslice_def nth_append nth_rotate)
  qed (use that in simp)
  with assms show ?thesis
    by (simp add: ring_contents_def ring_free_def ring_inv_def)
qed

lemma ring_index_tail:
  assumes "ring_inv n r cur k" and "unat m = n"
  shows "unat (c_mod (cur + k) m) = (unat cur + unat k) mod n"
  using assms by (simp add: ring_inv_def cint_simps)

lemma ring_index_next:
  assumes "ring_inv n r cur k" and "unat m = n"
  shows "unat (c_mod (cur + 1) m) = Suc (unat cur) mod n"
  using assms by (simp add: ring_inv_def cint_simps)

lemma ring_push:
  fixes v :: 'a
  assumes inv: "ring_inv n r cur k" and m: "unat m = n" and room: "unat k < n"
  defines "r' \<equiv> r[(unat cur + unat k) mod n := v]"
  shows "arr_set r (c_mod (cur + k) m) v = Inr r'"
    and "ring_inv n r' cur (k + 1)"
    and "ring_contents r' cur (k + 1) = ring_contents r cur k @ [v]"
    and "ring_free r' cur (k + 1) = tl (ring_free r cur k)"
proof -
  have n: "length r = n" "unat cur < n" "n < 1073741824"
    using inv by (simp_all add: ring_inv_def)
  have k: "unat (k + 1) = Suc (unat k)"
    using n room by (simp add: cint_simps)
  have lt: "(unat cur + unat k) mod n < n"
    using n by (intro mod_less_divisor) auto
  with n(3) have "(unat cur + unat k) mod n < 2147483648"
    by linarith
  with lt show "arr_set r (c_mod (cur + k) m) v = Inr r'"
    using n unfolding r'_def by (subst arr_set_small) (simp_all add: ring_index_tail [OF inv m])
  show "ring_inv n r' cur (k + 1)"
    using n room k unfolding r'_def ring_inv_def by simp
  show "ring_contents r' cur (k + 1) = ring_contents r cur k @ [v]"
    using rslice_push(1) [of "unat k" r "unat cur" v] n room k
    unfolding r'_def ring_contents_def by simp
  show "ring_free r' cur (k + 1) = tl (ring_free r cur k)"
    using rslice_push(2) [of "unat k" r "unat cur" v] n room k
    unfolding r'_def ring_free_def by simp
qed

lemma ring_pop:
  fixes w :: 'a
  assumes inv: "ring_inv n r cur k" and m: "unat m = n" and some: "0 < unat k"
  defines "r' \<equiv> r[unat cur := w]" and "cur' \<equiv> c_mod (cur + 1) m"
  shows "arr_get r cur = Inr (r ! unat cur)"
    and "arr_set r cur w = Inr r'"
    and "ring_inv n r' cur' (k - 1)"
    and "ring_contents r cur k = r ! unat cur # ring_contents r' cur' (k - 1)"
    and "ring_free r' cur' (k - 1) = ring_free r cur k @ [w]"
proof -
  have n: "length r = n" "unat cur < n" "unat k \<le> n" "n < 1073741824"
    using inv by (simp_all add: ring_inv_def)
  have k: "unat (k - 1) = unat k - 1" and cur: "unat cur' = Suc (unat cur) mod n"
    using some ring_index_next [OF inv m] unfolding cur'_def by (simp_all add: cint_simps)
  have "0 < n"
    using n by simp
  then have "Suc (unat cur) mod n < n"
    by simp
  then show "ring_inv n r' cur' (k - 1)"
    using n k cur unfolding r'_def ring_inv_def by simp
  show "arr_get r cur = Inr (r ! unat cur)" and "arr_set r cur w = Inr r'"
    using n unfolding r'_def by (simp_all add: cint_simps)
  show "ring_contents r cur k = r ! unat cur # ring_contents r' cur' (k - 1)"
    using rslice_pop(1) [of "unat k" r "unat cur" w] n some k cur
    unfolding r'_def ring_contents_def by simp
  show "ring_free r' cur' (k - 1) = ring_free r cur k @ [w]"
    using rslice_pop(2) [of "unat k" r "unat cur" w] n some k cur
    unfolding r'_def ring_free_def by simp
qed

end
