(* ===== verification/Bounded_Queue.thy ===== *)
theory Bounded_Queue
  imports Prelude
begin

text \<open>
  The abstract specification both kboards implement: a bounded first-in first-out queue, its
  operations with their observable results, and runs of operations. The locale \<open>call_refinement\<close> lifts
  a refinement of single calls to runs; \<open>bounded_queue\<close> is its case for the abstract queue, and there
  the FIFO law is proved once: what was in the queue, followed by what was accepted, is what was received,
  followed by what is still in the queue.
\<close>

datatype 'a qop = Enq 'a | Deq

datatype 'a qres = Accepted | Rejected | Got 'a | Nothing | Faulted

fun bq_step :: "nat \<Rightarrow> 'a qop \<Rightarrow> 'a list \<Rightarrow> 'a qres \<times> 'a list" where
  "bq_step cap (Enq x) q = (if length q < cap then (Accepted, q @ [x]) else (Rejected, q))"
| "bq_step cap Deq [] = (Nothing, [])"
| "bq_step cap Deq (x # q) = (Got x, q)"

text \<open>A run of operations of any machine with observable results.\<close>

fun run_ops :: "('o \<Rightarrow> 's \<Rightarrow> 'r \<times> 's) \<Rightarrow> 'o list \<Rightarrow> 's \<Rightarrow> 'r list \<times> 's" where
  "run_ops f [] s = ([], s)"
| "run_ops f (x # xs) s =
     (case f x s of (r, s') \<Rightarrow> case run_ops f xs s' of (rs, s'') \<Rightarrow> (r # rs, s''))"

text \<open>The items a run accepted and the items it delivered, in order.\<close>

fun accepted :: "'a qop list \<Rightarrow> 'a qres list \<Rightarrow> 'a list" where
  "accepted (Enq x # xs) (Accepted # rs) = x # accepted xs rs"
| "accepted (y # xs) (r # rs) = accepted xs rs"
| "accepted xs rs = []"

fun received :: "'a qres list \<Rightarrow> 'a list" where
  "received [] = []"
| "received (Got x # rs) = x # received rs"
| "received (r # rs) = received rs"

fun enq_items :: "'a qop list \<Rightarrow> 'a list" where
  "enq_items [] = []"
| "enq_items (Enq x # xs) = x # enq_items xs"
| "enq_items (Deq # xs) = enq_items xs"

lemma bq_step_bound: "length q \<le> cap \<Longrightarrow> length (snd (bq_step cap x q)) \<le> cap"
  by (cases "(cap, x, q)" rule: bq_step.cases) auto

lemma bq_run_fifo:
  "run_ops (bq_step cap) xs q = (rs, q') \<Longrightarrow> q @ accepted xs rs = received rs @ q'"
proof (induction xs arbitrary: q rs)
  case Nil
  then show ?case by simp
next
  case (Cons x xs)
  then obtain r s rs' where step: "bq_step cap x q = (r, s)"
    and rest: "run_ops (bq_step cap) xs s = (rs', q')" and rs: "rs = r # rs'"
    by (auto split: prod.splits)
  from Cons.IH [OF rest] step rs show ?case
    by (cases "(cap, x, q)" rule: bq_step.cases) (auto split: if_splits)
qed

lemma bq_run_length: "run_ops f xs q = (rs, q') \<Longrightarrow> length rs = length xs"
  by (induction xs arbitrary: q rs) (auto split: prod.splits)

lemma run_ops_snoc:
  "run_ops f xs s = (rs, s1) \<Longrightarrow> f x s1 = (r, s2) \<Longrightarrow> run_ops f (xs @ [x]) s = (rs @ [r], s2)"
  by (induction xs arbitrary: s rs) (auto split: prod.splits)

lemma accepted_snoc:
  "length xs = length rs \<Longrightarrow>
    accepted (xs @ [x]) (rs @ [r]) = accepted xs rs @ (case x of Enq y \<Rightarrow> if r = Accepted then [y] else [] | Deq \<Rightarrow> [])"
  by (induction xs rs rule: accepted.induct) (auto split: qop.splits, (cases r; auto)+)

lemma received_snoc: "received (rs @ [r]) = received rs @ (case r of Got v \<Rightarrow> [v] | _ \<Rightarrow> [])"
  by (induction rs rule: received.induct) (auto split: qres.splits)

text \<open>
  The general contract: every call of an implementation gives the answer and, seen through \<open>abs\<close>, the state of its
  specification. It carries over to runs.
\<close>

locale call_refinement =
  fixes call :: "'o \<Rightarrow> 's \<Rightarrow> 'r \<times> 's"
    and spec :: "'o \<Rightarrow> 'q \<Rightarrow> 'r \<times> 'q"
    and abs :: "'s \<Rightarrow> 'q"
    and inv :: "'s \<Rightarrow> bool"
    and okop :: "'o \<Rightarrow> bool"
  assumes keeps: "inv s \<Longrightarrow> okop x \<Longrightarrow> inv (snd (call x s))"
    and answers: "inv s \<Longrightarrow> okop x \<Longrightarrow> spec x (abs s) = (fst (call x s), abs (snd (call x s)))"
begin

lemma run_answers:
  assumes "inv s" and "\<forall>x \<in> set xs. okop x" and "run_ops call xs s = (rs, s')"
  shows "inv s' \<and> run_ops spec xs (abs s) = (rs, abs s')"
  using assms
proof (induction xs arbitrary: s rs)
  case Nil
  then show ?case by simp
next
  case (Cons x xs)
  from Cons.prems(3) obtain r s1 rs1 where step: "call x s = (r, s1)"
    and rest: "run_ops call xs s1 = (rs1, s')" and rs: "rs = r # rs1"
    by (auto split: prod.splits)
  have "inv s1" and "spec x (abs s) = (r, abs s1)"
    using keeps [of s x] answers [of s x] Cons.prems(1,2) step by simp_all
  with Cons.IH [OF _ _ rest] Cons.prems(2) rs show ?case by simp
qed

end

locale bounded_queue =
  fixes cap :: nat
    and opstep :: "'a qop \<Rightarrow> 's \<Rightarrow> 'a qres \<times> 's"
    and contents :: "'s \<Rightarrow> 'a list"
    and inv :: "'s \<Rightarrow> bool"
    and ok :: "'a \<Rightarrow> bool"
  assumes inv_step: "inv s \<Longrightarrow> \<forall>y \<in> set (enq_items [x]). ok y \<Longrightarrow> inv (snd (opstep x s))"
    and refines: "inv s \<Longrightarrow> \<forall>y \<in> set (enq_items [x]). ok y \<Longrightarrow>
      bq_step cap x (contents s) = (fst (opstep x s), contents (snd (opstep x s)))"
    and within_cap: "inv s \<Longrightarrow> length (contents s) \<le> cap"

sublocale bounded_queue \<subseteq> call_refinement opstep "bq_step cap" contents inv "\<lambda>x. \<forall>y \<in> set (enq_items [x]). ok y"
  by unfold_locales (blast intro: inv_step refines)+

context bounded_queue
begin

lemma run_refines:
  assumes "inv s" and "\<forall>y \<in> set (enq_items xs). ok y" and "run_ops opstep xs s = (rs, s')"
  shows "inv s' \<and> run_ops (bq_step cap) xs (contents s) = (rs, contents s')"
proof (rule run_answers [OF assms(1) _ assms(3)])
  show "\<forall>x \<in> set xs. \<forall>y \<in> set (enq_items [x]). ok y"
    using assms(2) by (induction xs rule: enq_items.induct) auto
qed

lemma run_fifo:
  assumes "inv s" and "\<forall>y \<in> set (enq_items xs). ok y" and "run_ops opstep xs s = (rs, s')"
  shows "contents s @ accepted xs rs = received rs @ contents s'"
  using run_refines [OF assms] by (auto dest: bq_run_fifo)

lemma run_bound:
  assumes "inv s" and "\<forall>y \<in> set (enq_items xs). ok y" and "run_ops opstep xs s = (rs, s')"
  shows "length (contents s') \<le> cap"
  using run_refines [OF assms] by (blast intro: within_cap)

end

end
