(* ===== verification/Kernel_Api.thy ===== *)
theory Kernel_Api
  imports Prelude
begin

text \<open>
  The services of the Linux kernel the sources call and do not define. Each is a parameter of the
  model, an argument of the definitions that use it, and each has a locale that states the
  documented behaviour the sources rely on:
  \<^item> \<open>spin_ops\<close> and \<open>kernel_spinlock\<close>: \<open>spin_lock_init\<close>, \<open>spin_lock\<close>, \<open>spin_unlock\<close>;
  \<^item> \<open>sem_ops\<close> and \<open>kernel_semaphore\<close>: \<open>__SEMAPHORE_INITIALIZER\<close>, \<open>down\<close>, \<open>up\<close>;
  \<^item> \<open>user_memory\<close>: \<open>copy_to_user\<close> of one \<open>int\<close>; \<open>user_text\<close>: \<open>copy_from_user\<close> of a number of bytes;
  \<^item> \<open>decimal_scan\<close>: \<open>sscanf\<close> with the format \<open>%d\<close>;
  \<^item> \<open>seq_files\<close>: \<open>single_open\<close>; \<open>procfs\<close> and \<open>proc_filesystem\<close>: creation and removal of entries under \<open>/proc\<close>.
  An acquisition that cannot complete now is \<open>None\<close>: the caller spins or sleeps. Which of the
  waiting callers is served first is left open, so what is proved holds for every such order.
  Every locale has an instance here, which also evaluates in the examples.
\<close>

type_synonym uaddr = "64 word"

section \<open>Spin locks\<close>

record 'lk spin_ops =
  spin_lock_init :: 'lk
  spin_lock :: "'lk \<Rightarrow> 'lk option"
  spin_unlock :: "'lk \<Rightarrow> 'lk"

locale kernel_spinlock =
  fixes L :: "'lk spin_ops" and held :: "'lk \<Rightarrow> bool"
  assumes init_free: "\<not> held (spin_lock_init L)"
    and lock_waits: "held l \<Longrightarrow> spin_lock L l = None"
    and lock_takes: "\<not> held l \<Longrightarrow> \<exists>l'. spin_lock L l = Some l' \<and> held l'"
    and unlock_frees: "\<not> held (spin_unlock L l)"
begin

lemma lock_Some: "spin_lock L l = Some l' \<Longrightarrow> \<not> held l \<and> held l'"
  using lock_waits [of l] lock_takes [of l] by (cases "held l") auto

lemma lock_None_iff: "spin_lock L l = None \<longleftrightarrow> held l"
  using lock_waits [of l] lock_takes [of l] by (cases "held l") auto

end

definition tas_lock :: "bool spin_ops" where
  "tas_lock = \<lparr>spin_lock_init = False, spin_lock = (\<lambda>l. if l then None else Some True),
     spin_unlock = (\<lambda>_. False)\<rparr>"

interpretation tas: kernel_spinlock tas_lock "\<lambda>l. l"
  by unfold_locales (auto simp: tas_lock_def)

section \<open>Semaphores\<close>

record 'sm sem_ops =
  sem_initializer :: "cint \<Rightarrow> 'sm"
  sem_down :: "'sm \<Rightarrow> 'sm option"
  sem_up :: "'sm \<Rightarrow> 'sm"

locale kernel_semaphore =
  fixes K :: "'sm sem_ops" and val :: "'sm \<Rightarrow> nat"
  assumes init_val [simp]: "val (sem_initializer K v) = unat v"
    and down_waits: "val s = 0 \<Longrightarrow> sem_down K s = None"
    and down_takes: "0 < val s \<Longrightarrow> \<exists>s'. sem_down K s = Some s' \<and> Suc (val s') = val s"
    and up_val [simp]: "val (sem_up K s) = Suc (val s)"
begin

lemma down_Some: "sem_down K s = Some s' \<Longrightarrow> val s = Suc (val s')"
  using down_waits [of s] down_takes [of s] by (cases "val s = 0") auto

lemma down_None_iff: "sem_down K s = None \<longleftrightarrow> val s = 0"
  using down_waits [of s] down_takes [of s] by (cases "val s = 0") auto

end

definition counting_sem :: "nat sem_ops" where
  "counting_sem = \<lparr>sem_initializer = unat, sem_down = (\<lambda>n. if n = 0 then None else Some (n - 1)),
     sem_up = Suc\<rparr>"

interpretation counting: kernel_semaphore counting_sem "\<lambda>n. n"
  by unfold_locales (simp_all add: counting_sem_def)

section \<open>Files of one function\<close>

text \<open>
  \<open>single_open\<close> of a file with a function that prints its contents: a return code, and the function the file has
  afterwards. If it succeeds, that is the one given.
\<close>

locale seq_files =
  fixes single_open :: "'f \<Rightarrow> cint \<times> 'f option"
  assumes opened: "single_open f = (0, g) \<Longrightarrow> g = Some f"

definition always_opens :: "'f \<Rightarrow> cint \<times> 'f option" where
  "always_opens f = (0, Some f)"

interpretation opens: seq_files always_opens
  by unfold_locales (simp add: always_opens_def)

section \<open>The proc file system\<close>

text \<open>
  The calls of \<open>linux/proc_fs.h\<close> that a module makes, on a state \<open>'w\<close> of the proc file system; \<open>'f\<close> is the type of the operations of a
  file. An entry is a pointer, \<open>None\<close> is \<open>NULL\<close>; \<open>NULL\<close> as a directory is the root. The locale states what the functions promise, in
  terms of the live entries: \<open>node w p\<close> is name, directory and, for a file, the operations of the entry at \<open>p\<close>. A creation in
  the root or in a live directory returns \<open>NULL\<close> and changes no entry, or adds one under a name that was free there, at an address no live
  entry has. \<open>remove_proc_entry\<close> removes an entry that has none in it; of others nothing is promised.
  \<open>remove_proc_subtree\<close> removes, and frees, an entry and all below it. Of \<open>proc_remove\<close> nothing is needed.
\<close>

type_synonym entry = "nat option"

record ('f, 'w) procfs =
  proc_mkdir :: "string \<Rightarrow> entry \<Rightarrow> 'w \<Rightarrow> entry \<times> 'w"
  proc_create :: "string \<Rightarrow> 16 word \<Rightarrow> entry \<Rightarrow> 'f \<Rightarrow> 'w \<Rightarrow> entry \<times> 'w"
  remove_proc_entry :: "string \<Rightarrow> entry \<Rightarrow> 'w \<Rightarrow> 'w"
  remove_proc_subtree :: "string \<Rightarrow> entry \<Rightarrow> 'w \<Rightarrow> 'w"
  proc_remove :: "entry \<Rightarrow> 'w \<Rightarrow> 'w"

type_synonym 'f nodes = "nat \<rightharpoonup> string \<times> entry \<times> 'f option"

definition free_name :: "'f nodes \<Rightarrow> string \<Rightarrow> entry \<Rightarrow> bool" where
  "free_name es n d \<longleftrightarrow> (\<nexists>p f. es p = Some (n, d, f))"

definition live_dir :: "'f nodes \<Rightarrow> entry \<Rightarrow> bool" where
  "live_dir es d \<longleftrightarrow> (case d of None \<Rightarrow> True | Some p \<Rightarrow> \<exists>n e. es p = Some (n, e, None))"

locale proc_filesystem =
  fixes F :: "('f, 'w) procfs" and node :: "'w \<Rightarrow> 'f nodes"
  assumes mkdir_null: "proc_mkdir F n d w = (None, w') \<Longrightarrow> live_dir (node w) d \<Longrightarrow> node w' = node w"
    and mkdir_some: "proc_mkdir F n d w = (Some p, w') \<Longrightarrow> live_dir (node w) d \<Longrightarrow>
      node w p = None \<and> free_name (node w) n d \<and> node w' = (node w)(p \<mapsto> (n, d, None))"
    and create_null: "proc_create F n mode d f w = (None, w') \<Longrightarrow> live_dir (node w) d \<Longrightarrow> node w' = node w"
    and create_some: "proc_create F n mode d f w = (Some p, w') \<Longrightarrow> live_dir (node w) d \<Longrightarrow>
      node w p = None \<and> free_name (node w) n d \<and> node w' = (node w)(p \<mapsto> (n, d, Some f))"
    and entry_removed: "node w p = Some (n, d, k) \<Longrightarrow> free_name ((node w)(p := None)) n d \<Longrightarrow> (\<forall>q m g. node w q \<noteq> Some (m, Some p, g)) \<Longrightarrow>
      node (remove_proc_entry F n d w) = (node w)(p := None)"
    and subtree_removed: "node w p = Some (n, d, k) \<Longrightarrow> free_name ((node w)(p := None)) n d \<Longrightarrow>
      node (remove_proc_subtree F n d w) p = None"
    and subtree_below: "node (remove_proc_subtree F n d w) q = Some (m, Some p, k) \<Longrightarrow> node w p \<noteq> None \<Longrightarrow>
      node (remove_proc_subtree F n d w) p \<noteq> None"
    and subtree_only: "node (remove_proc_subtree F n d w) q = Some x \<Longrightarrow> node w q = Some x"
begin

lemma subtree_file:
  assumes "node w p = Some (n, d, f)" and "free_name ((node w)(p := None)) n d" and "node w q = Some (m, Some p, g)"
  shows "node (remove_proc_subtree F n d w) q = None"
proof (rule ccontr)
  assume "node (remove_proc_subtree F n d w) q \<noteq> None"
  then have "node (remove_proc_subtree F n d w) q = Some (m, Some p, g)"
    using subtree_only [of n d w q] assms(3) by auto
  then show False
    using subtree_below [of n d w q m p g] subtree_removed [OF assms(1,2)] assms(1) by simp
qed

end

text \<open>An instance: entries at eight addresses.\<close>

inductive doomed :: "'f nodes \<Rightarrow> string \<Rightarrow> entry \<Rightarrow> nat \<Rightarrow> bool" for es n d where
  "es p = Some (n, d, f) \<Longrightarrow> doomed es n d p"
| "es q = Some (m, Some p, f) \<Longrightarrow> doomed es n d p \<Longrightarrow> doomed es n d q"

definition add_entry :: "string \<Rightarrow> entry \<Rightarrow> 'f option \<Rightarrow> 'f nodes \<Rightarrow> entry \<times> 'f nodes" where
  "add_entry n d f es =
     (if \<not> free_name es n d then (None, es)
      else case List.find (\<lambda>p. es p = None) [1, 2, 3, 4, 5, 6, 7, 8] of
        None \<Rightarrow> (None, es)
      | Some p \<Rightarrow> (Some p, es(p \<mapsto> (n, d, f))))"

definition table_procfs :: "('f, 'f nodes) procfs" where
  "table_procfs = \<lparr>proc_mkdir = (\<lambda>n d. add_entry n d None), proc_create = (\<lambda>n m d f. add_entry n d (Some f)),
     remove_proc_entry = (\<lambda>n d es p. case es p of None \<Rightarrow> None | Some (m, e, f) \<Rightarrow> if m = n \<and> e = d then None else Some (m, e, f)),
     remove_proc_subtree = (\<lambda>n d es p. if doomed es n d p then None else es p),
     proc_remove = (\<lambda>e es. case e of None \<Rightarrow> es | Some p \<Rightarrow> (case es p of None \<Rightarrow> es
       | Some (n, d, f) \<Rightarrow> (\<lambda>q. if doomed es n d q then None else es q)))\<rparr>"

lemma add_entry_cases:
  assumes "add_entry n d f es = (e, es')"
  shows "case e of None \<Rightarrow> es' = es | Some p \<Rightarrow> es p = None \<and> free_name es n d \<and> es' = es(p \<mapsto> (n, d, f))"
  using assms by (auto simp: add_entry_def find_Some_iff split: if_splits option.splits)

interpretation table: proc_filesystem table_procfs "\<lambda>es. es"
proof (unfold_locales, goal_cases)
  case (1 n d w w')
  then show ?case using add_entry_cases [of n d None w None w'] by (simp add: table_procfs_def)
next
  case (2 n d w p w')
  then show ?case using add_entry_cases [of n d None w "Some p" w'] by (simp add: table_procfs_def)
next
  case (3 n m d f w w')
  then show ?case using add_entry_cases [of n d "Some f" w None w'] by (simp add: table_procfs_def)
next
  case (4 n m d f w p w')
  then show ?case using add_entry_cases [of n d "Some f" w "Some p" w'] by (simp add: table_procfs_def)
next
  case (5 w p n d f)
  then show ?case by (auto simp: table_procfs_def free_name_def fun_eq_iff split: option.splits if_splits)
next
  case (6 w p n d f)
  then show ?case by (auto simp: table_procfs_def intro: doomed.intros)
next
  case (7 n d w q m p f)
  then show ?case by (auto simp: table_procfs_def split: if_splits intro: doomed.intros)
next
  case (8 n d w q x)
  then show ?case by (simp add: table_procfs_def split: if_splits)
qed

section \<open>Copying to user space\<close>

text \<open>
  \<open>copy_to_user\<close> of one \<open>int\<close> to an address: the number of bytes that could not be copied and the
  user memory afterwards (on a failure a part of the bytes may have been written).
\<close>

type_synonym 'm copy_out = "uaddr \<Rightarrow> cint \<Rightarrow> 'm \<Rightarrow> nat \<times> 'm"

locale user_memory =
  fixes ctu :: "'m copy_out" and load :: "'m \<Rightarrow> uaddr \<Rightarrow> cint"
  assumes copied: "ctu a v m = (0, m') \<Longrightarrow> load m' a = v"

text \<open>A user address space: the list of the mapped addresses, and the values there.\<close>

definition flat_copy_out :: "uaddr list \<Rightarrow> (uaddr \<Rightarrow> cint) copy_out" where
  "flat_copy_out mapped a v m = (if a \<in> set mapped then (0, m(a := v)) else (4, m))"

definition flat_load :: "(uaddr \<Rightarrow> cint) \<Rightarrow> uaddr \<Rightarrow> cint" where
  "flat_load m a = m a"

interpretation flat: user_memory "flat_copy_out mapped" flat_load for mapped
  by unfold_locales (auto simp: flat_copy_out_def flat_load_def split: if_splits)

section \<open>Copying from user space\<close>

text \<open>
  \<open>copy_from_user\<close> of \<open>n\<close> bytes at an address into a buffer: the number of bytes that could not be
  copied and the buffer afterwards.
\<close>

type_synonym 'm copy_in = "'m \<Rightarrow> uaddr \<Rightarrow> nat \<Rightarrow> string \<Rightarrow> nat \<times> string"

locale user_text =
  fixes cfu :: "'m copy_in" and bytes :: "'m \<Rightarrow> uaddr \<Rightarrow> nat \<Rightarrow> string"
  assumes bytes_length: "length (bytes m a n) = n"
    and copied_in: "n \<le> length buf \<Longrightarrow> cfu m a n buf = (0, buf') \<Longrightarrow> buf' = bytes m a n @ drop n buf"

text \<open>A user address space with the text of one write at its beginning and nothing else mapped.\<close>

definition text_bytes :: "string \<Rightarrow> uaddr \<Rightarrow> nat \<Rightarrow> string" where
  "text_bytes txt a n = take n (drop (unat a) txt @ replicate n (CHR 0x00))"

definition text_copy_in :: "string copy_in" where
  "text_copy_in txt a n buf =
     (if unat a + n \<le> length txt then (0, text_bytes txt a n @ drop n buf) else (n, buf))"

interpretation text_in: user_text text_copy_in text_bytes
proof
  show "buf' = text_bytes m a n @ drop n buf" if "n \<le> length buf" "text_copy_in m a n buf = (0, buf')"
    for m a n buf buf'
    using that by (auto simp: text_copy_in_def text_bytes_def split: if_splits)
qed (simp add: text_bytes_def)

section \<open>Scanning a decimal number\<close>

definition is_digit :: "char \<Rightarrow> bool" where
  "is_digit c \<longleftrightarrow> 48 \<le> (of_char c :: nat) \<and> (of_char c :: nat) \<le> 57"

text \<open>
  \<open>sscanf(s, "%d", &item)\<close>: the number it stores, \<open>None\<close> if it does not return 1. A non-negative number in
  the notation of \<open>%d\<close> is read back, up to the first character that is no digit.
\<close>

locale decimal_scan =
  fixes scan :: "string \<Rightarrow> cint option"
  assumes scan_number: "\<not> v <s 0 \<Longrightarrow> rest = [] \<or> \<not> is_digit (hd rest) \<Longrightarrow> scan (fmt_d v @ rest) = Some v"

definition digits_value :: "string \<Rightarrow> nat" where
  "digits_value ds = foldl (\<lambda>a c. 10 * a + (of_char c - 48)) 0 ds"

definition scan_dec :: "string \<Rightarrow> cint option" where
  "scan_dec s =
     (let s = dropWhile (\<lambda>c. c = CHR '' '') s;
          neg = (s \<noteq> [] \<and> hd s = CHR ''-'');
          ds = takeWhile is_digit (if neg then tl s else s)
      in if ds = [] then None
         else Some (word_of_int ((if neg then - 1 else 1) * int (digits_value ds))))"

lemma show_nat_digits: "show_nat n \<noteq> [] \<and> list_all is_digit (show_nat n) \<and> digits_value (show_nat n) = n"
proof (induction n rule: show_nat.induct)
  case (1 n)
  have digit: "(of_char (char_of (48 + k) :: char) :: nat) = 48 + k" if "k < 10" for k :: nat
    using that by simp
  show ?case
  proof (cases "n < 10")
    case True
    then show ?thesis
      using digit [OF True] by (simp add: show_nat.simps [of n] is_digit_def digits_value_def)
  next
    case False
    have "n mod 10 < 10" by simp
    with digit [OF this] 1 [OF False] False show ?thesis
      by (simp add: show_nat.simps [of n] is_digit_def digits_value_def)
  qed
qed

lemma fmt_d_nonneg: "\<not> v <s 0 \<Longrightarrow> fmt_d v = show_nat (unat v)"
  by (simp add: fmt_d_def word_sless_alt sint_small nonneg_iff_small [symmetric])

text \<open>A printed number ends at the quote behind it and can be read back.\<close>

lemma show_nat_char: "c \<in> set (show_nat n) \<Longrightarrow> is_digit c"
  using show_nat_digits [of n] by (simp add: list_all_iff)

lemma fmt_d_quote: "CHR 0x27 \<notin> set (fmt_d v)"
  using show_nat_char [of "CHR 0x27"] by (auto simp: fmt_d_def is_digit_def)

lemma fmt_d_inj: "fmt_d v = fmt_d w \<longleftrightarrow> v = w"
proof -
  have nat_inj: "show_nat m = show_nat n \<longleftrightarrow> m = n" for m n
    by (metis show_nat_digits)
  have sign: "show_nat n \<noteq> CHR ''-'' # cs" for n cs
    using show_nat_char [of "CHR ''-''" n] by (auto simp: is_digit_def)
  have "fmt_d v = fmt_d w \<longleftrightarrow> sint v = sint w"
    by (auto simp: fmt_d_def sign sign [symmetric] nat_inj)
  then show ?thesis
    by (metis signed_word_eqI)
qed

lemma quoted_inj:
  "quoted (fmt_d v) @ r = quoted (fmt_d w) @ r' \<longleftrightarrow> v = w \<and> r = r'" "quoted (fmt_d v) = quoted (fmt_d w) \<longleftrightarrow> v = w"
  by (simp_all add: quoted_def upto_char fmt_d_quote fmt_d_inj)

interpretation dec: decimal_scan scan_dec
proof
  fix v :: cint and rest
  assume v: "\<not> v <s 0" and rest: "rest = [] \<or> \<not> is_digit (hd rest)"
  let ?s = "show_nat (unat v)"
  have s: "?s \<noteq> []" "list_all is_digit ?s" "digits_value ?s = unat v"
    using show_nat_digits [of "unat v"] by simp_all
  have no: "\<not> is_digit (CHR '' '')" "\<not> is_digit (CHR ''-'')"
    by (simp_all add: is_digit_def)
  have hd: "is_digit (hd ?s)"
    using s(1,2) by (cases ?s) auto
  have drop: "dropWhile (\<lambda>c. c = CHR '' '') (?s @ rest) = ?s @ rest"
    using s(1) hd no by (cases ?s) auto
  have take: "takeWhile is_digit (?s @ rest) = ?s"
    using s(2) rest by (cases rest) (auto simp: list_all_iff takeWhile_append)
  have "hd (?s @ rest) \<noteq> CHR ''-''"
    using s(1) hd no by auto
  then show "scan_dec (fmt_d v @ rest) = Some v"
    using s drop take v by (simp add: scan_dec_def fmt_d_nonneg Let_def)
qed

end
