(* ===== verification/Os_Kboard.thy ===== *)
theory Os_Kboard
  imports Ring_Buffer Bounded_Queue Kernel_Api
begin

text \<open>
  The kernel half of the first kboard (\<open>lab1/kernel/os_kboard.c\<close>): the global ring buffer with its
  spin lock, and the system calls \<open>kb_enqueue\<close>, \<open>kb_dequeue\<close> and \<open>kb_init\<close>, as one caller executes
  them. The globals are the record \<open>kb\<close>; the spin lock and \<open>copy_to_user\<close> are parameters. A call
  returns its \<open>long\<close> result with the new state, or a fault: \<open>Blocked\<close> when the lock is held and would
  never be released, \<open>OutOfBounds\<close> when an index leaves the array. \<open>printk\<close> only writes the kernel
  log and is left out. The interleaving of several callers is in the theory \<open>Os_Kboard_Conc\<close>.
\<close>

section \<open>State and operations\<close>

definition MAX_CLIP :: cint where
  "MAX_CLIP = 5"

definition INIT_VALUE :: cint where
  "INIT_VALUE = - 1"

record 'lk kb =
  Lock :: 'lk
  Ring :: "cint list"
  Count :: cint
  CurrentIndex :: cint

text \<open>The globals before the first call: the C initialisers, and zeroes where there is none.\<close>

definition kb_boot :: "'lk \<Rightarrow> 'lk kb" where
  "kb_boot l0 = \<lparr>Lock = l0, Ring = replicate 5 0, Count = 0, CurrentIndex = 0\<rparr>"

definition kb_spin_lock :: "'lk spin_ops \<Rightarrow> 'lk kb \<Rightarrow> 'lk kb result" where
  "kb_spin_lock L s = (case spin_lock L (Lock s) of None \<Rightarrow> Inl Blocked | Some l \<Rightarrow> Inr (s\<lparr>Lock := l\<rparr>))"

definition kb_spin_unlock :: "'lk spin_ops \<Rightarrow> 'lk kb \<Rightarrow> 'lk kb" where
  "kb_spin_unlock L s = s\<lparr>Lock := spin_unlock L (Lock s)\<rparr>"

definition do_sys_kb_enqueue :: "'lk spin_ops \<Rightarrow> cint \<Rightarrow> 'lk kb \<Rightarrow> (clong \<times> 'lk kb) result" where
  "do_sys_kb_enqueue L item s =
     (if item <s 0 then Inr (- 2, s)
      else rbind (kb_spin_lock L s) (\<lambda>s.
        if MAX_CLIP <=s Count s then Inr (- 1, kb_spin_unlock L s)
        else rbind (arr_set (Ring s) (c_mod (CurrentIndex s + Count s) MAX_CLIP) item) (\<lambda>r.
          let s = s\<lparr>Ring := r\<rparr>;
              s = s\<lparr>Count := Count s + 1\<rparr>
          in Inr (0, kb_spin_unlock L s))))"

definition do_sys_kb_dequeue ::
    "'lk spin_ops \<Rightarrow> 'm copy_out \<Rightarrow> uaddr \<Rightarrow> 'lk kb \<times> 'm \<Rightarrow> (clong \<times> 'lk kb \<times> 'm) result" where
  "do_sys_kb_dequeue L ctu user_buf = (\<lambda>(s, m).
     rbind (kb_spin_lock L s) (\<lambda>s.
       if Count s <=s 0 then Inr (- 1, kb_spin_unlock L s, m)
       else rbind (arr_get (Ring s) (CurrentIndex s)) (\<lambda>v.
         case ctu user_buf v m of (uncopied, m) \<Rightarrow>
           if uncopied \<noteq> 0 then Inr (- 2, kb_spin_unlock L s, m)
           else rbind (arr_set (Ring s) (CurrentIndex s) INIT_VALUE) (\<lambda>r.
             let s = s\<lparr>Ring := r\<rparr>;
                 s = s\<lparr>Count := Count s - 1\<rparr>;
                 s = s\<lparr>CurrentIndex := c_mod (CurrentIndex s + 1) MAX_CLIP\<rparr>
             in Inr (0, kb_spin_unlock L s, m)))))"

definition do_sys_kb_init :: "'lk spin_ops \<Rightarrow> 'lk kb \<Rightarrow> (clong \<times> 'lk kb) result" where
  "do_sys_kb_init L s =
     rbind (kb_spin_lock L (s\<lparr>Lock := spin_lock_init L\<rparr>)) (\<lambda>s.
     rbind (fill_loop MAX_CLIP INIT_VALUE (Ring s) 0) (\<lambda>r.
       let s = s\<lparr>Ring := r\<rparr>;
           s = s\<lparr>Count := 0\<rparr>;
           s = s\<lparr>CurrentIndex := 0\<rparr>
       in Inr (0, kb_spin_unlock L s)))"

text \<open>
  The system call entry points. \<open>SYSCALL_DEFINE1\<close> receives its argument as a \<open>long\<close> and casts it to
  the declared type (the macro is in \<open>lab1/kernel/syscalls.h\<close>).
\<close>

definition sys_kb_enqueue :: "'lk spin_ops \<Rightarrow> clong \<Rightarrow> 'lk kb \<Rightarrow> (clong \<times> 'lk kb) result" where
  "sys_kb_enqueue L item s = do_sys_kb_enqueue L (ucast item) s"

definition sys_kb_dequeue ::
    "'lk spin_ops \<Rightarrow> 'm copy_out \<Rightarrow> clong \<Rightarrow> 'lk kb \<times> 'm \<Rightarrow> (clong \<times> 'lk kb \<times> 'm) result" where
  "sys_kb_dequeue L ctu user_buf sm = do_sys_kb_dequeue L ctu user_buf sm"

definition sys_kb_init :: "'lk spin_ops \<Rightarrow> 'lk kb \<Rightarrow> (clong \<times> 'lk kb) result" where
  "sys_kb_init L s = do_sys_kb_init L s"

section \<open>Abstraction and invariant\<close>

definition kb_contents :: "'lk kb \<Rightarrow> cint list" where
  "kb_contents s = ring_contents (Ring s) (CurrentIndex s) (Count s)"

text \<open>Well-formed data: indices in range, no stored item negative.\<close>

definition kb_wf :: "'lk kb \<Rightarrow> bool" where
  "kb_wf s \<longleftrightarrow> ring_inv 5 (Ring s) (CurrentIndex s) (Count s) \<and> list_all (\<lambda>x. \<not> x <s 0) (kb_contents s)"

text \<open>After an initialisation every slot outside the queue holds \<open>INIT_VALUE\<close>.\<close>

definition kb_clean :: "'lk kb \<Rightarrow> bool" where
  "kb_clean s \<longleftrightarrow> list_all (\<lambda>x. x = INIT_VALUE) (ring_free (Ring s) (CurrentIndex s) (Count s))"

text \<open>
  A sequence of calls. A caller sees what a call returns and, when it is back from \<open>kb_dequeue\<close>, what its buffer holds;
  a call that faults does not return.
\<close>

datatype kcall = Call_enqueue cint | Call_dequeue uaddr | Call_init

datatype kanswer = Returned clong | Buffer clong cint | No_return

fun kb_call :: "'lk spin_ops \<Rightarrow> 'm copy_out \<Rightarrow> ('m \<Rightarrow> uaddr \<Rightarrow> cint) \<Rightarrow> kcall \<Rightarrow> 'lk kb \<times> 'm \<Rightarrow> kanswer \<times> 'lk kb \<times> 'm" where
  "kb_call L ctu load (Call_enqueue item) (s, m) =
     (case do_sys_kb_enqueue L item s of Inl _ \<Rightarrow> (No_return, s, m) | Inr (ret, s') \<Rightarrow> (Returned ret, s', m))"
| "kb_call L ctu load (Call_dequeue a) (s, m) =
     (case do_sys_kb_dequeue L ctu a (s, m) of Inl _ \<Rightarrow> (No_return, s, m) | Inr (ret, s', m') \<Rightarrow> (Buffer ret (load m' a), s', m'))"
| "kb_call L ctu load Call_init (s, m) =
     (case do_sys_kb_init L s of Inl _ \<Rightarrow> (No_return, s, m) | Inr (ret, s') \<Rightarrow> (Returned ret, s', m))"

text \<open>
  What the calls promise, over the queue and the user memory only: five items at most, first in, first out; a negative
  item, a full queue, an empty queue and a copy that fails each leave the queue alone.
\<close>

fun kb_spec :: "'m copy_out \<Rightarrow> ('m \<Rightarrow> uaddr \<Rightarrow> cint) \<Rightarrow> kcall \<Rightarrow> cint list \<times> 'm \<Rightarrow> kanswer \<times> cint list \<times> 'm" where
  "kb_spec ctu load (Call_enqueue item) (q, m) =
     (if item <s 0 then (Returned (- 2), q, m)
      else if length q < 5 then (Returned 0, q @ [item], m) else (Returned (- 1), q, m))"
| "kb_spec ctu load (Call_dequeue a) (q, m) =
     (case q of
        [] \<Rightarrow> (Buffer (- 1) (load m a), [], m)
      | x # q' \<Rightarrow> (case ctu a x m of (uncopied, m') \<Rightarrow>
          if uncopied = 0 then (Buffer 0 x, q', m') else (Buffer (- 2) (load m' a), q, m')))"
| "kb_spec ctu load Call_init (q, m) = (Returned 0, [], m)"

text \<open>The items the calls took, and the items they gave, in order.\<close>

fun taken :: "kcall list \<Rightarrow> kanswer list \<Rightarrow> cint list" where
  "taken (Call_enqueue item # cs) (Returned ret # rs) = (if ret = 0 then [item] else []) @ taken cs rs"
| "taken (c # cs) (r # rs) = taken cs rs"
| "taken cs rs = []"

fun given :: "kanswer list \<Rightarrow> cint list" where
  "given [] = []"
| "given (Buffer ret v # rs) = (if ret = 0 then [v] else []) @ given rs"
| "given (r # rs) = given rs"

lemma kb_spec_returns:
  "run_ops (kb_spec ctu load) cs (q, m) = (rs, q', m') \<Longrightarrow> No_return \<notin> set rs"
proof (induction cs arbitrary: q m rs)
  case (Cons c cs)
  then obtain r q1 m1 rs1 where "kb_spec ctu load c (q, m) = (r, q1, m1)"
    and rest: "run_ops (kb_spec ctu load) cs (q1, m1) = (rs1, q', m')" and rs: "rs = r # rs1"
    by (auto split: prod.splits)
  then have "r \<noteq> No_return"
    by (cases c) (auto split: if_splits list.splits prod.splits)
  with Cons.IH [OF rest] rs show ?case by simp
qed simp

lemma kb_spec_fifo:
  "run_ops (kb_spec ctu load) cs (q, m) = (rs, q', m') \<Longrightarrow> Call_init \<notin> set cs \<Longrightarrow> q @ taken cs rs = given rs @ q'"
proof (induction cs arbitrary: q m rs)
  case Nil
  then show ?case by simp
next
  case (Cons c cs)
  from Cons.prems(1) obtain r q1 m1 rs1 where step: "kb_spec ctu load c (q, m) = (r, q1, m1)"
    and rest: "run_ops (kb_spec ctu load) cs (q1, m1) = (rs1, q', m')" and rs: "rs = r # rs1"
    by (auto split: prod.splits)
  from Cons.IH [OF rest] Cons.prems(2) step rs show ?case
    by (cases c) (auto split: if_splits list.splits prod.splits)
qed

lemmas kb_defs = kb_spin_lock_def kb_spin_unlock_def MAX_CLIP_def Let_def

lemma unat_MAX_CLIP [simp]: "unat MAX_CLIP = 5"
  by (simp add: MAX_CLIP_def)

lemma kb_length_contents: "length (kb_contents s) = unat (Count s)"
  by (simp add: kb_contents_def)

lemma kb_wf_lock [simp]: "kb_wf (s\<lparr>Lock := l\<rparr>) = kb_wf s" "kb_contents (s\<lparr>Lock := l\<rparr>) = kb_contents s"
  "kb_clean (s\<lparr>Lock := l\<rparr>) = kb_clean s"
  by (simp_all add: kb_wf_def kb_contents_def kb_clean_def)

lemma kb_wf_bound: "kb_wf s \<Longrightarrow> length (kb_contents s) \<le> 5"
  by (simp add: kb_length_contents kb_wf_def ring_inv_def)

lemma kb_full_iff: "kb_wf s \<Longrightarrow> (MAX_CLIP <=s Count s) = (length (kb_contents s) = 5)"
  by (auto simp: kb_wf_def ring_inv_def kb_length_contents cint_simps)

lemma kb_empty_iff: "kb_wf s \<Longrightarrow> (Count s <=s 0) = (kb_contents s = [])"
  by (auto simp: kb_wf_def ring_inv_def cint_simps kb_contents_def ring_contents_def rslice_def)

text \<open>The data part of an enqueue: the store and the increment.\<close>

definition kb_pushed :: "'lk kb \<Rightarrow> cint \<Rightarrow> 'lk kb" where
  "kb_pushed s x = s\<lparr>Ring := (Ring s)[(unat (CurrentIndex s) + unat (Count s)) mod 5 := x],
     Count := Count s + 1\<rparr>"

lemma kb_push:
  assumes wf: "kb_wf s" and room: "length (kb_contents s) < 5" and ok: "\<not> x <s 0"
  shows "arr_set (Ring s) (c_mod (CurrentIndex s + Count s) MAX_CLIP) x = Inr (Ring (kb_pushed s x))"
    and "kb_wf (kb_pushed s x)"
    and "kb_contents (kb_pushed s x) = kb_contents s @ [x]"
    and "kb_clean s \<longrightarrow> kb_clean (kb_pushed s x)"
proof -
  have inv: "ring_inv 5 (Ring s) (CurrentIndex s) (Count s)" and lt: "unat (Count s) < 5"
    using wf room by (simp_all add: kb_wf_def kb_length_contents)
  note push = ring_push [OF inv unat_MAX_CLIP lt, of x]
  show "arr_set (Ring s) (c_mod (CurrentIndex s + Count s) MAX_CLIP) x = Inr (Ring (kb_pushed s x))"
    using push(1) by (simp add: kb_pushed_def)
  show contents: "kb_contents (kb_pushed s x) = kb_contents s @ [x]"
    using push(3) by (simp add: kb_contents_def kb_pushed_def)
  show "kb_wf (kb_pushed s x)"
    using push(2) wf ok unfolding kb_wf_def contents by (simp add: kb_pushed_def)
  show "kb_clean s \<longrightarrow> kb_clean (kb_pushed s x)"
    using push(4) by (simp add: kb_clean_def kb_pushed_def list_all_tl)
qed

text \<open>The data part of a dequeue: the reset of the slot, the decrement and the advance.\<close>

definition kb_popped :: "'lk kb \<Rightarrow> 'lk kb" where
  "kb_popped s = s\<lparr>Ring := (Ring s)[unat (CurrentIndex s) := INIT_VALUE], Count := Count s - 1,
     CurrentIndex := c_mod (CurrentIndex s + 1) MAX_CLIP\<rparr>"

lemma kb_pop:
  assumes wf: "kb_wf s" and some: "kb_contents s \<noteq> []"
  shows "arr_get (Ring s) (CurrentIndex s) = Inr (hd (kb_contents s))"
    and "arr_set (Ring s) (CurrentIndex s) INIT_VALUE = Inr (Ring (kb_popped s))"
    and "kb_wf (kb_popped s)"
    and "kb_contents (kb_popped s) = tl (kb_contents s)"
    and "kb_clean s \<longrightarrow> kb_clean (kb_popped s)"
proof -
  have inv: "ring_inv 5 (Ring s) (CurrentIndex s) (Count s)" and pos: "0 < unat (Count s)"
    using wf some kb_length_contents [of s] by (auto simp: kb_wf_def intro: Nat.gr0I)
  note pop = ring_pop(1) [OF inv unat_MAX_CLIP pos] ring_pop(2-) [OF inv unat_MAX_CLIP pos, of INIT_VALUE]
  have contents: "kb_contents s = Ring s ! unat (CurrentIndex s) # kb_contents (kb_popped s)"
    using pop(4) by (simp add: kb_contents_def kb_popped_def)
  then show "arr_get (Ring s) (CurrentIndex s) = Inr (hd (kb_contents s))"
    using pop(1) by simp
  show "arr_set (Ring s) (CurrentIndex s) INIT_VALUE = Inr (Ring (kb_popped s))"
    using pop(2) by (simp add: kb_popped_def)
  show "kb_contents (kb_popped s) = tl (kb_contents s)"
    using contents by simp
  show "kb_wf (kb_popped s)"
    using pop(3) wf contents unfolding kb_wf_def by (simp add: kb_popped_def)
  show "kb_clean s \<longrightarrow> kb_clean (kb_popped s)"
    using pop(5) by (simp add: kb_clean_def kb_popped_def)
qed

section \<open>The calls on an unlocked kboard\<close>

context kernel_spinlock
begin

lemma kb_lock_free:
  assumes "\<not> held (Lock s)"
  obtains l where "kb_spin_lock L s = Inr (s\<lparr>Lock := l\<rparr>)"
  using lock_takes [OF assms] by (auto simp: kb_spin_lock_def)

lemma kb_lock_held: "held (Lock s) \<Longrightarrow> kb_spin_lock L s = Inl Blocked"
  by (simp add: kb_spin_lock_def lock_waits)

lemma kb_unlock_free [simp]: "\<not> held (Lock (kb_spin_unlock L s))"
  by (simp add: kb_spin_unlock_def unlock_frees)

lemma enqueue_blocked: "held (Lock s) \<Longrightarrow> \<not> x <s 0 \<Longrightarrow> do_sys_kb_enqueue L x s = Inl Blocked"
  by (simp add: do_sys_kb_enqueue_def kb_lock_held)

lemma enqueue_full:
  assumes "kb_wf s" and "\<not> held (Lock s)" and "\<not> x <s 0" and "length (kb_contents s) = 5"
  shows "\<exists>l. do_sys_kb_enqueue L x s = Inr (- 1, s\<lparr>Lock := l\<rparr>) \<and> \<not> held l"
proof -
  obtain l where l: "kb_spin_lock L s = Inr (s\<lparr>Lock := l\<rparr>)"
    using kb_lock_free [OF assms(2)] .
  have "MAX_CLIP <=s Count s"
    using assms(1,4) by (simp add: kb_full_iff)
  with l assms(3) have "do_sys_kb_enqueue L x s = Inr (- 1, s\<lparr>Lock := spin_unlock L l\<rparr>)"
    by (simp add: do_sys_kb_enqueue_def kb_spin_unlock_def)
  then show ?thesis
    using unlock_frees by blast
qed

lemma enqueue_room:
  assumes "kb_wf s" and "\<not> held (Lock s)" and "\<not> x <s 0" and "length (kb_contents s) < 5"
  shows "\<exists>l. do_sys_kb_enqueue L x s = Inr (0, (kb_pushed s x)\<lparr>Lock := l\<rparr>) \<and> \<not> held l"
proof -
  obtain l where l: "kb_spin_lock L s = Inr (s\<lparr>Lock := l\<rparr>)"
    using kb_lock_free [OF assms(2)] .
  have "\<not> MAX_CLIP <=s Count s"
    using assms(1,4) kb_full_iff [of s] by simp
  with l assms(3) kb_push(1) [OF assms(1,4,3)]
  have "do_sys_kb_enqueue L x s = Inr (0, (kb_pushed s x)\<lparr>Lock := spin_unlock L l\<rparr>)"
    by (simp add: do_sys_kb_enqueue_def kb_spin_unlock_def kb_pushed_def Let_def)
  then show ?thesis
    using unlock_frees by blast
qed

lemma dequeue_blocked: "held (Lock s) \<Longrightarrow> do_sys_kb_dequeue L ctu a (s, m) = Inl Blocked"
  by (simp add: do_sys_kb_dequeue_def kb_lock_held)

lemma dequeue_empty:
  assumes "kb_wf s" and "\<not> held (Lock s)" and "kb_contents s = []"
  shows "\<exists>l. do_sys_kb_dequeue L ctu a (s, m) = Inr (- 1, s\<lparr>Lock := l\<rparr>, m) \<and> \<not> held l"
proof -
  obtain l where l: "kb_spin_lock L s = Inr (s\<lparr>Lock := l\<rparr>)"
    using kb_lock_free [OF assms(2)] .
  have "Count s <=s 0"
    using assms(1,3) by (simp add: kb_empty_iff)
  with l have "do_sys_kb_dequeue L ctu a (s, m) = Inr (- 1, s\<lparr>Lock := spin_unlock L l\<rparr>, m)"
    by (simp add: do_sys_kb_dequeue_def kb_spin_unlock_def)
  then show ?thesis
    using unlock_frees by blast
qed

lemma dequeue_some:
  assumes "kb_wf s" and "\<not> held (Lock s)" and "kb_contents s \<noteq> []"
    and "ctu a (hd (kb_contents s)) m = (uncopied, m')"
  shows "\<exists>l. do_sys_kb_dequeue L ctu a (s, m) =
      Inr (if uncopied = 0 then (0, (kb_popped s)\<lparr>Lock := l\<rparr>, m') else (- 2, s\<lparr>Lock := l\<rparr>, m')) \<and>
    \<not> held l"
proof -
  obtain l where l: "kb_spin_lock L s = Inr (s\<lparr>Lock := l\<rparr>)"
    using kb_lock_free [OF assms(2)] .
  have "\<not> Count s <=s 0"
    using assms(1,3) by (simp add: kb_empty_iff)
  with l assms(4) kb_pop(1,2) [OF assms(1,3)]
  have "do_sys_kb_dequeue L ctu a (s, m) =
      Inr (if uncopied = 0 then (0, (kb_popped s)\<lparr>Lock := spin_unlock L l\<rparr>, m')
           else (- 2, s\<lparr>Lock := spin_unlock L l\<rparr>, m'))"
    by (simp add: do_sys_kb_dequeue_def kb_spin_unlock_def kb_popped_def Let_def)
  then show ?thesis
    using unlock_frees by blast
qed

lemma init_all:
  assumes "length (Ring s) = 5"
  shows "\<exists>l. do_sys_kb_init L s =
      Inr (0, \<lparr>Lock = l, Ring = replicate 5 INIT_VALUE, Count = 0, CurrentIndex = 0\<rparr>) \<and> \<not> held l"
proof -
  obtain l where l: "kb_spin_lock L (s\<lparr>Lock := spin_lock_init L\<rparr>) = Inr (s\<lparr>Lock := l\<rparr>)"
    using kb_lock_free [of "s\<lparr>Lock := spin_lock_init L\<rparr>"] init_free by auto
  have "fill_loop MAX_CLIP INIT_VALUE (Ring s) 0 = Inr (replicate 5 INIT_VALUE)"
    using fill_loop_all [of MAX_CLIP "Ring s" 0 INIT_VALUE] assms by simp
  with l have "do_sys_kb_init L s = Inr (0, \<lparr>Lock = spin_unlock L l,
      Ring = replicate 5 INIT_VALUE, Count = 0, CurrentIndex = 0\<rparr>)"
    by (simp add: do_sys_kb_init_def kb_spin_unlock_def Let_def)
  then show ?thesis
    using unlock_frees by blast
qed

end

lemma kb_initial_wf:
  "kb_wf \<lparr>Lock = l, Ring = replicate 5 INIT_VALUE, Count = 0, CurrentIndex = 0\<rparr>"
  "kb_clean \<lparr>Lock = l, Ring = replicate 5 INIT_VALUE, Count = 0, CurrentIndex = 0\<rparr>"
  "kb_contents \<lparr>Lock = l, Ring = replicate 5 INIT_VALUE, Count = 0, CurrentIndex = 0\<rparr> = []"
  by (simp_all add: kb_wf_def kb_clean_def kb_contents_def ring_inv_def ring_contents_def ring_free_def
      rslice_def list_all_iff)

lemma kb_boot_wf: "kb_wf (kb_boot l)" "kb_contents (kb_boot l) = []"
  by (simp_all add: kb_wf_def kb_boot_def kb_contents_def ring_inv_def ring_contents_def rslice_def)

text \<open>
  The callers: the lock works, and a copy that reports success was made. The calls then refine \<open>kb_spec\<close>,
  on every well-formed kboard and, with the free slots cleared, on every initialised one.
\<close>

locale kb_caller = kernel_spinlock L held + user_memory ctu load
  for L :: "'lk spin_ops" and held and ctu :: "'m copy_out" and load
begin

lemma kb_call_enqueue:
  assumes "kb_wf s" and "\<not> held (Lock s)"
  shows "\<exists>l. \<not> held l \<and> kb_call L ctu load (Call_enqueue x) (s, m) =
    (if x <s 0 then (Returned (- 2), s, m)
     else if length (kb_contents s) < 5 then (Returned 0, (kb_pushed s x)\<lparr>Lock := l\<rparr>, m)
     else (Returned (- 1), s\<lparr>Lock := l\<rparr>, m))"
proof (cases "x <s 0 \<or> length (kb_contents s) < 5")
  case True
  with enqueue_room [OF assms, of x] assms(2) show ?thesis
    by (cases "x <s 0") (auto simp: do_sys_kb_enqueue_def)
next
  case False
  then have "length (kb_contents s) = 5"
    using assms(1) by (simp add: kb_wf_def ring_inv_def kb_length_contents)
  with False enqueue_full [OF assms, of x] show ?thesis by auto
qed

lemma kb_call_dequeue:
  assumes "kb_wf s" and "\<not> held (Lock s)"
  shows "\<exists>l. \<not> held l \<and> kb_call L ctu load (Call_dequeue a) (s, m) =
    (case kb_contents s of
       [] \<Rightarrow> (Buffer (- 1) (load m a), s\<lparr>Lock := l\<rparr>, m)
     | x # q \<Rightarrow> (case ctu a x m of (uncopied, m') \<Rightarrow>
         if uncopied = 0 then (Buffer 0 x, (kb_popped s)\<lparr>Lock := l\<rparr>, m') else (Buffer (- 2) (load m' a), s\<lparr>Lock := l\<rparr>, m')))"
proof (cases "kb_contents s")
  case Nil
  with dequeue_empty [OF assms Nil, of ctu a m] show ?thesis by auto
next
  case (Cons x q)
  obtain u m' where ctu: "ctu a x m = (u, m')"
    by fastforce
  with Cons dequeue_some [OF assms, of ctu a m u m'] copied [of a x m m'] show ?thesis
    by (cases "u = 0") auto
qed

lemma kb_call_init:
  assumes "kb_wf s"
  shows "\<exists>l. \<not> held l \<and> kb_call L ctu load Call_init (s, m) =
    (Returned 0, \<lparr>Lock = l, Ring = replicate 5 INIT_VALUE, Count = 0, CurrentIndex = 0\<rparr>, m)"
  using init_all [of s] assms by (auto simp: kb_wf_def ring_inv_def)

lemma kb_call_refines:
  assumes "kb_wf s" and "\<not> held (Lock s)"
  shows "\<exists>r s' m'. kb_call L ctu load c (s, m) = (r, s', m') \<and> kb_wf s' \<and> \<not> held (Lock s') \<and>
    (kb_clean s \<longrightarrow> kb_clean s') \<and> kb_spec ctu load c (kb_contents s, m) = (r, kb_contents s', m')"
proof (cases c)
  case (Call_enqueue x)
  with kb_call_enqueue [OF assms, of x m] kb_push [OF assms(1), of x] assms show ?thesis
    by (cases "x <s 0 \<or> \<not> length (kb_contents s) < 5") (auto split: if_splits)
next
  case (Call_dequeue a)
  with kb_call_dequeue [OF assms, of a m] kb_pop [OF assms(1)] assms(1) show ?thesis
    by (cases "kb_contents s") (auto split: prod.splits)
next
  case Call_init
  with kb_call_init [OF assms(1), of m] show ?thesis by (auto simp: kb_initial_wf)
qed

end

sublocale kb_caller \<subseteq> kbq: call_refinement "kb_call L ctu load" "kb_spec ctu load" "\<lambda>(s, m). (kb_contents s, m)"
  "\<lambda>(s, m). kb_wf s \<and> \<not> held (Lock s)" "\<lambda>_. True"
proof (unfold_locales, goal_cases)
  case (1 sm x)
  then show ?case using kb_call_refines [of "fst sm" x "snd sm"] by (auto split: prod.splits)
next
  case (2 sm x)
  then show ?case using kb_call_refines [of "fst sm" x "snd sm"] by (auto split: prod.splits)
qed

sublocale kb_caller \<subseteq> kbc: call_refinement "kb_call L ctu load" "kb_spec ctu load" "\<lambda>(s, m). (kb_contents s, m)"
  "\<lambda>(s, m). kb_wf s \<and> \<not> held (Lock s) \<and> kb_clean s" "\<lambda>_. True"
proof (unfold_locales, goal_cases)
  case (1 sm x)
  then show ?case using kb_call_refines [of "fst sm" x "snd sm"] by (auto split: prod.splits)
next
  case (2 sm x)
  then show ?case using kb_call_refines [of "fst sm" x "snd sm"] by (auto split: prod.splits)
qed

context kb_caller
begin

lemma kb_run:
  assumes "kb_wf s" and "\<not> held (Lock s)" and "run_ops (kb_call L ctu load) calls (s, m) = (rs, s', m')"
  shows "kb_wf s'" and "\<not> held (Lock s')" and "run_ops (kb_spec ctu load) calls (kb_contents s, m) = (rs, kb_contents s', m')"
  using kbq.run_answers [OF _ _ assms(3)] assms(1,2) by simp_all

lemma kb_run_clean:
  assumes "kb_wf s" and "\<not> held (Lock s)" and "kb_clean s" and "run_ops (kb_call L ctu load) calls (s, m) = (rs, s', m')"
  shows "kb_wf s' \<and> kb_clean s'"
  using kbc.run_answers [OF _ _ assms(4)] assms(1-3) by simp

end

text \<open>A caller whose buffer is writable.\<close>

locale kb_env = kb_caller L held ctu load
  for L :: "'lk spin_ops" and held and ctu :: "'m copy_out" and load +
  fixes a :: uaddr
  assumes writable: "fst (ctu a v m) = 0"

text \<open>In an initialised kboard the slots that hold a valid item are exactly the queued ones.\<close>

lemma kb_clean_count:
  assumes "kb_wf s" and "kb_clean s"
  shows "cnt (\<lambda>x. \<not> x <s 0) (Ring s) = unat (Count s)"
proof -
  let ?P = "\<lambda>x :: cint. \<not> x <s 0"
  let ?c = "ring_contents (Ring s) (CurrentIndex s) (Count s)"
  let ?f = "ring_free (Ring s) (CurrentIndex s) (Count s)"
  have "list_all (\<lambda>x. \<not> ?P x) ?f"
    using assms(2) by (auto simp: kb_clean_def list_all_iff INIT_VALUE_def)
  moreover have "list_all ?P ?c" and inv: "ring_inv 5 (Ring s) (CurrentIndex s) (Count s)"
    using assms(1) by (simp_all add: kb_wf_def kb_contents_def)
  ultimately have "cnt ?P (?c @ ?f) = length ?c"
    by (simp only: cnt_append cnt_all cnt_none)
  then show ?thesis
    by (simp only: ring_rotate [OF inv] cnt_rotate ring_contents_length)
qed

interpretation flat_calls: kb_caller tas_lock "\<lambda>l. l" "flat_copy_out mapped" flat_load for mapped
  by unfold_locales

interpretation flat_kb: kb_env tas_lock "\<lambda>l. l" "flat_copy_out [a]" flat_load a for a
  by unfold_locales (simp add: flat_copy_out_def)

section \<open>Properties\<close>

text \<open>
  C29: The result and the new state of \<open>do_sys_kb_enqueue\<close> on a well-formed kboard, on each of its paths. A negative item is
  refused with -2, whoever holds the lock, and nothing changes. With another item the call waits for ever where the lock is held.
  Where it is free the call returns, the kboard is well formed and unlocked again, and the queue is kept with the result -1
  if it was full, and otherwise has the item as its newest one with the result 0. No store leaves the array.
\<close>

theorem kb_enqueue_correct:
  assumes "kernel_spinlock L held" and "kb_wf s"
  shows "if item <s 0 then do_sys_kb_enqueue L item s = Inr (- 2, s)
    else if held (Lock s) then do_sys_kb_enqueue L item s = Inl Blocked
    else \<exists>ret s'. do_sys_kb_enqueue L item s = Inr (ret, s') \<and> kb_wf s' \<and> \<not> held (Lock s') \<and>
      (if length (kb_contents s) = 5 then ret = - 1 \<and> kb_contents s' = kb_contents s
       else ret = 0 \<and> kb_contents s' = kb_contents s @ [item])"
proof (cases "item <s 0 \<or> held (Lock s)")
  case True
  then show ?thesis
    using kernel_spinlock.enqueue_blocked [OF assms(1), of s item] by (auto simp: do_sys_kb_enqueue_def)
next
  case False
  then have ok: "\<not> item <s 0" and free: "\<not> held (Lock s)"
    by simp_all
  show ?thesis
  proof (cases "length (kb_contents s) = 5")
    case True
    with kernel_spinlock.enqueue_full [OF assms free ok] assms(2) ok free show ?thesis by auto
  next
    case room: False
    then have "length (kb_contents s) < 5"
      using assms(2) by (simp add: kb_wf_def ring_inv_def kb_length_contents)
    with kernel_spinlock.enqueue_room [OF assms free ok] kb_push [OF assms(2) _ ok] ok free room
    show ?thesis by auto
  qed
qed

theorem kb_enqueue_correct_witness:
  "do_sys_kb_enqueue tas_lock (- 7) (kb_boot True) = Inr (- 2, kb_boot True) \<and>
   do_sys_kb_enqueue tas_lock 7 (kb_boot True) = Inl Blocked \<and>
   (\<exists>s'. do_sys_kb_enqueue tas_lock 7 (kb_boot False) = Inr (0, s') \<and> kb_wf s' \<and> \<not> Lock s' \<and> kb_contents s' = [7])"
proof -
  have l: "Lock (kb_boot b) = b" for b
    by (simp add: kb_boot_def)
  note enq = kb_enqueue_correct [OF tas.kernel_spinlock_axioms kb_boot_wf(1)]
  from enq [of "- 7" True] enq [of 7 True] enq [of 7 False] show ?thesis
    by (simp add: kb_boot_wf word_sless_alt l)
qed

text \<open>
  C30: The result, the new state and the user memory of \<open>do_sys_kb_dequeue\<close> on a well-formed kboard, on each of its paths.
  Where the lock is held it waits for ever. Otherwise it returns and leaves the kboard well formed and unlocked: with -1 on an
  empty kboard, and neither the queue nor the user memory changes; else it hands the oldest item to \<open>copy_to_user\<close>, and if that
  copies everything it returns 0 and exactly that item leaves the queue, and if not, it returns -2 and the item stays the
  oldest one, so a failed copy loses nothing.
\<close>

theorem kb_dequeue_correct:
  assumes "kernel_spinlock L held" and "kb_wf s"
  shows "if held (Lock s) then do_sys_kb_dequeue L ctu a (s, m) = Inl Blocked
    else \<exists>ret s' m'. do_sys_kb_dequeue L ctu a (s, m) = Inr (ret, s', m') \<and> kb_wf s' \<and> \<not> held (Lock s') \<and>
      (case kb_contents s of
         [] \<Rightarrow> ret = - 1 \<and> kb_contents s' = [] \<and> m' = m
       | x # q \<Rightarrow> m' = snd (ctu a x m) \<and>
           (if fst (ctu a x m) = 0 then ret = 0 \<and> kb_contents s' = q
            else ret = - 2 \<and> kb_contents s' = x # q))"
proof (cases "held (Lock s)")
  case True
  then show ?thesis
    using kernel_spinlock.dequeue_blocked [OF assms(1)] by simp
next
  case free: False
  show ?thesis
  proof (cases "kb_contents s")
    case Nil
    with kernel_spinlock.dequeue_empty [OF assms free Nil, of ctu a m] assms(2) free show ?thesis by auto
  next
    case (Cons x q)
    obtain u m' where ctu: "ctu a (hd (kb_contents s)) m = (u, m')"
      by fastforce
    with kernel_spinlock.dequeue_some [of L held s ctu a m u m', OF assms free] Cons kb_pop [OF assms(2)] assms(2) free
    show ?thesis by (cases "u = 0") auto
  qed
qed

theorem kb_dequeue_correct_witness:
  "do_sys_kb_dequeue tas_lock (flat_copy_out []) 16 (kb_boot True, \<lambda>_. 0) = Inl Blocked \<and>
   (\<exists>s s' m'. do_sys_kb_enqueue tas_lock 7 (kb_boot False) = Inr (0, s) \<and>
    do_sys_kb_dequeue tas_lock (flat_copy_out []) 16 (s, \<lambda>_. 0) = Inr (- 2, s', m') \<and>
    kb_contents s' = [7])"
proof -
  let ?s = "(kb_pushed (kb_boot False) 7)\<lparr>Lock := False\<rparr>"
  have enq: "do_sys_kb_enqueue tas_lock 7 (kb_boot False) = Inr (0, ?s)"
    by (simp add: do_sys_kb_enqueue_def kb_defs kb_boot_def kb_pushed_def tas_lock_def c_eval)
  have wf: "kb_wf ?s" and contents: "kb_contents ?s = [7]"
    using kb_push [OF kb_boot_wf(1), of False 7] by (simp_all add: kb_boot_wf word_sless_alt)
  have "Lock (kb_boot True)" and "\<not> Lock ?s"
    by (simp_all add: kb_boot_def)
  note deq = kb_dequeue_correct [OF tas.kernel_spinlock_axioms, of _ "flat_copy_out []" 16 "\<lambda>_. 0"]
  from deq [OF kb_boot_wf(1), of True] deq [OF wf] \<open>Lock (kb_boot True)\<close> \<open>\<not> Lock ?s\<close> enq
  show ?thesis unfolding contents by (auto simp: flat_copy_out_def)
qed

text \<open>
  C31: Whatever the globals hold, \<open>do_sys_kb_init\<close> returns 0 and leaves an unlocked, well-formed,
  empty kboard in which every slot holds \<open>INIT_VALUE\<close>: its loop ends and stays inside the array.
\<close>

theorem kb_init_correct:
  assumes "kernel_spinlock L held" and "length (Ring s) = 5"
  shows "\<exists>s'. do_sys_kb_init L s = Inr (0, s') \<and> kb_wf s' \<and> kb_clean s' \<and> kb_contents s' = [] \<and>
    \<not> held (Lock s') \<and> Ring s' = replicate 5 INIT_VALUE \<and> Count s' = 0 \<and> CurrentIndex s' = 0"
  using kernel_spinlock.init_all [OF assms] kb_initial_wf by fastforce

theorem kb_init_correct_witness:
  "\<exists>s'. do_sys_kb_init tas_lock (kb_boot True) = Inr (0, s') \<and> kb_wf s' \<and> kb_clean s' \<and>
    kb_contents s' = [] \<and> \<not> Lock s' \<and> Ring s' = replicate 5 INIT_VALUE \<and> Count s' = 0 \<and>
    CurrentIndex s' = 0"
proof -
  have "length (Ring (kb_boot True)) = 5"
    by (simp add: kb_boot_def)
  from kb_init_correct [OF tas.kernel_spinlock_axioms this] show ?thesis .
qed

text \<open>
  C15: The kboard is a bounded first-in first-out queue, for every sequence of calls: enqueues of any item, negative ones
  included, dequeues to any address, with copies that succeed or fail, and initialisations. From every well-formed, unlocked
  kboard the calls give their callers the answers of the specification \<open>kb_spec\<close>, which never are a fault, leave the queue
  and the user memory it gives, and end well formed and unlocked with at most five items. Where no call is an initialisation, the items
  queued before followed by those taken are those given followed by those still queued, in order.
\<close>

theorem kb_fifo:
  assumes "kb_caller L held ctu load" and "kb_wf s" and "\<not> held (Lock s)"
  shows "\<exists>rs s' m'. run_ops (kb_call L ctu load) calls (s, m) = (rs, s', m') \<and>
    run_ops (kb_spec ctu load) calls (kb_contents s, m) = (rs, kb_contents s', m') \<and> No_return \<notin> set rs \<and>
    kb_wf s' \<and> \<not> held (Lock s') \<and> length (kb_contents s') \<le> 5 \<and>
    (Call_init \<notin> set calls \<longrightarrow> kb_contents s @ taken calls rs = given rs @ kb_contents s')"
proof -
  obtain rs s' m' where run: "run_ops (kb_call L ctu load) calls (s, m) = (rs, s', m')"
    by (metis prod_cases3)
  note fin = kb_caller.kb_run [OF assms run]
  show ?thesis
    using run fin kb_spec_fifo [OF fin(3)] kb_spec_returns [OF fin(3)] kb_wf_bound [OF fin(1)] by blast
qed

theorem kb_fifo_witness:
  "fst (run_ops (kb_call tas_lock (flat_copy_out [16]) flat_load)
      [Call_enqueue 7, Call_enqueue (- 3), Call_enqueue 8, Call_dequeue 16, Call_dequeue 32, Call_dequeue 16, Call_dequeue 16]
      (kb_boot False, \<lambda>_. 0)) =
    [Returned 0, Returned (- 2), Returned 0, Buffer 0 7, Buffer (- 2) 0, Buffer 0 8, Buffer (- 1) 8]"
proof -
  have "\<not> Lock (kb_boot False)"
    by (simp add: kb_boot_def)
  from kb_fifo [OF flat_calls.kb_caller_axioms [of "[16]"] kb_boot_wf(1) this, where m = "\<lambda>_. 0" and
    calls = "[Call_enqueue 7, Call_enqueue (- 3), Call_enqueue 8, Call_dequeue 16, Call_dequeue 32, Call_dequeue 16, Call_dequeue 16]"]
  obtain rs s' m' where "run_ops (kb_call tas_lock (flat_copy_out [16]) flat_load)
      [Call_enqueue 7, Call_enqueue (- 3), Call_enqueue 8, Call_dequeue 16, Call_dequeue 32, Call_dequeue 16, Call_dequeue 16]
      (kb_boot False, \<lambda>_. 0) = (rs, s', m')" and
    spec: "run_ops (kb_spec (flat_copy_out [16]) flat_load)
      [Call_enqueue 7, Call_enqueue (- 3), Call_enqueue 8, Call_dequeue 16, Call_dequeue 32, Call_dequeue 16, Call_dequeue 16]
      ([], \<lambda>_. 0) = (rs, kb_contents s', m')"
    unfolding kb_boot_wf(2) by blast
  then show ?thesis
    by (simp add: flat_copy_out_def flat_load_def word_sless_alt split: prod.splits)
qed

text \<open>
  C32: Once initialised, the array tells the queue apart from the free slots: after any sequence of calls from an initialised
  kboard, whatever the items and whatever becomes of the copies, exactly \<open>Count\<close> slots hold a valid (non-negative) item and every slot
  outside the queue holds \<open>INIT_VALUE\<close> again.
\<close>

theorem kb_slots:
  assumes "kb_caller L held ctu load" and "length (Ring s0) = 5" and "do_sys_kb_init L s0 = Inr (ret, s)"
    and "run_ops (kb_call L ctu load) calls (s, m) = (rs, s', m')"
  shows "cnt (\<lambda>x. \<not> x <s 0) (Ring s') = unat (Count s') \<and>
    list_all (\<lambda>x. x = INIT_VALUE) (ring_free (Ring s') (CurrentIndex s') (Count s'))"
proof -
  have L: "kernel_spinlock L held"
    using assms(1) by (simp add: kb_caller_def)
  have "kb_wf s \<and> kb_clean s \<and> \<not> held (Lock s)"
    using kernel_spinlock.init_all [OF L assms(2)] assms(3) kb_initial_wf by fastforce
  then have "kb_wf s' \<and> kb_clean s'"
    using kb_caller.kb_run_clean [OF assms(1) _ _ _ assms(4)] by blast
  then show ?thesis
    using kb_clean_count [of s'] by (simp add: kb_clean_def)
qed

theorem kb_slots_witness:
  "\<exists>s s' m'. do_sys_kb_init tas_lock (kb_boot False) = Inr (0, s) \<and>
    run_ops (kb_call tas_lock (flat_copy_out [16]) flat_load)
      [Call_enqueue 7, Call_enqueue (- 1), Call_dequeue 32, Call_dequeue 16, Call_enqueue 8] (s, \<lambda>_. 0) =
      ([Returned 0, Returned (- 2), Buffer (- 2) 0, Buffer 0 7, Returned 0], s', m') \<and>
    cnt (\<lambda>x. \<not> x <s 0) (Ring s') = unat (Count s')"
proof -
  let ?s = "\<lparr>Lock = False, Ring = replicate 5 INIT_VALUE, Count = 0, CurrentIndex = 0\<rparr>"
  let ?cs = "[Call_enqueue 7, Call_enqueue (- 1), Call_dequeue 32, Call_dequeue 16, Call_enqueue 8]"
  have init: "do_sys_kb_init tas_lock (kb_boot False) = Inr (0, ?s)"
    using tas.init_all [of "kb_boot False"] by (auto simp: kb_boot_def)
  obtain rs s' m' where run: "run_ops (kb_call tas_lock (flat_copy_out [16]) flat_load) ?cs (?s, \<lambda>_. 0) = (rs, s', m')"
    by (metis prod_cases3)
  have len: "length (Ring (kb_boot False)) = 5"
    by (simp add: kb_boot_def)
  have "run_ops (kb_spec (flat_copy_out [16]) flat_load) ?cs ([], \<lambda>_. 0) = (rs, kb_contents s', m')"
    using flat_calls.kb_run(3) [OF kb_initial_wf(1) _ run] by (simp add: kb_initial_wf)
  then have "rs = [Returned 0, Returned (- 2), Buffer (- 2) 0, Buffer 0 7, Returned 0]"
    by (simp add: flat_copy_out_def flat_load_def word_sless_alt split: prod.splits)
  with kb_slots [OF flat_calls.kb_caller_axioms len init run] init run show ?thesis by blast
qed

end
