(* ===== verification/Os_Kboard_Conc.thy ===== *)
theory Os_Kboard_Conc
  imports Os_Kboard
begin

text \<open>
  The system calls of \<open>lab1/kernel/os_kboard.c\<close> under concurrency: any number of processes execute
  \<open>do_sys_kb_enqueue\<close>, \<open>do_sys_kb_dequeue\<close> and \<open>do_sys_kb_init\<close>, interleaved statement by statement. The spin
  lock is a parameter. Whether a \<open>copy_to_user\<close> succeeds is chosen by the schedule; it touches only the
  caller's buffer, so its success delivers the item as the call's result. The check of the item before
  the lock is the guard of the start of an enqueue. \<open>klog\<close> is a history variable, no code reads it: the
  calls in the order in which their last access of the ring ended, with their results.

  Without \<open>kb_init\<close> the calls are linearizable. A \<open>kb_init\<close> that runs together with another call breaks
  the lock, because it initialises the lock before it takes it.
\<close>

section \<open>Processes\<close>

datatype kstmt =
    KIdle
  | ELock cint | ETest cint | EPut cint | EInc cint
  | DLock | DTest | DCopy | DClear cint | DDec cint | DAdvance cint
  | IReset | ILock | IFill cint | ICount | IIndex
  | KUnlock

datatype kjob = JEnq cint | JDeq | JInit

datatype kchoice = KStart nat kjob | KSched nat bool

record 'lk ksys =
  kboard_of :: "'lk kb"
  stmts :: "kstmt list"
  klog :: "(cint qop \<times> cint qres) list"

text \<open>One statement: the next one, the new globals, and the entry for the history.\<close>

type_synonym 'lk kresult = "(kstmt \<times> 'lk kb \<times> (cint qop \<times> cint qres) list) result"

fun kstmt_step :: "'lk spin_ops \<Rightarrow> bool \<Rightarrow> kstmt \<Rightarrow> 'lk kb \<Rightarrow> 'lk kresult" where
  "kstmt_step L ok KIdle s = Inl Blocked"
| "kstmt_step L ok (ELock x) s = rbind (kb_spin_lock L s) (\<lambda>s. Inr (ETest x, s, []))"
| "kstmt_step L ok (ETest x) s =
     Inr (if MAX_CLIP <=s Count s then (KUnlock, s, [(Enq x, Rejected)]) else (EPut x, s, []))"
| "kstmt_step L ok (EPut x) s =
     rbind (arr_set (Ring s) (c_mod (CurrentIndex s + Count s) MAX_CLIP) x) (\<lambda>r. Inr (EInc x, s\<lparr>Ring := r\<rparr>, []))"
| "kstmt_step L ok (EInc x) s = Inr (KUnlock, s\<lparr>Count := Count s + 1\<rparr>, [(Enq x, Accepted)])"
| "kstmt_step L ok DLock s = rbind (kb_spin_lock L s) (\<lambda>s. Inr (DTest, s, []))"
| "kstmt_step L ok DTest s = Inr (if Count s <=s 0 then (KUnlock, s, [(Deq, Nothing)]) else (DCopy, s, []))"
| "kstmt_step L ok DCopy s =
     rbind (arr_get (Ring s) (CurrentIndex s)) (\<lambda>v. Inr (if ok then DClear v else KUnlock, s, []))"
| "kstmt_step L ok (DClear v) s =
     rbind (arr_set (Ring s) (CurrentIndex s) INIT_VALUE) (\<lambda>r. Inr (DDec v, s\<lparr>Ring := r\<rparr>, []))"
| "kstmt_step L ok (DDec v) s = Inr (DAdvance v, s\<lparr>Count := Count s - 1\<rparr>, [])"
| "kstmt_step L ok (DAdvance v) s =
     Inr (KUnlock, s\<lparr>CurrentIndex := c_mod (CurrentIndex s + 1) MAX_CLIP\<rparr>, [(Deq, Got v)])"
| "kstmt_step L ok IReset s = Inr (ILock, s\<lparr>Lock := spin_lock_init L\<rparr>, [])"
| "kstmt_step L ok ILock s = rbind (kb_spin_lock L s) (\<lambda>s. Inr (IFill 0, s, []))"
| "kstmt_step L ok (IFill i) s =
     (if i <s MAX_CLIP then rbind (arr_set (Ring s) i INIT_VALUE) (\<lambda>r. Inr (IFill (i + 1), s\<lparr>Ring := r\<rparr>, []))
      else Inr (ICount, s, []))"
| "kstmt_step L ok ICount s = Inr (IIndex, s\<lparr>Count := 0\<rparr>, [])"
| "kstmt_step L ok IIndex s = Inr (KUnlock, s\<lparr>CurrentIndex := 0\<rparr>, [])"
| "kstmt_step L ok KUnlock s = Inr (KIdle, kb_spin_unlock L s, [])"

fun kfirst :: "kjob \<Rightarrow> kstmt" where
  "kfirst (JEnq x) = ELock x"
| "kfirst JDeq = DLock"
| "kfirst JInit = IReset"

fun ksys_step :: "'lk spin_ops \<Rightarrow> kchoice \<Rightarrow> 'lk ksys \<Rightarrow> 'lk ksys option" where
  "ksys_step L (KStart t j) c =
     (if t < length (stmts c) \<and> stmts c ! t = KIdle \<and> (case j of JEnq x \<Rightarrow> \<not> x <s 0 | _ \<Rightarrow> True)
      then Some (c\<lparr>stmts := (stmts c)[t := kfirst j]\<rparr>) else None)"
| "ksys_step L (KSched t ok) c =
     (if t < length (stmts c) then
        case kstmt_step L ok (stmts c ! t) (kboard_of c) of
          Inl _ \<Rightarrow> None
        | Inr (b, s, l) \<Rightarrow> Some \<lparr>kboard_of = s, stmts = (stmts c)[t := b], klog = klog c @ l\<rparr>
      else None)"

definition ksys_start :: "'lk spin_ops \<Rightarrow> nat \<Rightarrow> 'lk ksys" where
  "ksys_start L n = \<lparr>kboard_of = kb_boot (spin_lock_init L), stmts = replicate n KIdle, klog = []\<rparr>"

text \<open>The system without concurrent initialisations.\<close>

definition steady_step :: "'lk spin_ops \<Rightarrow> kchoice \<Rightarrow> 'lk ksys \<Rightarrow> 'lk ksys option" where
  "steady_step L x c = (case x of KStart t JInit \<Rightarrow> None | _ \<Rightarrow> ksys_step L x c)"

text \<open>A scheduled statement.\<close>

lemma ksched_cases:
  assumes "ksys_step L (KSched t ok) k = Some k'"
  obtains b s l where "t < length (stmts k)" "kstmt_step L ok (stmts k ! t) (kboard_of k) = Inr (b, s, l)"
    "k' = \<lparr>kboard_of = s, stmts = (stmts k)[t := b], klog = klog k @ l\<rparr>"
  using assms by (auto split: if_splits sum.splits)

section \<open>The state under the lock\<close>

fun holds_lock :: "kstmt \<Rightarrow> bool" where
  "holds_lock KIdle = False"
| "holds_lock (ELock x) = False"
| "holds_lock DLock = False"
| "holds_lock IReset = False"
| "holds_lock ILock = False"
| "holds_lock _ = True"

definition kcore :: "'lk kb \<Rightarrow> cint list \<times> cint \<times> cint" where
  "kcore s = (Ring s, Count s, CurrentIndex s)"

text \<open>
  \<open>kmid b s0 s\<close>: a process whose next statement is \<open>b\<close> and who found the kboard as \<open>s0\<close> (or has brought
  it there, if only the unlock is left) has brought it to \<open>s\<close>.
\<close>

fun kmid :: "kstmt \<Rightarrow> 'a kb \<Rightarrow> 'b kb \<Rightarrow> bool" where
  "kmid (ELock x) s0 s \<longleftrightarrow> \<not> x <s 0"
| "kmid (ETest x) s0 s \<longleftrightarrow> \<not> x <s 0 \<and> kcore s = kcore s0"
| "kmid (EPut x) s0 s \<longleftrightarrow> \<not> x <s 0 \<and> length (kb_contents s0) < 5 \<and> kcore s = kcore s0"
| "kmid (EInc x) s0 s \<longleftrightarrow> \<not> x <s 0 \<and> length (kb_contents s0) < 5 \<and>
     kcore s = kcore (s0\<lparr>Ring := Ring (kb_pushed s0 x)\<rparr>)"
| "kmid DTest s0 s \<longleftrightarrow> kcore s = kcore s0"
| "kmid DCopy s0 s \<longleftrightarrow> kb_contents s0 \<noteq> [] \<and> kcore s = kcore s0"
| "kmid (DClear v) s0 s \<longleftrightarrow> kb_contents s0 \<noteq> [] \<and> v = hd (kb_contents s0) \<and> kcore s = kcore s0"
| "kmid (DDec v) s0 s \<longleftrightarrow> kb_contents s0 \<noteq> [] \<and> v = hd (kb_contents s0) \<and>
     kcore s = kcore (s0\<lparr>Ring := Ring (kb_popped s0)\<rparr>)"
| "kmid (DAdvance v) s0 s \<longleftrightarrow> kb_contents s0 \<noteq> [] \<and> v = hd (kb_contents s0) \<and>
     kcore s = kcore (s0\<lparr>Ring := Ring (kb_popped s0), Count := Count s0 - 1\<rparr>)"
| "kmid KUnlock s0 s \<longleftrightarrow> kcore s = kcore s0"
| "kmid KIdle s0 s \<longleftrightarrow> True"
| "kmid DLock s0 s \<longleftrightarrow> True"
| "kmid b s0 s \<longleftrightarrow> False"

definition khistory :: "(cint qop \<times> cint qres) list \<Rightarrow> 'lk kb \<Rightarrow> bool" where
  "khistory log s0 \<longleftrightarrow> kb_wf s0 \<and> run_ops (bq_step 5) (map fst log) [] = (map snd log, kb_contents s0)"

definition kdata :: "'lk kb \<Rightarrow> kstmt list \<Rightarrow> 'lk kb \<Rightarrow> bool" where
  "kdata s0 bs s \<longleftrightarrow> (\<forall>t < length bs. kmid (bs ! t) s0 s) \<and> (cnt holds_lock bs = 0 \<longrightarrow> kcore s = kcore s0)"

definition kinv :: "('lk \<Rightarrow> bool) \<Rightarrow> 'lk ksys \<Rightarrow> bool" where
  "kinv held c \<longleftrightarrow> lock_tally holds_lock (of_bool (\<not> held (Lock (kboard_of c)))) (stmts c) \<and>
     (\<exists>s0. khistory (klog c) s0 \<and> kdata s0 (stmts c) (kboard_of c))"

lemma kcore_lock [simp]: "kcore (s\<lparr>Lock := l\<rparr>) = kcore s"
  by (simp add: kcore_def)

lemma kcore_ring: "kcore s = kcore s0 \<Longrightarrow> kb_wf s = kb_wf s0 \<and> kb_contents s = kb_contents s0"
  by (simp add: kcore_def kb_wf_def kb_contents_def)

lemma kmid_outside: "\<not> holds_lock b \<Longrightarrow> kmid b s0 s \<Longrightarrow> kmid b s1 s'"
  by (cases b) simp_all

text \<open>A statement under the lock: no fault, and either no entry for the history or the right one.\<close>

lemma kstmt_inside:
  assumes wf: "kb_wf s0" and m: "kmid b s0 s" and h: "holds_lock b" "b \<noteq> KUnlock"
  shows "\<exists>b' s' l. kstmt_step L ok b s = Inr (b', s', l) \<and> Lock s' = Lock s \<and> holds_lock b' \<and>
    (l = [] \<and> kmid b' s0 s' \<or>
     (\<exists>x r. l = [(x, r)] \<and> bq_step 5 x (kb_contents s0) = (r, kb_contents s') \<and> kb_wf s' \<and> kmid b' s' s'))"
proof -
  note ring = kb_full_iff [OF wf] kb_empty_iff [OF wf] kb_push(1) [OF wf] kb_pop(1,2) [OF wf]
  have push: "kb_wf s' \<and> kb_contents s' = kb_contents s0 @ [x]"
    if "length (kb_contents s0) < 5" "\<not> x <s 0" "kcore s' = kcore (kb_pushed s0 x)" for s' :: "'b kb" and x
    using kcore_ring [OF that(3)] kb_push(2,3) [OF wf that(1,2)] by simp
  have pop: "kb_wf s' \<and> kb_contents s' = tl (kb_contents s0)"
    if "kb_contents s0 \<noteq> []" "kcore s' = kcore (kb_popped s0)" for s' :: "'b kb"
    using kcore_ring [OF that(2)] kb_pop(3,4) [OF wf that(1)] by simp
  have full: "length (kb_contents s0) < 5 \<or> length (kb_contents s0) = 5"
    using wf by (auto simp: kb_wf_def ring_inv_def kb_length_contents)
  have same: "kcore s = kcore s0 \<Longrightarrow> kb_wf s \<and> kb_contents s = kb_contents s0"
    using kcore_ring [of s s0] wf by simp
  show ?thesis
  proof (cases b)
    case (EInc x)
    then have "kcore (s\<lparr>Count := Count s + 1\<rparr>) = kcore (kb_pushed s0 x)"
      using m by (simp add: kcore_def kb_pushed_def)
    from push [OF _ _ this] m EInc show ?thesis
      by simp
  next
    case (DAdvance v)
    then have "kcore (s\<lparr>CurrentIndex := c_mod (CurrentIndex s + 1) MAX_CLIP\<rparr>) = kcore (kb_popped s0)"
      using m by (simp add: kcore_def kb_popped_def)
    from pop [OF _ this] m DAdvance show ?thesis
      by (auto simp: neq_Nil_conv)
  next
    case (ETest x)
    then show ?thesis
      using m ring(1) full same by (auto simp: kcore_def)
  next
    case DTest
    then show ?thesis
      using m ring(2) same by (auto simp: kcore_def)
  qed (use m h ring in \<open>auto simp: kcore_def\<close>)
qed

context kernel_spinlock
begin

lemma kinv_alone:
  assumes "kinv held c" and "t < length (stmts c)" and "holds_lock (stmts c ! t)"
  shows "held (Lock (kboard_of c))" and "\<And>u. u < length (stmts c) \<Longrightarrow> u \<noteq> t \<Longrightarrow> \<not> holds_lock (stmts c ! u)"
proof -
  have 1: "of_bool (\<not> held (Lock (kboard_of c))) + cnt holds_lock (stmts c) = 1"
    using assms(1) by (simp add: kinv_def lock_tally_def)
  then show "held (Lock (kboard_of c))"
    using cnt_posI [OF assms(2), of holds_lock] assms(3) by (cases "held (Lock (kboard_of c))") auto
  show "\<not> holds_lock (stmts c ! u)" if "u < length (stmts c)" "u \<noteq> t" for u
    using cnt_two [OF that(1) assms(2) that(2), of holds_lock] assms(3) 1 by auto
qed

text \<open>The statements, one kind at a time.\<close>

lemma kinv_inside:
  assumes inv: "kinv held c" and t: "t < length (stmts c)" and h: "holds_lock (stmts c ! t)" "stmts c ! t \<noteq> KUnlock"
  shows "\<exists>c'. ksys_step L (KSched t ok) c = Some c' \<and> kinv held c'"
proof -
  obtain s0 where hist: "khistory (klog c) s0" and d: "kdata s0 (stmts c) (kboard_of c)"
    and tal: "lock_tally holds_lock (of_bool (\<not> held (Lock (kboard_of c)))) (stmts c)"
    using inv by (auto simp: kinv_def)
  have wf: "kb_wf s0" and m: "kmid (stmts c ! t) s0 (kboard_of c)"
    using hist d t by (auto simp: khistory_def kdata_def)
  from kstmt_inside [OF wf m h, of L ok] obtain b' s' l where
    st: "kstmt_step L ok (stmts c ! t) (kboard_of c) = Inr (b', s', l)" "Lock s' = Lock (kboard_of c)" "holds_lock b'"
    and nxt: "l = [] \<and> kmid b' s0 s' \<or>
     (\<exists>x r. l = [(x, r)] \<and> bq_step 5 x (kb_contents s0) = (r, kb_contents s') \<and> kb_wf s' \<and> kmid b' s' s')"
    by blast
  have others: "kmid (stmts c ! u) s1 s'" if "u < length (stmts c)" "u \<noteq> t" for u and s1 :: "'a kb"
    using kmid_outside [OF kinv_alone(2) [OF inv t h(1) that], of s0 "kboard_of c" s1 s'] d that(1)
    by (simp add: kdata_def)
  have pos: "0 < cnt holds_lock ((stmts c)[t := b'])"
    using cnt_posI [of t "(stmts c)[t := b']" holds_lock] t st(3) by simp
  have data: "kdata s1 ((stmts c)[t := b']) s'" if "kmid b' s1 s'" for s1
    using that others pos by (auto simp: kdata_def nth_update)
  have "\<exists>s1. khistory (klog c @ l) s1 \<and> kdata s1 ((stmts c)[t := b']) s'"
    using nxt
  proof (elim disjE conjE exE)
    assume "l = []" "kmid b' s0 s'"
    then show ?thesis using hist data by auto
  next
    fix x r
    assume "l = [(x, r)]" "bq_step 5 x (kb_contents s0) = (r, kb_contents s')" "kb_wf s'" "kmid b' s' s'"
    then show ?thesis
      using hist data run_ops_snoc [of "bq_step 5" "map fst (klog c)" "[]"] by (auto simp: khistory_def)
  qed
  moreover have "lock_tally holds_lock (of_bool (\<not> held (Lock s'))) ((stmts c)[t := b'])"
    using lock_moves(1) [OF t tal] h(1) st(2,3) by simp
  ultimately show ?thesis
    using st(1) t by (auto simp: kinv_def)
qed

lemma kinv_unlock:
  assumes inv: "kinv held c" and t: "t < length (stmts c)" and u: "stmts c ! t = KUnlock"
  shows "\<exists>c'. ksys_step L (KSched t ok) c = Some c' \<and> kinv held c'"
proof -
  obtain s0 where hist: "khistory (klog c) s0" and d: "kdata s0 (stmts c) (kboard_of c)"
    and tal: "lock_tally holds_lock (of_bool (\<not> held (Lock (kboard_of c)))) (stmts c)"
    using inv by (auto simp: kinv_def)
  let ?s = "kb_spin_unlock L (kboard_of c)"
  have core: "kcore ?s = kcore s0"
    using d t u by (auto simp: kdata_def kb_spin_unlock_def dest!: spec [of _ t])
  have "kmid (stmts c ! v) s0 ?s" if "v < length (stmts c)" "v \<noteq> t" for v
    using kmid_outside [OF kinv_alone(2) [OF inv t _ that], of s0 "kboard_of c" s0 ?s] d u that(1)
    by (simp add: kdata_def)
  then have "kdata s0 ((stmts c)[t := KIdle]) ?s"
    using core by (auto simp: kdata_def nth_update)
  moreover have "lock_tally holds_lock (of_bool (\<not> held (Lock ?s))) ((stmts c)[t := KIdle])"
    using lock_moves(3) [OF t tal, of KIdle] kinv_alone(1) [OF inv t] u by simp
  ultimately show ?thesis
    using hist t u by (auto simp: kinv_def)
qed

lemma kinv_lock:
  assumes inv: "kinv held c" and t: "t < length (stmts c)"
    and b: "stmts c ! t = ELock x \<and> b = ETest x \<or> stmts c ! t = DLock \<and> b = DTest"
    and lock: "kb_spin_lock L (kboard_of c) = Inr s"
  shows "kinv held \<lparr>kboard_of = s, stmts = (stmts c)[t := b], klog = klog c\<rparr>"
proof -
  obtain s0 where hist: "khistory (klog c) s0" and d: "kdata s0 (stmts c) (kboard_of c)"
    and tal: "lock_tally holds_lock (of_bool (\<not> held (Lock (kboard_of c)))) (stmts c)"
    using inv by (auto simp: kinv_def)
  obtain l where l: "s = (kboard_of c)\<lparr>Lock := l\<rparr>" "\<not> held (Lock (kboard_of c))" "held l"
    using lock lock_Some by (auto simp: kb_spin_lock_def split: option.splits)
  then have zero: "cnt holds_lock (stmts c) = 0"
    using tal by (simp add: lock_tally_def)
  then have core: "kcore s = kcore s0"
    using d l(1) by (simp add: kdata_def)
  have b': "kmid b s0 s" "holds_lock b" "\<not> holds_lock (stmts c ! t)"
    using b d t core by (auto simp: kdata_def dest!: spec [of _ t])
  have "kmid (stmts c ! v) s0 s" if "v < length (stmts c)" for v
    using kmid_outside [of "stmts c ! v" s0 "kboard_of c" s0 s] cnt_posI [OF that, of holds_lock] zero d that
    by (auto simp: kdata_def)
  then have "kdata s0 ((stmts c)[t := b]) s"
    using b' core by (auto simp: kdata_def nth_update)
  moreover have "lock_tally holds_lock (of_bool (\<not> held (Lock s))) ((stmts c)[t := b])"
    using lock_moves(2) [OF t, of holds_lock 0 b] tal l b' by simp
  ultimately show ?thesis
    using hist by (auto simp: kinv_def)
qed

lemma kinv_start:
  assumes inv: "kinv held c" and t: "t < length (stmts c)" "stmts c ! t = KIdle"
    and b: "b = DLock \<or> (\<exists>x. b = ELock x \<and> \<not> x <s 0)"
  shows "kinv held (c\<lparr>stmts := (stmts c)[t := b]\<rparr>)"
proof -
  have nb: "\<not> holds_lock b" and "\<not> holds_lock (stmts c ! t)"
    using b t(2) by auto
  then have eq: "cnt holds_lock ((stmts c)[t := b]) = cnt holds_lock (stmts c)"
    by (intro cnt_move(1) [OF t(1)]) simp
  have "kdata s0 ((stmts c)[t := b]) s" if "kdata s0 (stmts c) s" for s0 s :: "'a kb"
    using that b eq by (auto simp: kdata_def nth_update)
  then show ?thesis
    using inv eq by (auto simp: kinv_def lock_tally_def)
qed

lemma kinv_step:
  assumes inv: "kinv held c" and step: "steady_step L x c = Some c'"
  shows "kinv held c'"
proof (cases x)
  case (KStart t j)
  then show ?thesis
    using step kinv_start [OF inv, of t] by (cases j) (auto simp: steady_step_def split: if_splits)
next
  case (KSched t ok)
  then have st: "ksys_step L (KSched t ok) c = Some c'"
    using step by (simp add: steady_step_def)
  then have t: "t < length (stmts c)"
    by (auto split: if_splits)
  obtain s0 where "kdata s0 (stmts c) (kboard_of c)"
    using inv by (auto simp: kinv_def)
  then have "kmid (stmts c ! t) s0 (kboard_of c)"
    using t by (simp add: kdata_def)
  then consider "holds_lock (stmts c ! t)" "stmts c ! t \<noteq> KUnlock" | "stmts c ! t = KUnlock" | "stmts c ! t = KIdle"
    | x where "stmts c ! t = ELock x" | "stmts c ! t = DLock"
    by (cases "stmts c ! t") auto
  then show ?thesis
  proof cases
    case (4 x)
    then show ?thesis
      using st kinv_lock [OF inv t, of x "ETest x"] by (cases "kb_spin_lock L (kboard_of c)") (auto split: if_splits)
  next
    case 5
    then show ?thesis
      using st kinv_lock [OF inv t, of _ DTest] by (cases "kb_spin_lock L (kboard_of c)") (auto split: if_splits)
  qed (use st kinv_inside [OF inv t, of ok] kinv_unlock [OF inv t, of ok] in \<open>auto split: if_splits\<close>)
qed

lemma kinv_reach:
  assumes "reach (steady_step L) (ksys_start L n) c"
  shows "kinv held c"
  using assms
proof (induction rule: reach_invariant)
  case start
  have "khistory [] (kb_boot (spin_lock_init L))"
    by (simp add: khistory_def kb_boot_wf)
  then show ?case
    using init_free by (auto simp: kinv_def ksys_start_def lock_tally_def kdata_def kb_boot_def intro!: exI)
qed (rule kinv_step)

lemma kinv_queue:
  assumes "kinv held c"
  shows "\<exists>q. run_ops (bq_step 5) (map fst (klog c)) [] = (map snd (klog c), q) \<and>
    (cnt holds_lock (stmts c) = 0 \<longrightarrow> kb_wf (kboard_of c) \<and> kb_contents (kboard_of c) = q)"
proof -
  obtain s0 where h: "khistory (klog c) s0" and d: "kdata s0 (stmts c) (kboard_of c)"
    using assms by (auto simp: kinv_def)
  then show ?thesis
    using kcore_ring [of "kboard_of c" s0] by (auto simp: khistory_def kdata_def)
qed

end

section \<open>Completion\<close>

text \<open>The statements a call of \<open>kb_enqueue\<close> or \<open>kb_dequeue\<close> has left, at most.\<close>

fun kleft :: "kstmt \<Rightarrow> nat" where
  "kleft (ELock x) = 5"
| "kleft (ETest x) = 4"
| "kleft (EPut x) = 3"
| "kleft (EInc x) = 2"
| "kleft DLock = 7"
| "kleft DTest = 6"
| "kleft DCopy = 5"
| "kleft (DClear v) = 4"
| "kleft (DDec v) = 3"
| "kleft (DAdvance v) = 2"
| "kleft KUnlock = 1"
| "kleft b = 0"

lemma kleft_le: "kleft b \<le> 7"
  by (cases b) simp_all

lemma kleft_step:
  assumes "kmid b s0 s" and "kstmt_step L ok b s = Inr (b', s', l)"
  shows "kleft b' < kleft b"
  using assms by (cases b) (auto simp: rbind_Inr split: if_splits)

context kernel_spinlock
begin

lemma kwork_step:
  assumes inv: "kinv held c" and step: "ksys_step L (KSched t ok) c = Some c'"
  shows "kinv held c'" and "length (stmts c') = length (stmts c)"
    and "sum_list (map kleft (stmts c')) < sum_list (map kleft (stmts c))"
proof -
  show "kinv held c'"
    using kinv_step [OF inv, of "KSched t ok"] step by (simp add: steady_step_def)
  obtain b s l where t: "t < length (stmts c)" and b: "kstmt_step L ok (stmts c ! t) (kboard_of c) = Inr (b, s, l)"
    and c': "c' = \<lparr>kboard_of = s, stmts = (stmts c)[t := b], klog = klog c @ l\<rparr>"
    using step by (rule ksched_cases)
  then show "length (stmts c') = length (stmts c)"
    by simp
  obtain s0 where "kdata s0 (stmts c) (kboard_of c)"
    using inv by (auto simp: kinv_def)
  then have "kmid (stmts c ! t) s0 (kboard_of c)"
    using t by (simp add: kdata_def)
  then have "kleft b < kleft (stmts c ! t)"
    using b by (rule kleft_step)
  then show "sum_list (map kleft (stmts c')) < sum_list (map kleft (stmts c))"
    using sum_list_less [of t "map kleft (stmts c)" "kleft b"] t c' by (simp add: map_update)
qed

text \<open>Some process can go on, unless all are idle.\<close>

lemma kinv_goes_on:
  assumes inv: "kinv held c" and t: "t < length (stmts c)" "stmts c ! t \<noteq> KIdle"
  shows "\<exists>u < length (stmts c). \<exists>c'. ksys_step L (KSched u ok) c = Some c'"
proof (cases "cnt holds_lock (stmts c) = 0")
  case True
  then have "\<not> held (Lock (kboard_of c))"
    using inv by (auto simp: kinv_def lock_tally_def)
  then obtain l where l: "kb_spin_lock L (kboard_of c) = Inr ((kboard_of c)\<lparr>Lock := l\<rparr>)"
    by (rule kb_lock_free)
  obtain s0 where "kdata s0 (stmts c) (kboard_of c)"
    using inv by (auto simp: kinv_def)
  then have m: "kmid (stmts c ! t) s0 (kboard_of c)"
    using t by (simp add: kdata_def)
  have "\<not> holds_lock (stmts c ! t)"
    using True cnt_posI [OF t(1), of holds_lock] by auto
  with m t(2) have "\<exists>b. kstmt_step L ok (stmts c ! t) (kboard_of c) = Inr (b, (kboard_of c)\<lparr>Lock := l\<rparr>, [])"
    using l by (cases "stmts c ! t") auto
  then show ?thesis
    using t(1) by (intro exI [of _ t]) auto
next
  case False
  then obtain u where u: "u < length (stmts c)" "holds_lock (stmts c ! u)"
    using cnt_pos_iff [of holds_lock "stmts c"] by auto
  show ?thesis
    using kinv_inside [OF inv u, of ok] kinv_unlock [OF inv u(1), of ok] u(1) by blast
qed

lemma kb_run_completes:
  assumes inv: "kinv held c" and run: "exec (\<lambda>(t, ok). ksys_step L (KSched t ok)) xs c = Some c'"
  shows "length xs \<le> 7 * length (stmts c) \<and>
    (stmts c' = replicate (length (stmts c)) KIdle \<or> (\<exists>t < length (stmts c). \<exists>c''. ksys_step L (KSched t ok) c' = Some c''))"
proof -
  let ?m = "\<lambda>c. sum_list (map kleft (stmts c))" and ?I = "\<lambda>d. kinv held d \<and> length (stmts d) = length (stmts c)"
  have "?I d' \<and> ?m d' < ?m d" if "?I d" "(case x of (t, ok) \<Rightarrow> ksys_step L (KSched t ok)) d = Some d'" for x d d'
    using that kwork_step [of d "fst x" "snd x" d'] by (cases x) (simp del: ksys_step.simps)
  then have end_: "?I c' \<and> length xs + ?m c' \<le> ?m c"
    by (rule exec_measure [where I = ?I, OF _ _ run]) (assumption, assumption, rule conjI [OF inv refl])
  have "?m c \<le> 7 * length (stmts c)"
    using sum_list_mono [of "stmts c" kleft "\<lambda>_. 7"] kleft_le by (simp add: sum_list_triv)
  moreover have "stmts c' = replicate (length (stmts c)) KIdle" if "\<forall>t < length (stmts c). stmts c' ! t = KIdle"
    using that end_ by (auto intro: nth_equalityI)
  ultimately show ?thesis
    using end_ kinv_goes_on [of c'] by (intro conjI) (linarith, metis)
qed

lemma kreach_length: "reach (steady_step L) (ksys_start L n) c \<Longrightarrow> length (stmts c) = n"
proof (induction rule: reach_invariant)
  case start
  show ?case by (simp add: ksys_start_def)
next
  case (step x c c')
  then show ?case
    by (cases x) (auto simp: steady_step_def split: if_splits sum.splits kjob.splits)
qed

end

section \<open>Properties\<close>

text \<open>
  C3: The system calls are linearizable: for any number of processes and any interleaving of the
  statements of \<open>kb_enqueue\<close> and \<open>kb_dequeue\<close>, failing copies to user space included, the results are those
  of a sequential bounded queue in the order in which the calls finished with the ring; at most one
  process is between lock and unlock, and if none is, the ring is well formed and holds that queue.
\<close>

theorem kb_linearizable:
  assumes "kernel_spinlock L held" and "reach (steady_step L) (ksys_start L n) c"
  shows "\<exists>q. run_ops (bq_step 5) (map fst (klog c)) [] = (map snd (klog c), q) \<and>
    accepted (map fst (klog c)) (map snd (klog c)) = received (map snd (klog c)) @ q \<and>
    cnt holds_lock (stmts c) \<le> 1 \<and>
    (cnt holds_lock (stmts c) = 0 \<longrightarrow> kb_wf (kboard_of c) \<and> kb_contents (kboard_of c) = q)"
proof -
  have inv: "kinv held c"
    using kernel_spinlock.kinv_reach [OF assms] .
  then have "cnt holds_lock (stmts c) \<le> 1"
    by (auto simp: kinv_def lock_tally_def)
  then show ?thesis
    using kernel_spinlock.kinv_queue [OF assms(1) inv] bq_run_fifo by fastforce
qed

text \<open>
  Nobody keeps the lock: in every such interleaving a process between lock and unlock can always
  execute its next statement (so no access leaves the ring), and if no process is there, the lock is
  free.
\<close>

lemma kb_lock_released:
  assumes "kernel_spinlock L held" and "reach (steady_step L) (ksys_start L n) c"
  shows "(\<forall>t < length (stmts c). holds_lock (stmts c ! t) \<longrightarrow> (\<exists>c'. ksys_step L (KSched t ok) c = Some c')) \<and>
    (cnt holds_lock (stmts c) = 0 \<longrightarrow> \<not> held (Lock (kboard_of c)))"
proof -
  have inv: "kinv held c"
    using kernel_spinlock.kinv_reach [OF assms] .
  then have "cnt holds_lock (stmts c) = 0 \<longrightarrow> \<not> held (Lock (kboard_of c))"
    by (auto simp: kinv_def lock_tally_def)
  then show ?thesis
    using kernel_spinlock.kinv_inside [OF assms(1) inv] kernel_spinlock.kinv_unlock [OF assms(1) inv] by blast
qed

text \<open>An example: a process has enqueued 7, another one holds the lock and has seen that it may dequeue.\<close>

definition kdemo :: "kchoice list" where
  "kdemo = [KStart 0 (JEnq 7), KStart 1 JDeq, KSched 0 True, KSched 0 True, KSched 0 True, KSched 0 True,
     KSched 0 True, KSched 1 True, KSched 1 True]"

lemmas ksys_eval = ksys_start_def steady_step_def kb_boot_def kb_defs tas_lock_def INIT_VALUE_def c_eval numeral_2_eq_2

lemma kdemo_run:
  "\<exists>s. exec (steady_step tas_lock) kdemo (ksys_start tas_lock 2) =
     Some \<lparr>kboard_of = s, stmts = [KIdle, DCopy], klog = [(Enq 7, Accepted)]\<rparr>"
  by (simp add: kdemo_def ksys_eval)

theorem kb_linearizable_witness:
  "\<exists>s. reach (steady_step tas_lock) (ksys_start tas_lock 2) \<lparr>kboard_of = s, stmts = [KIdle, DCopy], klog = [(Enq 7, Accepted)]\<rparr> \<and>
    accepted [Enq 7] [Accepted] = received [Accepted] @ [7 :: cint]"
proof -
  obtain s where r: "reach (steady_step tas_lock) (ksys_start tas_lock 2)
      \<lparr>kboard_of = s, stmts = [KIdle, DCopy], klog = [(Enq 7, Accepted)]\<rparr>"
    using kdemo_run by (elim exE) (rule that [OF exec_reach])
  then show ?thesis
    using kb_linearizable [OF tas.kernel_spinlock_axioms r] by (intro exI conjI) (assumption, auto)
qed

text \<open>
  C39: \<open>kb_init\<close> must not run together with another call. It initialises the lock without owning it, so
  that it takes the lock from a process that holds it: a run of one \<open>kb_enqueue\<close> and one \<open>kb_init\<close> passes
  through a state with two processes between lock and unlock and ends, both calls complete, with a
  queue whose only item is the initial value \<open>-1\<close> instead of the item enqueued.
\<close>

theorem kb_init_race:
  "\<exists>c c'. reach (ksys_step tas_lock) (ksys_start tas_lock 2) c \<and> cnt holds_lock (stmts c) = 2 \<and>
    reach (ksys_step tas_lock) c c' \<and> stmts c' = [KIdle, KIdle] \<and>
    klog c' = [(Enq 7, Accepted)] \<and> kb_contents (kboard_of c') = [- 1]"
proof -
  let ?f = "ksys_step tas_lock"
  let ?c = "\<lparr>kboard_of = \<lparr>Lock = True, Ring = [7, 0, 0, 0, 0], Count = 0, CurrentIndex = 0\<rparr>,
    stmts = [EInc 7, IFill 0], klog = []\<rparr>"
  let ?c' = "\<lparr>kboard_of = \<lparr>Lock = False, Ring = [- 1, - 1, - 1, - 1, - 1], Count = 1, CurrentIndex = 0\<rparr>,
    stmts = [KIdle, KIdle], klog = [(Enq 7, Accepted)]\<rparr>"
  have 1: "exec ?f [KStart 0 (JEnq 7), KSched 0 True, KSched 0 True, KSched 0 True, KStart 1 JInit, KSched 1 True, KSched 1 True]
      (ksys_start tas_lock 2) = Some ?c"
    by (simp add: ksys_eval numeral_eq_Suc)
  have 2: "exec ?f (replicate 9 (KSched 1 True) @ [KSched 0 True, KSched 0 True]) ?c = Some ?c'"
    by (simp add: ksys_eval eval_nat_numeral)
  have "kb_contents (kboard_of ?c') = [- 1]"
    by (simp add: kb_contents_def ring_contents_def rslice_def)
  then show ?thesis
    using exec_reach [OF 1] exec_reach [OF 2] by (intro exI [of _ ?c] exI [of _ ?c'] conjI) simp_all
qed

text \<open>
  C9: Every call of \<open>kb_enqueue\<close> and \<open>kb_dequeue\<close> returns. From any reachable state without a \<open>kb_init\<close> in progress, if no
  further call is made, no schedule has more than 7 statements per process, whichever copies to user memory succeed;
  and as long as a call is not finished, some process can execute its next statement. So no call spins for ever
  under a schedule that goes on as long as it can, and all calls end.
\<close>

theorem kb_completes:
  assumes "kernel_spinlock L held" and "reach (steady_step L) (ksys_start L n) c"
    and "exec (\<lambda>(t, ok). ksys_step L (KSched t ok)) xs c = Some c'"
  shows "length xs \<le> 7 * n \<and>
    (stmts c' = replicate n KIdle \<or> (\<exists>t < n. \<exists>c''. ksys_step L (KSched t ok) c' = Some c''))"
  using kernel_spinlock.kb_run_completes [OF assms(1) kernel_spinlock.kinv_reach [OF assms(1,2)] assms(3), of ok]
    kernel_spinlock.kreach_length [OF assms(1,2)] by (simp del: ksys_step.simps)

theorem kb_completes_witness:
  "\<exists>s t c''. reach (steady_step tas_lock) (ksys_start tas_lock 2) \<lparr>kboard_of = s, stmts = [KIdle, DCopy], klog = [(Enq 7, Accepted)]\<rparr> \<and>
    t < 2 \<and> ksys_step tas_lock (KSched t False) \<lparr>kboard_of = s, stmts = [KIdle, DCopy], klog = [(Enq 7, Accepted)]\<rparr> = Some c''"
proof -
  obtain s where r: "reach (steady_step tas_lock) (ksys_start tas_lock 2)
      \<lparr>kboard_of = s, stmts = [KIdle, DCopy], klog = [(Enq 7, Accepted)]\<rparr>"
    using kdemo_run by (elim exE) (rule that [OF exec_reach])
  have "[KIdle, DCopy] \<noteq> replicate 2 KIdle"
    by (simp add: numeral_2_eq_2)
  then have "\<exists>t < 2. \<exists>c''. ksys_step tas_lock (KSched t False) \<lparr>kboard_of = s, stmts = [KIdle, DCopy], klog = [(Enq 7, Accepted)]\<rparr> = Some c''"
    using kb_completes [OF tas.kernel_spinlock_axioms r, of "[]" _ False] by (simp del: ksys_step.simps)
  with r show ?thesis by blast
qed

end
