(* ===== verification/Rw_Sync.thy ===== *)
theory Rw_Sync
  imports Kernel_Api "HOL-Library.Monad_Syntax"
begin

text \<open>
  The interface between the kboard handlers and the three solutions of the readers-writers problem
  of \<open>lab2/KboardModule.c\<close>. A solution is a set of positions (one per statement of its four methods,
  and the three places outside them), a shared state and a function \<open>pstep\<close> that executes the
  statement at a position, or is \<open>None\<close> where the statement has to wait. \<open>rw_step\<close> interleaves any
  number of threads that enter and leave as they like. The locale \<open>rw_exclusion\<close> is the contract the
  handlers rely on: a writer in its critical section is alone.
\<close>

text \<open>
  \<open>InitializeSemaphore\<close>: the assignment of \<open>__SEMAPHORE_INITIALIZER\<close>, a macro of the kernel. \<open>lockdep_init_map\<close> only
  registers the lock with the kernel's lock checker.
\<close>

definition InitializeSemaphore :: "'sm sem_ops \<Rightarrow> cint \<Rightarrow> 'sm" where
  "InitializeSemaphore K value = sem_initializer K value"

declare InitializeSemaphore_def [simp]

record ('p, 's) sync_ops =
  pos_idle :: 'p
  pos_enter_writer :: 'p
  pos_in_writer :: 'p
  pos_leave_writer :: 'p
  pos_enter_reader :: 'p
  pos_in_reader :: 'p
  pos_leave_reader :: 'p
  pstep :: "'p \<Rightarrow> 's \<Rightarrow> ('p \<times> 's) option"

text \<open>
  What a scheduler chooses: a thread executes its next statement, or a thread calls one of the four
  methods (an idle one an \<open>Enter\<close>, one in its critical section the matching \<open>Leave\<close>).
\<close>

datatype rw_act = Run nat | CallEnterW nat | CallLeaveW nat | CallEnterR nat | CallLeaveR nat

definition jump :: "'p \<Rightarrow> 'p \<Rightarrow> nat \<Rightarrow> 's \<times> 'p list \<Rightarrow> ('s \<times> 'p list) option" where
  "jump p q t = (\<lambda>(s, ps). if t < length ps \<and> ps ! t = p then Some (s, ps[t := q]) else None)"

fun rw_step :: "('p, 's) sync_ops \<Rightarrow> rw_act \<Rightarrow> 's \<times> 'p list \<Rightarrow> ('s \<times> 'p list) option" where
  "rw_step P (Run t) (s, ps) =
     (if t < length ps then
        (case pstep P (ps ! t) s of None \<Rightarrow> None | Some (p, s') \<Rightarrow> Some (s', ps[t := p]))
      else None)"
| "rw_step P (CallEnterW t) c = jump (pos_idle P) (pos_enter_writer P) t c"
| "rw_step P (CallLeaveW t) c = jump (pos_in_writer P) (pos_leave_writer P) t c"
| "rw_step P (CallEnterR t) c = jump (pos_idle P) (pos_enter_reader P) t c"
| "rw_step P (CallLeaveR t) c = jump (pos_in_reader P) (pos_leave_reader P) t c"

text \<open>Every thread outside the methods, the shared state as initialised.\<close>

definition rw_start :: "('p, 's) sync_ops \<Rightarrow> 's \<Rightarrow> nat \<Rightarrow> 's \<times> 'p list" where
  "rw_start P s0 n = (s0, replicate n (pos_idle P))"

text \<open>A writer in its critical section excludes every other thread from its own.\<close>

definition rw_excl :: "('p, 's) sync_ops \<Rightarrow> 'p list \<Rightarrow> bool" where
  "rw_excl P ps \<longleftrightarrow> (\<forall>t < length ps. \<forall>u < length ps. t \<noteq> u \<longrightarrow> ps ! t = pos_in_writer P \<longrightarrow>
     ps ! u \<noteq> pos_in_writer P \<and> ps ! u \<noteq> pos_in_reader P)"

text \<open>The whole state is stuck although a thread has called a method.\<close>

definition rw_deadlock :: "('p, 's) sync_ops \<Rightarrow> 's \<times> 'p list \<Rightarrow> bool" where
  "rw_deadlock P = (\<lambda>(s, ps).
     (\<exists>t < length ps. ps ! t \<notin> {pos_idle P, pos_in_writer P, pos_in_reader P}) \<and>
     (\<forall>t < length ps. ps ! t \<noteq> pos_in_writer P \<and> ps ! t \<noteq> pos_in_reader P \<and> pstep P (ps ! t) s = None))"

text \<open>
  One thread alone executes a method from its first statement to the position behind it; \<open>None\<close> if it
  has to wait (or if the number of statements allowed does not suffice).
\<close>

fun run_alone :: "('p, 's) sync_ops \<Rightarrow> nat \<Rightarrow> 'p \<Rightarrow> 's \<Rightarrow> ('p \<times> 's) option" where
  "run_alone P k p s =
     (if p = pos_idle P \<or> p = pos_in_writer P \<or> p = pos_in_reader P then Some (p, s)
      else case k of 0 \<Rightarrow> None
        | Suc k \<Rightarrow> (case pstep P p s of None \<Rightarrow> None | Some (q, s') \<Rightarrow> run_alone P k q s'))"

declare run_alone.simps [simp del]

text \<open>
  The four methods of a solution as functions, for a caller that meets nobody else (\<open>None\<close>: it waits).
  The contract \<open>cs_contract\<close>: from a state in which nobody is in a critical section, a whole visit as
  a writer or as a reader goes through and restores such a state.
\<close>

record 'y cs_methods =
  enter_writer :: "'y \<Rightarrow> 'y option"
  enter_reader :: "'y \<Rightarrow> 'y option"
  leave_writer :: "'y \<Rightarrow> 'y option"
  leave_reader :: "'y \<Rightarrow> 'y option"

locale cs_contract =
  fixes M :: "'y cs_methods" and free :: "'y \<Rightarrow> bool"
  assumes writer_visit: "free y \<Longrightarrow> \<exists>y1 y2. enter_writer M y = Some y1 \<and> leave_writer M y1 = Some y2 \<and> free y2"
    and reader_visit: "free y \<Longrightarrow> \<exists>y1 y2. enter_reader M y = Some y1 \<and> leave_reader M y1 = Some y2 \<and> free y2"

text \<open>
  The threads of a system with working semaphores. There are fewer than \<open>2^31\<close> of them, so that a
  thread count fits an \<open>int\<close>.
\<close>

locale rw_threads = kernel_semaphore K val for K :: "'sm sem_ops" and val +
  fixes n :: nat
  assumes n_small: "n < 2147483648"

lemma rw_threadsI: "kernel_semaphore K val \<Longrightarrow> n < 2147483648 \<Longrightarrow> rw_threads K val n"
  by (intro rw_threads.intro rw_threads_axioms.intro)

interpretation counting8: rw_threads counting_sem "\<lambda>n. n" 8
  by unfold_locales simp

locale rw_exclusion =
  fixes P :: "('p, 's) sync_ops" and s0 :: 's and n :: nat
  assumes apart: "distinct [pos_idle P, pos_in_writer P, pos_in_reader P]"
    and waits_idle: "pstep P (pos_idle P) s = None"
    and waits_in_writer: "pstep P (pos_in_writer P) s = None"
    and waits_in_reader: "pstep P (pos_in_reader P) s = None"
    and exclusive: "reach (rw_step P) (rw_start P s0 n) (s, ps) \<Longrightarrow> rw_excl P ps"

lemma jump_Some:
  "jump p q t c = Some c' \<longleftrightarrow>
     (\<exists>s ps. c = (s, ps) \<and> t < length ps \<and> ps ! t = p \<and> c' = (s, ps[t := q]))"
  by (cases c) (auto simp: jump_def)

lemma rw_step_length: "rw_step P x (s, ps) = Some (s', ps') \<Longrightarrow> length ps' = length ps"
  by (cases x) (auto simp: jump_Some split: if_splits option.splits)

lemma rw_reach_length: "reach (rw_step P) (s0, ps0) (s, ps) \<Longrightarrow> length ps = length ps0"
proof -
  assume "reach (rw_step P) (s0, ps0) (s, ps)"
  then have "length (snd (s, ps)) = length (snd (s0, ps0))"
    by (induction rule: reach.induct) (auto dest: rw_step_length)
  then show ?thesis by simp
qed

lemma rw_exclD:
  "rw_excl P ps \<Longrightarrow> t < length ps \<Longrightarrow> u < length ps \<Longrightarrow> t \<noteq> u \<Longrightarrow> ps ! t = pos_in_writer P \<Longrightarrow>
     ps ! u \<noteq> pos_in_writer P \<and> ps ! u \<noteq> pos_in_reader P"
  by (auto simp: rw_excl_def)

text \<open>Exclusion in terms of the numbers of threads at the two positions.\<close>

lemma rw_exclI:
  assumes "occ ps (pos_in_writer P) \<le> 1"
    and "0 < occ ps (pos_in_writer P) \<Longrightarrow> occ ps (pos_in_reader P) = 0"
  shows "rw_excl P ps"
  unfolding rw_excl_def
proof (intro allI impI)
  fix t u
  assume t: "t < length ps" and u: "u < length ps" and ne: "t \<noteq> u" and w: "ps ! t = pos_in_writer P"
  have "ps ! u \<noteq> pos_in_writer P"
    using occ_two [OF t u ne w] assms(1) by linarith
  moreover have "ps ! u \<noteq> pos_in_reader P"
    using occ_pos [OF u, of "pos_in_reader P"] occ_pos [OF t w] assms(2) by linarith
  ultimately show "ps ! u \<noteq> pos_in_writer P \<and> ps ! u \<noteq> pos_in_reader P" ..
qed

text \<open>
  An invariant of a solution is shown statement by statement: \<open>rw_invariantI\<close> reduces it to the
  start, the statements and the four calls.
\<close>

lemma rw_invariantI:
  assumes reach: "reach (rw_step P) (rw_start P s0 n) (s, ps)"
    and start: "I s0 (replicate n (pos_idle P))"
    and run: "\<And>s ps t p q s'. I s ps \<Longrightarrow> length ps = n \<Longrightarrow> t < n \<Longrightarrow> ps ! t = p \<Longrightarrow>
      pstep P p s = Some (q, s') \<Longrightarrow> I s' (ps[t := q])"
    and enter_writer: "\<And>s ps t. I s ps \<Longrightarrow> length ps = n \<Longrightarrow> t < n \<Longrightarrow> ps ! t = pos_idle P \<Longrightarrow>
      I s (ps[t := pos_enter_writer P])"
    and leave_writer: "\<And>s ps t. I s ps \<Longrightarrow> length ps = n \<Longrightarrow> t < n \<Longrightarrow> ps ! t = pos_in_writer P \<Longrightarrow>
      I s (ps[t := pos_leave_writer P])"
    and enter_reader: "\<And>s ps t. I s ps \<Longrightarrow> length ps = n \<Longrightarrow> t < n \<Longrightarrow> ps ! t = pos_idle P \<Longrightarrow>
      I s (ps[t := pos_enter_reader P])"
    and leave_reader: "\<And>s ps t. I s ps \<Longrightarrow> length ps = n \<Longrightarrow> t < n \<Longrightarrow> ps ! t = pos_in_reader P \<Longrightarrow>
      I s (ps[t := pos_leave_reader P])"
  shows "I s ps"
proof -
  define J where "J c \<longleftrightarrow> I (fst c) (snd c) \<and> length (snd c) = n" for c
  have "J (s, ps)"
    using reach
  proof (induction rule: reach_invariant)
    case start
    show ?case using assms(2) by (simp add: J_def rw_start_def)
  next
    case (step x c c')
    obtain s1 ps1 s2 ps2 where c: "c = (s1, ps1)" and c': "c' = (s2, ps2)"
      by (cases c; cases c')
    have I: "I s1 ps1" and n: "length ps1 = n"
      using step.IH c by (simp_all add: J_def)
    have "I s2 ps2"
      using step.hyps c c' n
      by (cases x)
        (auto simp: jump_Some split: if_splits option.splits
          intro: run [OF I n] enter_writer [OF I n] leave_writer [OF I n] enter_reader [OF I n]
            leave_reader [OF I n])
    with rw_step_length [of P x s1 ps1 s2 ps2] step.hyps c c' n show ?case
      by (simp add: J_def)
  qed
  then show ?thesis by (simp add: J_def)
qed

text \<open>More statements allowed than needed make no difference.\<close>

lemma run_alone_mono: "run_alone P k p y = Some z \<Longrightarrow> run_alone P (k + j) p y = Some z"
proof (induction k arbitrary: p y)
  case 0
  then show ?case by (auto simp: run_alone.simps split: if_splits)
next
  case (Suc k)
  then show ?case
    by (auto simp: run_alone.simps [of P "Suc _" p] split: if_splits option.splits)
qed

text \<open>
  The contract between the two models of a solution: one thread that executes a method alone, statement by statement,
  does exactly what the method as a function says, and waits exactly when it does.
\<close>

locale alone_methods =
  fixes P :: "('p, 'y) sync_ops" and M :: "'y cs_methods"
  assumes enter_writer_alone: "\<exists>m. \<forall>k. run_alone P (m + k) (pos_enter_writer P) y = map_option (Pair (pos_in_writer P)) (enter_writer M y)"
    and leave_writer_alone: "\<exists>m. \<forall>k. run_alone P (m + k) (pos_leave_writer P) y = map_option (Pair (pos_idle P)) (leave_writer M y)"
    and enter_reader_alone: "\<exists>m. \<forall>k. run_alone P (m + k) (pos_enter_reader P) y = map_option (Pair (pos_in_reader P)) (enter_reader M y)"
    and leave_reader_alone: "\<exists>m. \<forall>k. run_alone P (m + k) (pos_leave_reader P) y = map_option (Pair (pos_idle P)) (leave_reader M y)"

end
