(* ===== verification/Lightswitch.thy ===== *)
theory Lightswitch
  imports Rw_Sync
begin

text \<open>
  The pattern solutions 1 and 2 are built from: a group of threads counts itself under a mutex; the
  first one in takes a gate semaphore and the last one out gives it back, while single holders take
  the same gate for themselves. In solution 1 the readers are the group and a writer is a holder of
  \<open>SemaphoreWriter\<close>; in solution 2 this is so too, and besides the writers are a group whose gate is
  \<open>SemaphoreReader\<close>, which each reader holds for a moment.

  A position of a thread plays a role in the pattern; \<open>ls_inv\<close> relates the mutex, the counter, the
  gate and the roles of all threads, and there is one preservation lemma per statement. The
  solutions map their positions to roles and inherit everything.
\<close>

datatype role =
    Out              \<comment> \<open>has nothing to do with the gate\<close>
  | AtInc | AtIfFirst | AtTake | AtUnlockIn   \<comment> \<open>coming in, holding the mutex\<close>
  | Inside           \<comment> \<open>in the group, not holding the mutex\<close>
  | AtDec | AtIfLast | AtGive | AtUnlockOut   \<comment> \<open>going out, holding the mutex\<close>
  | Holder           \<comment> \<open>holds the gate alone\<close>

definition with_mutex :: "role list" where
  "with_mutex = [AtInc, AtIfFirst, AtTake, AtUnlockIn, AtDec, AtIfLast, AtGive, AtUnlockOut]"

definition counted :: "role list" where
  "counted = [AtIfFirst, AtTake, AtUnlockIn, Inside, AtDec]"

definition group :: "role list" where
  "group = [AtUnlockIn, Inside, AtDec, AtIfLast, AtGive]"

definition ls_inv :: "nat \<Rightarrow> cint \<Rightarrow> nat \<Rightarrow> role list \<Rightarrow> bool" where
  "ls_inv m c g rs \<longleftrightarrow>
     m + occs rs with_mutex = 1 \<and>
     unat c = occs rs counted \<and>
     g + occ rs Holder + (if 0 < occs rs group then 1 else 0) = 1 \<and>
     (0 < occ rs AtTake \<longrightarrow> unat c = 1) \<and>
     (0 < occ rs AtGive \<longrightarrow> unat c = 0) \<and>
     length rs < 2147483648"

lemmas role_sets = with_mutex_def counted_def group_def
lemmas ls_defs = ls_inv_def role_sets

lemma ls_start: "n < 2147483648 \<Longrightarrow> ls_inv 1 0 1 (replicate n Out)"
  by (simp add: ls_defs)

text \<open>The statements, each for a thread in the role the statement starts from.\<close>

lemma ls_inc:
  assumes inv: "ls_inv m c g rs" and t: "t < length rs" "rs ! t = AtInc"
  shows "ls_inv m (c + 1) g (rs[t := AtIfFirst])"
proof -
  have "occ rs AtInc + occs rs counted \<le> length rs"
    using occs_le [of rs "AtInc # counted"] by (simp add: role_sets occs_Cons)
  then have "unat (c + 1) = Suc (unat c)"
    using inv occ_pos [OF t] by (simp add: ls_inv_def cint_simps)
  then show ?thesis
    using inv occ_pos [OF t] t
    by (auto simp: ls_defs occs_Cons occ_update simp del: occ_arith split: if_splits)
qed

lemma ls_dec:
  assumes inv: "ls_inv m c g rs" and t: "t < length rs" "rs ! t = AtDec"
  shows "ls_inv m (c - 1) g (rs[t := AtIfLast])"
proof -
  have "0 < unat c"
    using inv occs_pos [OF t(1), of counted] t(2) by (simp add: ls_inv_def counted_def)
  then have "unat (c - 1) = unat c - 1"
    by (rule unat_dec)
  then show ?thesis
    using inv occ_pos [OF t] t
    by (auto simp: ls_defs occs_Cons occ_update simp del: occ_arith split: if_splits)
qed

lemma ls_moves:
  assumes t: "t < length rs"
  shows "ls_inv m c g rs \<Longrightarrow> rs ! t = AtIfFirst \<Longrightarrow> ls_inv m c g (rs[t := if c = 1 then AtTake else AtUnlockIn])"
    and "ls_inv m c (Suc g) rs \<Longrightarrow> rs ! t = AtTake \<Longrightarrow> ls_inv m c g (rs[t := AtUnlockIn])"
    and "ls_inv m c g rs \<Longrightarrow> rs ! t = AtUnlockIn \<Longrightarrow> ls_inv (Suc m) c g (rs[t := Inside])"
    and "ls_inv (Suc m) c g rs \<Longrightarrow> rs ! t = Inside \<Longrightarrow> ls_inv m c g (rs[t := AtDec])"
    and "ls_inv m c g rs \<Longrightarrow> rs ! t = AtIfLast \<Longrightarrow> ls_inv m c g (rs[t := if c = 0 then AtGive else AtUnlockOut])"
    and "ls_inv m c g rs \<Longrightarrow> rs ! t = AtGive \<Longrightarrow> ls_inv m c (Suc g) (rs[t := AtUnlockOut])"
    and "ls_inv m c g rs \<Longrightarrow> rs ! t = AtUnlockOut \<Longrightarrow> ls_inv (Suc m) c g (rs[t := Out])"
    and "ls_inv (Suc m) c g rs \<Longrightarrow> rs ! t = Out \<Longrightarrow> ls_inv m c g (rs[t := AtInc])"
    and "ls_inv m c (Suc g) rs \<Longrightarrow> rs ! t = Out \<Longrightarrow> ls_inv m c g (rs[t := Holder])"
    and "ls_inv m c g rs \<Longrightarrow> rs ! t = Holder \<Longrightarrow> ls_inv m c (Suc g) (rs[t := Out])"
  using occ_pos [OF t refl]
  by (auto simp: ls_defs eq_one_unat eq_zero_unat occs_Cons occ_update [OF t]
      simp del: occ_arith split: if_splits)

text \<open>A statement that does not change a thread's role.\<close>

lemma ls_stay: "ls_inv m c g rs \<Longrightarrow> rs ! t = r \<Longrightarrow> ls_inv m c g (rs[t := r])"
  by (metis list_update_id)

section \<open>What the invariant gives\<close>

lemma ls_excl: "ls_inv m c g rs \<Longrightarrow> occ rs Holder \<le> 1 \<and> (0 < occ rs Holder \<longrightarrow> occ rs Inside = 0)"
  by (auto simp: ls_defs occs_Cons split: if_splits)

lemma ls_count: "ls_inv 1 c g rs \<Longrightarrow> unat c = occ rs Inside"
  by (auto simp: ls_defs occs_Cons)

lemma ls_quiet: "ls_inv m c g (replicate n Out) \<Longrightarrow> m = 1 \<and> c = 0 \<and> g = 1"
  by (auto simp: ls_defs eq_zero_unat)

text \<open>If the mutex is taken, its owner either can go on or waits for the gate.\<close>

lemma ls_mutex_owner: "ls_inv 0 c g rs \<Longrightarrow> 0 < occs rs with_mutex"
  by (simp add: ls_inv_def)

lemma ls_gate_owner:
  "ls_inv m c 0 rs \<Longrightarrow> 0 < occ rs Holder \<or> 0 < occs rs group"
  by (auto simp: ls_inv_def split: if_splits)

text \<open>
  If all threads wait (in the group for the mutex, to take the gate for the gate), the mutex and the
  gate are in fact free: nobody waits here.
\<close>

lemma ls_stuck:
  assumes inv: "ls_inv m c g rs"
    and roles: "\<And>t. t < length rs \<Longrightarrow> rs ! t \<in> {Out, Inside, AtTake}"
    and inside: "\<And>t. t < length rs \<Longrightarrow> rs ! t = Inside \<Longrightarrow> m = 0"
    and take: "\<And>t. t < length rs \<Longrightarrow> rs ! t = AtTake \<Longrightarrow> g = 0"
  shows "m = 1 \<and> g = 1 \<and> occ rs Inside = 0 \<and> occ rs AtTake = 0"
proof -
  have occ: "occ rs r = 0" if "r \<notin> {Out, Inside, AtTake}" for r
    using roles that by (intro occ_zeroI) auto
  have "0 < occ rs Inside \<longrightarrow> m = 0" "0 < occ rs AtTake \<longrightarrow> g = 0"
    using inside take unfolding occ_pos_iff by blast+
  then show ?thesis
    using inv by (auto simp: ls_defs occs_Cons occ split: if_splits)
qed

lemma ls_group_shut: "ls_inv m c g rs \<Longrightarrow> 0 < occs rs group \<Longrightarrow> g = 0"
  by (simp add: ls_inv_def)

lemma ls_take_alone: "ls_inv m c g rs \<Longrightarrow> 0 < occ rs AtTake \<Longrightarrow> occs rs group = 0"
  by (auto simp: ls_defs occs_Cons)

end
