(* ===== verification/Sync1.thy ===== *)
theory Sync1
  imports Lightswitch
begin

text \<open>
  Solution 1 of \<open>lab2/KboardModule.c\<close> (\<open>SYNC_SOLUTION == 1\<close>, the one the source selects): readers
  count themselves under \<open>SemaphoreMutex\<close>; the first reader in and the last reader out take and
  release \<open>SemaphoreWriter\<close>, which a writer holds for its whole critical section.

  Each method is modelled twice: as the function one caller executes without interference, and
  statement by statement as the position automaton \<open>step1\<close> that is interleaved; they are shown to
  agree. Field and method names carry the number of the solution.
\<close>

section \<open>State and methods\<close>

record 'sm sync1 =
  SemaphoreMutex1 :: 'sm
  SemaphoreWriter1 :: 'sm
  ReaderCount1 :: cint
  PerformDelay1 :: cint

definition InitializeSyncSolution1 :: "'sm sem_ops \<Rightarrow> 'sm sync1" where
  "InitializeSyncSolution1 K =
     \<lparr>SemaphoreMutex1 = InitializeSemaphore K 1, SemaphoreWriter1 = InitializeSemaphore K 1, ReaderCount1 = 0,
      PerformDelay1 = 3\<rparr>"

definition down_Mutex1 :: "'sm sem_ops \<Rightarrow> 'sm sync1 \<Rightarrow> 'sm sync1 option" where
  "down_Mutex1 K s = map_option (\<lambda>m. s\<lparr>SemaphoreMutex1 := m\<rparr>) (sem_down K (SemaphoreMutex1 s))"

definition up_Mutex1 :: "'sm sem_ops \<Rightarrow> 'sm sync1 \<Rightarrow> 'sm sync1" where
  "up_Mutex1 K s = s\<lparr>SemaphoreMutex1 := sem_up K (SemaphoreMutex1 s)\<rparr>"

definition down_Writer1 :: "'sm sem_ops \<Rightarrow> 'sm sync1 \<Rightarrow> 'sm sync1 option" where
  "down_Writer1 K s = map_option (\<lambda>w. s\<lparr>SemaphoreWriter1 := w\<rparr>) (sem_down K (SemaphoreWriter1 s))"

definition up_Writer1 :: "'sm sem_ops \<Rightarrow> 'sm sync1 \<Rightarrow> 'sm sync1" where
  "up_Writer1 K s = s\<lparr>SemaphoreWriter1 := sem_up K (SemaphoreWriter1 s)\<rparr>"

definition EnterCriticalSection_Writer1 :: "'sm sem_ops \<Rightarrow> 'sm sync1 \<Rightarrow> 'sm sync1 option" where
  "EnterCriticalSection_Writer1 K s = down_Writer1 K s"

definition EnterCriticalSection_Reader1 :: "'sm sem_ops \<Rightarrow> 'sm sync1 \<Rightarrow> 'sm sync1 option" where
  "EnterCriticalSection_Reader1 K s = do {
     s \<leftarrow> down_Mutex1 K s;
     let s = s\<lparr>ReaderCount1 := ReaderCount1 s + 1\<rparr>;
     s \<leftarrow> (if ReaderCount1 s = 1 then down_Writer1 K s else Some s);
     Some (up_Mutex1 K s) }"

definition LeaveCriticalSection_Writer1 :: "'sm sem_ops \<Rightarrow> 'sm sync1 \<Rightarrow> 'sm sync1 option" where
  "LeaveCriticalSection_Writer1 K s = Some (up_Writer1 K s)"

definition LeaveCriticalSection_Reader1 :: "'sm sem_ops \<Rightarrow> 'sm sync1 \<Rightarrow> 'sm sync1 option" where
  "LeaveCriticalSection_Reader1 K s = do {
     s \<leftarrow> down_Mutex1 K s;
     let s = s\<lparr>ReaderCount1 := ReaderCount1 s - 1\<rparr>;
     let s = (if ReaderCount1 s = 0 then up_Writer1 K s else s);
     Some (up_Mutex1 K s) }"

text \<open>The positions: one per statement, named by the method and the statement.\<close>

datatype pc1 =
    Idle1
  | EW1_down_Writer | InW1 | LW1_up_Writer
  | ER1_down_Mutex | ER1_inc | ER1_if | ER1_down_Writer | ER1_up_Mutex | InR1
  | LR1_down_Mutex | LR1_dec | LR1_if | LR1_up_Writer | LR1_up_Mutex

fun step1 :: "'sm sem_ops \<Rightarrow> pc1 \<Rightarrow> 'sm sync1 \<Rightarrow> (pc1 \<times> 'sm sync1) option" where
  "step1 K Idle1 s = None"
| "step1 K EW1_down_Writer s = map_option (Pair InW1) (down_Writer1 K s)"
| "step1 K InW1 s = None"
| "step1 K LW1_up_Writer s = Some (Idle1, up_Writer1 K s)"
| "step1 K ER1_down_Mutex s = map_option (Pair ER1_inc) (down_Mutex1 K s)"
| "step1 K ER1_inc s = Some (ER1_if, s\<lparr>ReaderCount1 := ReaderCount1 s + 1\<rparr>)"
| "step1 K ER1_if s = Some (if ReaderCount1 s = 1 then ER1_down_Writer else ER1_up_Mutex, s)"
| "step1 K ER1_down_Writer s = map_option (Pair ER1_up_Mutex) (down_Writer1 K s)"
| "step1 K ER1_up_Mutex s = Some (InR1, up_Mutex1 K s)"
| "step1 K InR1 s = None"
| "step1 K LR1_down_Mutex s = map_option (Pair LR1_dec) (down_Mutex1 K s)"
| "step1 K LR1_dec s = Some (LR1_if, s\<lparr>ReaderCount1 := ReaderCount1 s - 1\<rparr>)"
| "step1 K LR1_if s = Some (if ReaderCount1 s = 0 then LR1_up_Writer else LR1_up_Mutex, s)"
| "step1 K LR1_up_Writer s = Some (LR1_up_Mutex, up_Writer1 K s)"
| "step1 K LR1_up_Mutex s = Some (Idle1, up_Mutex1 K s)"

definition sol1 :: "'sm sem_ops \<Rightarrow> (pc1, 'sm sync1) sync_ops" where
  "sol1 K = \<lparr>pos_idle = Idle1, pos_enter_writer = EW1_down_Writer, pos_in_writer = InW1,
     pos_leave_writer = LW1_up_Writer, pos_enter_reader = ER1_down_Mutex, pos_in_reader = InR1,
     pos_leave_reader = LR1_down_Mutex, pstep = step1 K\<rparr>"

section \<open>The invariant\<close>

text \<open>Readers are the group, writers the holders of the gate \<open>SemaphoreWriter\<close>.\<close>

fun role1 :: "pc1 \<Rightarrow> role" where
  "role1 InW1 = Holder"
| "role1 LW1_up_Writer = Holder"
| "role1 ER1_inc = AtInc"
| "role1 ER1_if = AtIfFirst"
| "role1 ER1_down_Writer = AtTake"
| "role1 ER1_up_Mutex = AtUnlockIn"
| "role1 InR1 = Inside"
| "role1 LR1_down_Mutex = Inside"
| "role1 LR1_dec = AtDec"
| "role1 LR1_if = AtIfLast"
| "role1 LR1_up_Writer = AtGive"
| "role1 LR1_up_Mutex = AtUnlockOut"
| "role1 p = Out"

definition inv1 :: "('sm \<Rightarrow> nat) \<Rightarrow> 'sm sync1 \<Rightarrow> pc1 list \<Rightarrow> bool" where
  "inv1 val s ps \<longleftrightarrow>
     ls_inv (val (SemaphoreMutex1 s)) (ReaderCount1 s) (val (SemaphoreWriter1 s)) (map role1 ps)"

lemmas sem1_defs = down_Mutex1_def up_Mutex1_def down_Writer1_def up_Writer1_def

lemma sol1_simps [simp]:
  "pos_idle (sol1 K) = Idle1" "pos_enter_writer (sol1 K) = EW1_down_Writer"
  "pos_in_writer (sol1 K) = InW1" "pos_leave_writer (sol1 K) = LW1_up_Writer"
  "pos_enter_reader (sol1 K) = ER1_down_Mutex" "pos_in_reader (sol1 K) = InR1"
  "pos_leave_reader (sol1 K) = LR1_down_Mutex" "pstep (sol1 K) = step1 K"
  by (simp_all add: sol1_def)

lemma role1_if:
  "role1 (if b then ER1_down_Writer else ER1_up_Mutex) = (if b then AtTake else AtUnlockIn)"
  "role1 (if b then LR1_up_Writer else LR1_up_Mutex) = (if b then AtGive else AtUnlockOut)"
  by simp_all

context kernel_semaphore
begin

lemma inv1_step:
  assumes inv: "inv1 val s ps" and t: "t < length ps" "ps ! t = p" and step: "step1 K p s = Some (q, s')"
  shows "inv1 val s' (ps[t := q])"
proof -
  have t': "t < length (map role1 ps)" "map role1 ps ! t = role1 p"
    using t by simp_all
  show ?thesis
    using inv step t'(2) ls_moves [OF t'(1)] ls_inc [OF _ t'(1)] ls_dec [OF _ t'(1)]
    unfolding inv1_def map_update
    by (cases p) (auto simp: sem1_defs role1_if dest!: down_Some)
qed

lemma inv1_reach:
  assumes n: "n < 2147483648"
    and reach: "reach (rw_step (sol1 K)) (rw_start (sol1 K) (InitializeSyncSolution1 K) n) (s, ps)"
  shows "inv1 val s ps"
proof (rule rw_invariantI [OF reach])
  show "inv1 val (InitializeSyncSolution1 K) (replicate n (pos_idle (sol1 K)))"
    using ls_start [OF n] by (simp add: inv1_def InitializeSyncSolution1_def)
qed (auto simp: inv1_def map_update intro: inv1_step [unfolded inv1_def map_update] ls_stay)

lemma inv1_excl:
  assumes "inv1 val s ps"
  shows "rw_excl (sol1 K) ps"
proof (rule rw_exclI)
  have excl: "occ (map role1 ps) Holder \<le> 1"
    "0 < occ (map role1 ps) Holder \<longrightarrow> occ (map role1 ps) Inside = 0"
    using ls_excl assms unfolding inv1_def by blast+
  show "occ ps (pos_in_writer (sol1 K)) \<le> 1"
    using occ_map_le [of ps InW1 role1] excl(1) by simp
  show "occ ps (pos_in_reader (sol1 K)) = 0" if "0 < occ ps (pos_in_writer (sol1 K))"
    using occ_map_le [of ps InW1 role1] occ_map_le [of ps InR1 role1] excl(2) that by simp
qed

text \<open>
  No deadlock: if nobody is in a critical section, some thread that has called a method can execute
  its next statement.
\<close>

lemma inv1_no_deadlock:
  assumes inv: "inv1 val s ps"
  shows "\<not> rw_deadlock (sol1 K) (s, ps)"
proof
  assume "rw_deadlock (sol1 K) (s, ps)"
  then obtain u where u: "u < length ps" "ps ! u \<notin> {Idle1, InW1, InR1}"
    and stuck: "\<And>t. t < length ps \<Longrightarrow> ps ! t \<noteq> InW1 \<and> ps ! t \<noteq> InR1 \<and> step1 K (ps ! t) s = None"
    by (auto simp: rw_deadlock_def)
  let ?rs = "map role1 ps" and ?m = "val (SemaphoreMutex1 s)" and ?g = "val (SemaphoreWriter1 s)"
  have at: "ps ! t = Idle1 \<or> (ps ! t = ER1_down_Mutex \<or> ps ! t = LR1_down_Mutex) \<and> ?m = 0 \<or>
      (ps ! t = EW1_down_Writer \<or> ps ! t = ER1_down_Writer) \<and> ?g = 0" if "t < length ps" for t
    using stuck [OF that] by (cases "ps ! t") (auto simp: sem1_defs down_None_iff)
  have "?m = 1 \<and> ?g = 1 \<and> occ ?rs Inside = 0 \<and> occ ?rs AtTake = 0"
  proof (rule ls_stuck [OF inv [unfolded inv1_def]])
    fix t assume "t < length ?rs"
    then have "t < length ps" by simp
    from at [OF this] this show "?rs ! t \<in> {Out, Inside, AtTake}"
      and "?rs ! t = Inside \<Longrightarrow> ?m = 0" and "?rs ! t = AtTake \<Longrightarrow> ?g = 0"
      by auto
  qed
  then show False
    using at [OF u(1)] u(2) by auto
qed

end

sublocale rw_threads \<subseteq> s1: rw_exclusion "sol1 K" "InitializeSyncSolution1 K" n
  by unfold_locales (auto intro: inv1_excl inv1_reach [OF n_small])

context rw_threads
begin

lemma exclusion1: "rw_exclusion (sol1 K) (InitializeSyncSolution1 K) n"
  by (rule s1.rw_exclusion_axioms)

end

lemma sol1_exclusion:
  assumes "kernel_semaphore K val" and "n < 2147483648"
  shows "rw_exclusion (sol1 K) (InitializeSyncSolution1 K) n"
  using rw_threadsI [OF assms] by (rule rw_threads.exclusion1)

text \<open>An example run: a writer is in its critical section, a first reader waits for it.\<close>

lemma sync1_demo:
  "\<exists>s. reach (rw_step (sol1 counting_sem)) (rw_start (sol1 counting_sem) (InitializeSyncSolution1 counting_sem) 2)
      (s, [InW1, ER1_down_Writer])"
proof -
  let ?P = "sol1 counting_sem" and ?s0 = "InitializeSyncSolution1 counting_sem"
  have "\<exists>s. exec (rw_step ?P) [CallEnterW 0, Run 0, CallEnterR 1, Run 1, Run 1, Run 1] (rw_start ?P ?s0 2) =
      Some (s, [InW1, ER1_down_Writer])"
    by (simp add: rw_start_def jump_def sem1_defs InitializeSyncSolution1_def counting_sem_def numeral_2_eq_2)
  then show ?thesis
    by (blast intro: exec_reach)
qed

section \<open>A visit that meets nobody\<close>

definition methods1 :: "'sm sem_ops \<Rightarrow> 'sm sync1 cs_methods" where
  "methods1 K = \<lparr>enter_writer = EnterCriticalSection_Writer1 K, enter_reader = EnterCriticalSection_Reader1 K,
     leave_writer = LeaveCriticalSection_Writer1 K, leave_reader = LeaveCriticalSection_Reader1 K\<rparr>"

definition free1 :: "('sm \<Rightarrow> nat) \<Rightarrow> 'sm sync1 \<Rightarrow> bool" where
  "free1 val s \<longleftrightarrow> val (SemaphoreMutex1 s) = 1 \<and> val (SemaphoreWriter1 s) = 1 \<and> ReaderCount1 s = 0"

lemmas enter_leave1 = EnterCriticalSection_Writer1_def EnterCriticalSection_Reader1_def
  LeaveCriticalSection_Writer1_def LeaveCriticalSection_Reader1_def

context kernel_semaphore
begin

lemma init_free1: "free1 val (InitializeSyncSolution1 K)"
  by (simp add: free1_def InitializeSyncSolution1_def)

end

sublocale kernel_semaphore \<subseteq> m1: cs_contract "methods1 K" "free1 val"
proof unfold_locales
  fix y assume "free1 val y"
  then have y: "val (SemaphoreMutex1 y) = 1" "val (SemaphoreWriter1 y) = 1" "ReaderCount1 y = 0"
    by (simp_all add: free1_def)
  from down_takes [of "SemaphoreMutex1 y"] y obtain m where m: "sem_down K (SemaphoreMutex1 y) = Some m" "val m = 0"
    by auto
  from down_takes [of "SemaphoreWriter1 y"] y obtain w where w: "sem_down K (SemaphoreWriter1 y) = Some w" "val w = 0"
    by auto
  from down_takes [of "sem_up K m"] m obtain m' where m': "sem_down K (sem_up K m) = Some m'" "val m' = 0"
    by auto
  show "\<exists>y1 y2. enter_writer (methods1 K) y = Some y1 \<and> leave_writer (methods1 K) y1 = Some y2 \<and> free1 val y2"
    and "\<exists>y1 y2. enter_reader (methods1 K) y = Some y1 \<and> leave_reader (methods1 K) y1 = Some y2 \<and> free1 val y2"
    using y m w m' by (simp_all add: methods1_def enter_leave1 sem1_defs free1_def)
qed

section \<open>Properties\<close>

text \<open>
  C6: Mutual exclusion of solution 1. For any number of threads (fewer than \<open>2^31\<close>) entering and
  leaving as readers and writers in any interleaving of their statements, a writer in its critical
  section is the only thread in one.
\<close>

theorem sync1_exclusion:
  assumes "kernel_semaphore K val" and "n < 2147483648"
    and "reach (rw_step (sol1 K)) (rw_start (sol1 K) (InitializeSyncSolution1 K) n) (s, ps)"
  shows "rw_excl (sol1 K) ps"
  using kernel_semaphore.inv1_excl [OF assms(1) kernel_semaphore.inv1_reach [OF assms]] .

theorem sync1_exclusion_witness:
  "\<exists>s. reach (rw_step (sol1 counting_sem)) (rw_start (sol1 counting_sem) (InitializeSyncSolution1 counting_sem) 2)
      (s, [InW1, ER1_down_Writer]) \<and> rw_excl (sol1 counting_sem) [InW1, ER1_down_Writer]"
proof -
  let ?P = "sol1 counting_sem" and ?s0 = "InitializeSyncSolution1 counting_sem"
  obtain s where r: "reach (rw_step ?P) (rw_start ?P ?s0 2) (s, [InW1, ER1_down_Writer])"
    using sync1_demo by blast
  show ?thesis
    using sync1_exclusion [OF counting.kernel_semaphore_axioms _ r] r by auto
qed

text \<open>
  C23: Solution 1 does not deadlock: in no reachable state are all threads that have called a method
  waiting while nobody is in a critical section.
\<close>

theorem sync1_no_deadlock:
  assumes "kernel_semaphore K val" and "n < 2147483648"
    and "reach (rw_step (sol1 K)) (rw_start (sol1 K) (InitializeSyncSolution1 K) n) (s, ps)"
  shows "\<not> rw_deadlock (sol1 K) (s, ps)"
  using kernel_semaphore.inv1_no_deadlock [OF assms(1) kernel_semaphore.inv1_reach [OF assms]] .

theorem sync1_no_deadlock_witness:
  "\<exists>s. reach (rw_step (sol1 counting_sem)) (rw_start (sol1 counting_sem) (InitializeSyncSolution1 counting_sem) 2)
      (s, [InW1, ER1_down_Writer]) \<and> \<not> rw_deadlock (sol1 counting_sem) (s, [InW1, ER1_down_Writer])"
proof -
  let ?P = "sol1 counting_sem" and ?s0 = "InitializeSyncSolution1 counting_sem"
  obtain s where r: "reach (rw_step ?P) (rw_start ?P ?s0 2) (s, [InW1, ER1_down_Writer])"
    using sync1_demo by blast
  show ?thesis
    using sync1_no_deadlock [OF counting.kernel_semaphore_axioms _ r] r by auto
qed

text \<open>
  The bookkeeping of solution 1 is exact. Whenever the mutex is free, \<open>ReaderCount\<close> is the number
  of readers between entering and the first statement of leaving, and when all threads are outside
  again, both semaphores and the counter are back at their initial values.
\<close>

lemma sync1_bookkeeping:
  assumes "kernel_semaphore K val" and "n < 2147483648"
    and "reach (rw_step (sol1 K)) (rw_start (sol1 K) (InitializeSyncSolution1 K) n) (s, ps)"
  shows "(val (SemaphoreMutex1 s) = 1 \<longrightarrow> unat (ReaderCount1 s) = occs ps [InR1, LR1_down_Mutex]) \<and>
    (ps = replicate n Idle1 \<longrightarrow>
      val (SemaphoreMutex1 s) = 1 \<and> ReaderCount1 s = 0 \<and> val (SemaphoreWriter1 s) = 1)"
proof -
  have inv: "inv1 val s ps"
    using kernel_semaphore.inv1_reach [OF assms] .
  have "role1 p = Inside \<longleftrightarrow> p \<in> set [InR1, LR1_down_Mutex]" for p
    by (cases p) auto
  then have "occ (map role1 ps) Inside = occs ps [InR1, LR1_down_Mutex]"
    by (rule occ_map_occs)
  then show ?thesis
    using inv ls_count ls_quiet by (fastforce simp: inv1_def)
qed

text \<open>
  The statement-by-statement model of solution 1 and its methods as functions agree: one thread
  that executes a method alone does exactly what the method says, and waits exactly when it does.
\<close>

lemma sync1_methods:
  "run_alone (sol1 K) (5 + k) EW1_down_Writer s = map_option (Pair InW1) (EnterCriticalSection_Writer1 K s) \<and>
   run_alone (sol1 K) (5 + k) LW1_up_Writer s = map_option (Pair Idle1) (LeaveCriticalSection_Writer1 K s) \<and>
   run_alone (sol1 K) (5 + k) ER1_down_Mutex s = map_option (Pair InR1) (EnterCriticalSection_Reader1 K s) \<and>
   run_alone (sol1 K) (5 + k) LR1_down_Mutex s = map_option (Pair Idle1) (LeaveCriticalSection_Reader1 K s)"
  by (auto simp: run_alone.simps EnterCriticalSection_Writer1_def LeaveCriticalSection_Writer1_def
      EnterCriticalSection_Reader1_def LeaveCriticalSection_Reader1_def
      numeral_eq_Suc split: option.splits)

interpretation alone1: alone_methods "sol1 K" "methods1 K" for K
  using sync1_methods by unfold_locales (auto simp: methods1_def)

text \<open>
  A round in which two readers take turns, from and to a state where one of them is in its critical
  section and a writer waits.
\<close>

definition overtake1 :: "rw_act list" where
  "overtake1 = [CallEnterR 2, Run 2, Run 2, Run 2, Run 2, CallLeaveR 1, Run 1, Run 1, Run 1, Run 1,
     CallEnterR 1, Run 1, Run 1, Run 1, Run 1, CallLeaveR 2, Run 2, Run 2, Run 2, Run 2]"

lemma overtake1_round:
  fixes s :: "nat sync1"
  assumes "s = \<lparr>SemaphoreMutex1 = 1, SemaphoreWriter1 = 0, ReaderCount1 = 1, PerformDelay1 = 3\<rparr>"
  shows "exec (rw_step (sol1 counting_sem)) overtake1 (s, [EW1_down_Writer, InR1, Idle1]) =
      Some (s, [EW1_down_Writer, InR1, Idle1])"
    and "kept_out (rw_step (sol1 counting_sem)) (Run 0) overtake1 (s, [EW1_down_Writer, InR1, Idle1])"
  by (simp_all add: assms overtake1_def jump_def sem1_defs counting_sem_def)

lemma overtake1_start:
  "exec (rw_step (sol1 counting_sem)) [CallEnterR 1, Run 1, Run 1, Run 1, Run 1, Run 1, CallEnterW 0]
     (rw_start (sol1 counting_sem) (InitializeSyncSolution1 counting_sem) 3) =
   Some (\<lparr>SemaphoreMutex1 = 1, SemaphoreWriter1 = 0, ReaderCount1 = 1, PerformDelay1 = 3\<rparr>,
     [EW1_down_Writer, InR1, Idle1])"
  by (simp add: rw_start_def jump_def sem1_defs InitializeSyncSolution1_def counting_sem_def numeral_3_eq_3)

text \<open>
  C36: Solution 1 prefers readers without bound: two readers that take turns keep a waiting writer
  waiting. There is a reachable state with a writer at its \<open>down\<close> from which, for every \<open>k\<close>, a run of
  \<open>k\<close> rounds of two complete reader visits each leads back to the same state and the writer can
  execute its \<open>down\<close> in no state of that run.
\<close>

theorem sync1_readers_overtake:
  "\<exists>s. reach (rw_step (sol1 counting_sem)) (rw_start (sol1 counting_sem) (InitializeSyncSolution1 counting_sem) 3)
      (s, [EW1_down_Writer, InR1, Idle1]) \<and>
    (\<forall>k. exec (rw_step (sol1 counting_sem)) (concat (replicate k overtake1)) (s, [EW1_down_Writer, InR1, Idle1]) =
        Some (s, [EW1_down_Writer, InR1, Idle1]) \<and>
      kept_out (rw_step (sol1 counting_sem)) (Run 0) (concat (replicate k overtake1)) (s, [EW1_down_Writer, InR1, Idle1]))"
  using exec_reach [OF overtake1_start] kept_out_rounds [OF overtake1_round [OF refl]] by blast

end
