(* ===== verification/Kboard_Module.thy ===== *)
theory Kboard_Module
  imports Ring_Buffer Bounded_Queue Sync1
begin

text \<open>
  The second kboard (\<open>lab2/KboardModule.c\<close>): the kernel module's ring buffer and the handlers behind
  the files \<open>/proc/kboard/{writer,reader,count,dump}\<close>, as one caller executes them. The globals are the
  record \<open>kboard\<close>, whose field \<open>Sync\<close> holds the variables of the selected synchronisation solution; the
  four methods of the solution are an argument, so that everything here holds for all three.
  A \<open>Show\<close> handler returns its \<open>int\<close> result, the text it prints into the \<open>seq_file\<close> and the new state.
  \<open>printk\<close> (kernel log) and \<open>mdelay\<close> (time) have no effect on the state and are left out.

  \<open>copy_from_user\<close>, \<open>sscanf\<close> and \<open>get_random_bytes\<close> are parameters. The array \<open>buffer\<close> of
  \<open>KboardWriter_Write\<close> is not initialised in C, so its bytes, and those that follow it on the stack, are
  parameters too (\<open>buffer0\<close> and \<open>beyond\<close>).
\<close>

section \<open>State and handlers\<close>

definition SYNC_SOLUTION :: cint where
  "SYNC_SOLUTION = 1"

definition RING_BUFFER_SIZE :: cint where
  "RING_BUFFER_SIZE = 5"

definition RING_BUFFER_INIT_VALUE :: cint where
  "RING_BUFFER_INIT_VALUE = - 1"

definition WRITER_BUFFER_SIZE :: nat where
  "WRITER_BUFFER_SIZE = 20"

definition EPERM :: "'a::len word" where "EPERM = 1"
definition E2BIG :: "'a::len word" where "E2BIG = 7"
definition EFAULT :: "'a::len word" where "EFAULT = 14"
definition EINVAL :: "'a::len word" where "EINVAL = 22"

record 'y kboard =
  Sync :: 'y
  RingBuffer :: "cint list"
  RingBufferCount :: cint
  RingBufferCurrentIndex :: cint
  PerformWriter :: cint
  PerformReader :: cint

definition InitializeKboard :: "'y kboard \<Rightarrow> 'y kboard result" where
  "InitializeKboard s =
     rbind (fill_loop RING_BUFFER_SIZE RING_BUFFER_INIT_VALUE (RingBuffer s) 0) (\<lambda>r.
       let s = s\<lparr>RingBuffer := r\<rparr>;
           s = s\<lparr>RingBufferCount := 0\<rparr>;
           s = s\<lparr>RingBufferCurrentIndex := 0\<rparr>;
           s = s\<lparr>PerformWriter := 0\<rparr>;
           s = s\<lparr>PerformReader := 0\<rparr>
       in Inr s)"

definition cs_run :: "('y \<Rightarrow> 'y option) \<Rightarrow> 'y kboard \<Rightarrow> 'y kboard result" where
  "cs_run f s = (case f (Sync s) of None \<Rightarrow> Inl Blocked | Some y \<Rightarrow> Inr (s\<lparr>Sync := y\<rparr>))"

definition KboardWriter_Show :: "'y cs_methods \<Rightarrow> 'y kboard \<Rightarrow> (cint \<times> string \<times> 'y kboard) result" where
  "KboardWriter_Show M s =
     rbind (cs_run (enter_writer M) s) (\<lambda>s.
       let s = s\<lparr>PerformWriter := PerformWriter s + 1\<rparr> in
       if RingBufferCount s <=s 0 then
         rbind (cs_run (leave_writer M) s) (\<lambda>s. Inr (- EPERM, [], s))
       else
         rbind (arr_get (RingBuffer s) (RingBufferCurrentIndex s)) (\<lambda>item.
         rbind (arr_set (RingBuffer s) (RingBufferCurrentIndex s) RING_BUFFER_INIT_VALUE) (\<lambda>r.
           let s = s\<lparr>RingBuffer := r\<rparr>;
               s = s\<lparr>RingBufferCount := RingBufferCount s - 1\<rparr>;
               s = s\<lparr>RingBufferCurrentIndex := c_mod (RingBufferCurrentIndex s + 1) RING_BUFFER_SIZE\<rparr> in
           rbind (cs_run (leave_writer M) s) (\<lambda>s.
             Inr (0, ''Paste: '' @ quoted (fmt_d item) @ newline, s)))))"

text \<open>The C string that starts at the first byte of some memory.\<close>

definition c_string :: "string \<Rightarrow> string" where
  "c_string mem = takeWhile (\<lambda>c. c \<noteq> CHR 0x00) mem"

definition KboardWriter_Write ::
    "'y cs_methods \<Rightarrow> 'm copy_in \<Rightarrow> (string \<Rightarrow> cint option) \<Rightarrow> string \<Rightarrow> string \<Rightarrow>
     'm \<Rightarrow> uaddr \<Rightarrow> clong \<Rightarrow> 'y kboard \<Rightarrow> (clong \<times> 'y kboard) result" where
  "KboardWriter_Write M cfu sscanf_d buffer0 beyond mem data length0 s =
     (if of_nat WRITER_BUFFER_SIZE < length0 then Inr (- E2BIG, s)
      else case cfu mem data (unat length0) buffer0 of (uncopied, buffer) \<Rightarrow>
        if uncopied \<noteq> 0 then Inr (- EFAULT, s)
        else case sscanf_d (c_string (buffer @ beyond)) of
          None \<Rightarrow> Inr (- EINVAL, s)
        | Some item \<Rightarrow>
          if item <s 0 then Inr (- EINVAL, s)
          else
            rbind (cs_run (enter_writer M) s) (\<lambda>s.
              let s = s\<lparr>PerformWriter := PerformWriter s + 1\<rparr> in
              if RING_BUFFER_SIZE <=s RingBufferCount s then
                rbind (cs_run (leave_writer M) s) (\<lambda>s. Inr (- EPERM, s))
              else
                rbind (arr_set (RingBuffer s)
                    (c_mod (RingBufferCurrentIndex s + RingBufferCount s) RING_BUFFER_SIZE) item) (\<lambda>r.
                  let s = s\<lparr>RingBuffer := r\<rparr>;
                      s = s\<lparr>RingBufferCount := RingBufferCount s + 1\<rparr> in
                  rbind (cs_run (leave_writer M) s) (\<lambda>s. Inr (length0, s)))))"

definition KboardReader_Show :: "'y cs_methods \<Rightarrow> cint \<Rightarrow> 'y kboard \<Rightarrow> (cint \<times> string \<times> 'y kboard) result" where
  "KboardReader_Show M random_bytes s =
     (let randomIndex = random_bytes mod RING_BUFFER_SIZE in
      rbind (cs_run (enter_reader M) s) (\<lambda>s.
        let s = s\<lparr>PerformReader := PerformReader s + 1\<rparr> in
        rbind (arr_get (RingBuffer s) randomIndex) (\<lambda>item.
        rbind (cs_run (leave_reader M) s) (\<lambda>s.
          Inr (0, ''Read random value from Kboard: index: '' @ quoted (fmt_d randomIndex) @
            '', value: '' @ quoted (fmt_d item) @ newline, s)))))"

definition KboardCounter_Show :: "'y kboard \<Rightarrow> (cint \<times> string \<times> 'y kboard) result" where
  "KboardCounter_Show s = Inr (0, ''Kboard Count: '' @ quoted (fmt_d (RingBufferCount s)) @ newline, s)"

text \<open>The loop of the dump over the slots, from a given index on.\<close>

function dump_loop :: "cint list \<Rightarrow> cint \<Rightarrow> string result" where
  "dump_loop r index =
     (if index <s RING_BUFFER_SIZE then
        rbind (arr_get r index) (\<lambda>v.
        rbind (dump_loop r (index + 1)) (\<lambda>rest.
          Inr (''index: '' @ quoted (fmt_d index) @ '', value: '' @ quoted (fmt_d v) @ newline @ rest)))
      else Inr [])"
  by pat_completeness auto
termination
  by (relation "measure (\<lambda>(r, index). nat (sint RING_BUFFER_SIZE - sint index))") (auto dest: loop_bound)
declare dump_loop.simps [simp del]

definition KboardDumper_Show :: "'y kboard \<Rightarrow> (cint \<times> string \<times> 'y kboard) result" where
  "KboardDumper_Show s =
     rbind (dump_loop (RingBuffer s) 0) (\<lambda>slots.
       Inr (0,
         ''====== Kboard Status ======'' @ newline @
         ''[RingBuffer]'' @ newline @
         slots @
         ''[Count: '' @ quoted (fmt_d (RingBufferCount s)) @ '']'' @ newline @
         ''[CurrentIndex: '' @ quoted (fmt_d (RingBufferCurrentIndex s)) @ '']'' @ newline @
         ''[Writer: '' @ quoted (fmt_d (PerformWriter s)) @ '' times, Reader: '' @
           quoted (fmt_d (PerformReader s)) @ '' times]'' @ newline @
         ''[Synchronization Solution: '' @ quoted (fmt_d SYNC_SOLUTION) @ '']'' @ newline @
         ''==========================='' @ newline, s))"

section \<open>Abstraction and invariant\<close>

definition km_contents :: "'y kboard \<Rightarrow> cint list" where
  "km_contents s = ring_contents (RingBuffer s) (RingBufferCurrentIndex s) (RingBufferCount s)"

text \<open>
  Indices in range, queued items not negative, every other slot \<open>RING_BUFFER_INIT_VALUE\<close>: what
  \<open>InitializeKboard\<close> establishes and every handler keeps.
\<close>

definition km_wf :: "'y kboard \<Rightarrow> bool" where
  "km_wf s \<longleftrightarrow> ring_inv 5 (RingBuffer s) (RingBufferCurrentIndex s) (RingBufferCount s) \<and>
     list_all (\<lambda>x. \<not> x <s 0) (km_contents s) \<and>
     list_all (\<lambda>x. x = RING_BUFFER_INIT_VALUE) (ring_free (RingBuffer s) (RingBufferCurrentIndex s) (RingBufferCount s))"

definition km_pushed :: "'y kboard \<Rightarrow> cint \<Rightarrow> 'y kboard" where
  "km_pushed s x = s\<lparr>RingBuffer := (RingBuffer s)[(unat (RingBufferCurrentIndex s) + unat (RingBufferCount s)) mod 5 := x],
     RingBufferCount := RingBufferCount s + 1\<rparr>"

definition km_popped :: "'y kboard \<Rightarrow> 'y kboard" where
  "km_popped s = s\<lparr>RingBuffer := (RingBuffer s)[unat (RingBufferCurrentIndex s) := RING_BUFFER_INIT_VALUE],
     RingBufferCount := RingBufferCount s - 1,
     RingBufferCurrentIndex := c_mod (RingBufferCurrentIndex s + 1) RING_BUFFER_SIZE\<rparr>"

lemma unat_RING_BUFFER_SIZE [simp]: "unat RING_BUFFER_SIZE = 5"
  by (simp add: RING_BUFFER_SIZE_def)

lemma km_length_contents: "length (km_contents s) = unat (RingBufferCount s)"
  by (simp add: km_contents_def)

text \<open>The ring does not depend on the fields that synchronise and count.\<close>

lemma km_frame [simp]:
  "km_wf (s\<lparr>Sync := y\<rparr>) = km_wf s" "km_contents (s\<lparr>Sync := y\<rparr>) = km_contents s"
  "km_wf (s\<lparr>PerformWriter := n\<rparr>) = km_wf s" "km_contents (s\<lparr>PerformWriter := n\<rparr>) = km_contents s"
  "km_wf (s\<lparr>PerformReader := n\<rparr>) = km_wf s" "km_contents (s\<lparr>PerformReader := n\<rparr>) = km_contents s"
  by (simp_all add: km_wf_def km_contents_def)

lemma km_full_iff: "km_wf s \<Longrightarrow> (RING_BUFFER_SIZE <=s RingBufferCount s) = (length (km_contents s) = 5)"
  by (auto simp: km_wf_def ring_inv_def km_length_contents cint_simps)

lemma km_empty_iff: "km_wf s \<Longrightarrow> (RingBufferCount s <=s 0) = (km_contents s = [])"
  by (auto simp: km_wf_def ring_inv_def cint_simps km_contents_def ring_contents_def rslice_def)

lemma km_bound: "km_wf s \<Longrightarrow> length (km_contents s) \<le> 5"
  by (simp add: km_wf_def ring_inv_def km_length_contents)

lemma km_push:
  assumes wf: "km_wf s" and room: "length (km_contents s) < 5" and ok: "\<not> x <s 0"
  shows "arr_set (RingBuffer s) (c_mod (RingBufferCurrentIndex s + RingBufferCount s) RING_BUFFER_SIZE) x =
      Inr (RingBuffer (km_pushed s x))"
    and "km_wf (km_pushed s x)"
    and "km_contents (km_pushed s x) = km_contents s @ [x]"
proof -
  have inv: "ring_inv 5 (RingBuffer s) (RingBufferCurrentIndex s) (RingBufferCount s)" and lt: "unat (RingBufferCount s) < 5"
    using wf room by (simp_all add: km_wf_def km_length_contents)
  note push = ring_push [OF inv unat_RING_BUFFER_SIZE lt, of x]
  show "arr_set (RingBuffer s) (c_mod (RingBufferCurrentIndex s + RingBufferCount s) RING_BUFFER_SIZE) x =
      Inr (RingBuffer (km_pushed s x))"
    using push(1) by (simp add: km_pushed_def)
  show contents: "km_contents (km_pushed s x) = km_contents s @ [x]"
    using push(3) by (simp add: km_contents_def km_pushed_def)
  show "km_wf (km_pushed s x)"
    using push(2,4) wf ok unfolding km_wf_def contents by (simp add: km_pushed_def list_all_tl)
qed

lemma km_pop:
  assumes wf: "km_wf s" and some: "km_contents s \<noteq> []"
  shows "arr_get (RingBuffer s) (RingBufferCurrentIndex s) = Inr (hd (km_contents s))"
    and "arr_set (RingBuffer s) (RingBufferCurrentIndex s) RING_BUFFER_INIT_VALUE = Inr (RingBuffer (km_popped s))"
    and "km_wf (km_popped s)"
    and "km_contents (km_popped s) = tl (km_contents s)"
proof -
  have inv: "ring_inv 5 (RingBuffer s) (RingBufferCurrentIndex s) (RingBufferCount s)" and pos: "0 < unat (RingBufferCount s)"
    using wf some km_length_contents [of s] by (auto simp: km_wf_def intro: Nat.gr0I)
  note pop = ring_pop(1) [OF inv unat_RING_BUFFER_SIZE pos]
    ring_pop(2-) [OF inv unat_RING_BUFFER_SIZE pos, of RING_BUFFER_INIT_VALUE]
  have contents: "km_contents s = RingBuffer s ! unat (RingBufferCurrentIndex s) # km_contents (km_popped s)"
    using pop(4) by (simp add: km_contents_def km_popped_def)
  then show "arr_get (RingBuffer s) (RingBufferCurrentIndex s) = Inr (hd (km_contents s))"
    using pop(1) by simp
  show "arr_set (RingBuffer s) (RingBufferCurrentIndex s) RING_BUFFER_INIT_VALUE = Inr (RingBuffer (km_popped s))"
    using pop(2) by (simp add: km_popped_def)
  show "km_contents (km_popped s) = tl (km_contents s)"
    using contents by simp
  show "km_wf (km_popped s)"
    using pop(3,5) wf contents unfolding km_wf_def by (simp add: km_popped_def)
qed

lemma km_init:
  assumes "length (RingBuffer s) = 5"
  shows "InitializeKboard s = Inr \<lparr>Sync = Sync s, RingBuffer = replicate 5 RING_BUFFER_INIT_VALUE, RingBufferCount = 0,
    RingBufferCurrentIndex = 0, PerformWriter = 0, PerformReader = 0\<rparr>"
  using fill_loop_all [of RING_BUFFER_SIZE "RingBuffer s" 0 RING_BUFFER_INIT_VALUE] assms
  by (simp add: InitializeKboard_def Let_def)

lemma km_initial:
  "km_wf \<lparr>Sync = y, RingBuffer = replicate 5 RING_BUFFER_INIT_VALUE, RingBufferCount = 0,
    RingBufferCurrentIndex = 0, PerformWriter = a, PerformReader = b\<rparr>"
  "km_contents \<lparr>Sync = y, RingBuffer = replicate 5 RING_BUFFER_INIT_VALUE, RingBufferCount = 0,
    RingBufferCurrentIndex = 0, PerformWriter = a, PerformReader = b\<rparr> = []"
  by (simp_all add: km_wf_def km_contents_def ring_inv_def ring_contents_def ring_free_def rslice_def list_all_iff)

text \<open>Every slot holds a queued item or the initial value.\<close>

lemma km_slot:
  assumes "km_wf s" and "i < 5"
  shows "RingBuffer s ! i \<in> set (km_contents s) \<or> RingBuffer s ! i = - 1"
proof -
  have ring: "ring_inv 5 (RingBuffer s) (RingBufferCurrentIndex s) (RingBufferCount s)"
    and free: "list_all (\<lambda>x. x = - 1) (ring_free (RingBuffer s) (RingBufferCurrentIndex s) (RingBufferCount s))"
    using assms by (simp_all add: km_wf_def RING_BUFFER_INIT_VALUE_def)
  have "RingBuffer s ! i \<in> set (rotate (unat (RingBufferCurrentIndex s)) (RingBuffer s))"
    using ring assms(2) by (simp add: ring_inv_def)
  then show ?thesis
    using ring_rotate [OF ring, symmetric] free by (auto simp: km_contents_def list_all_iff)
qed

section \<open>The handlers of a caller that meets nobody\<close>

text \<open>The data part of the two writing handlers, between entering and leaving.\<close>

definition km_deq :: "'y kboard \<Rightarrow> 'y kboard" where
  "km_deq s = (if km_contents s = [] then s else km_popped s)\<lparr>PerformWriter := PerformWriter s + 1\<rparr>"

definition km_enq :: "cint \<Rightarrow> 'y kboard \<Rightarrow> 'y kboard" where
  "km_enq x s = (if length (km_contents s) < 5 then km_pushed s x else s)\<lparr>PerformWriter := PerformWriter s + 1\<rparr>"

lemma km_deq_ring:
  assumes "km_wf s"
  shows "km_wf (km_deq s)" "km_contents (km_deq s) = tl (km_contents s)"
  using assms km_pop [OF assms] by (simp_all add: km_deq_def)

lemma km_enq_ring:
  assumes "km_wf s" and "\<not> x <s 0"
  shows "km_wf (km_enq x s)" "km_contents (km_enq x s) = (if length (km_contents s) < 5 then km_contents s @ [x] else km_contents s)"
  using assms km_push [OF assms(1) _ assms(2)] by (simp_all add: km_enq_def)

lemma km_enq_sync [simp]: "Sync (km_enq x s) = Sync s" "Sync (km_deq s) = Sync s"
  "PerformWriter (km_enq x s) = PerformWriter s + 1" "PerformWriter (km_deq s) = PerformWriter s + 1"
  "PerformReader (km_enq x s) = PerformReader s" "PerformReader (km_deq s) = PerformReader s"
  by (simp_all add: km_enq_def km_deq_def km_pushed_def km_popped_def)

context cs_contract
begin

lemma writer_cs:
  assumes "free (Sync s)"
  obtains y1 y2 where "cs_run (enter_writer M) s = Inr (s\<lparr>Sync := y1\<rparr>)"
    and "\<forall>r. Sync r = y1 \<longrightarrow> cs_run (leave_writer M) r = Inr (r\<lparr>Sync := y2\<rparr>)" and "free y2"
proof -
  obtain y1 y2 where "enter_writer M (Sync s) = Some y1" "leave_writer M y1 = Some y2" "free y2"
    using writer_visit [OF assms] by blast
  then show thesis
    by (intro that [of y1 y2]) (simp_all add: cs_run_def)
qed

lemma reader_cs:
  assumes "free (Sync s)"
  obtains y1 y2 where "cs_run (enter_reader M) s = Inr (s\<lparr>Sync := y1\<rparr>)"
    and "\<forall>r. Sync r = y1 \<longrightarrow> cs_run (leave_reader M) r = Inr (r\<lparr>Sync := y2\<rparr>)" and "free y2"
proof -
  obtain y1 y2 where "enter_reader M (Sync s) = Some y1" "leave_reader M y1 = Some y2" "free y2"
    using reader_visit [OF assms] by blast
  then show thesis
    by (intro that [of y1 y2]) (simp_all add: cs_run_def)
qed

lemma writer_show:
  assumes wf: "km_wf s" and "free (Sync s)"
  shows "\<exists>y. free y \<and> KboardWriter_Show M s =
    Inr (if km_contents s = [] then (- EPERM, [], (km_deq s)\<lparr>Sync := y\<rparr>)
      else (0, ''Paste: '' @ quoted (fmt_d (hd (km_contents s))) @ newline, (km_deq s)\<lparr>Sync := y\<rparr>))"
proof -
  obtain y1 y2 where cs: "cs_run (enter_writer M) s = Inr (s\<lparr>Sync := y1\<rparr>)"
    "\<forall>r. Sync r = y1 \<longrightarrow> cs_run (leave_writer M) r = Inr (r\<lparr>Sync := y2\<rparr>)" "free y2"
    using writer_cs [OF assms(2)] by blast
  show ?thesis
    using cs km_empty_iff [OF wf] km_pop(1,2) [OF wf]
    by (auto simp: KboardWriter_Show_def Let_def km_deq_def km_popped_def intro!: exI [of _ y2])
qed

lemma writer_write:
  assumes wf: "km_wf s" and "free (Sync s)" and len: "length0 \<le> of_nat WRITER_BUFFER_SIZE"
    and copy: "cfu mem data (unat length0) buffer0 = (0, buffer)"
    and scan: "sscanf_d (c_string (buffer @ beyond)) = Some x" and x: "\<not> x <s 0"
  shows "\<exists>y. free y \<and> KboardWriter_Write M cfu sscanf_d buffer0 beyond mem data length0 s =
    Inr (if length (km_contents s) < 5 then length0 else - EPERM, (km_enq x s)\<lparr>Sync := y\<rparr>)"
proof -
  obtain y1 y2 where cs: "cs_run (enter_writer M) s = Inr (s\<lparr>Sync := y1\<rparr>)"
    "\<forall>r. Sync r = y1 \<longrightarrow> cs_run (leave_writer M) r = Inr (r\<lparr>Sync := y2\<rparr>)" "free y2"
    using writer_cs [OF assms(2)] by blast
  have full: "(RING_BUFFER_SIZE <=s RingBufferCount s) = (\<not> length (km_contents s) < 5)"
    using km_full_iff [OF wf] km_bound [OF wf] by auto
  show ?thesis
    using cs full km_push(1) [OF wf _ x] len copy scan x
    by (auto simp: KboardWriter_Write_def Let_def km_enq_def km_pushed_def intro!: exI [of _ y2])
qed

lemma reader_show:
  assumes wf: "km_wf s" and "free (Sync s)"
  shows "\<exists>y. free y \<and> KboardReader_Show M rnd s =
    Inr (0, ''Read random value from Kboard: index: '' @ quoted (fmt_d (rnd mod 5)) @ '', value: '' @
      quoted (fmt_d (RingBuffer s ! (unat rnd mod 5))) @ newline, s\<lparr>PerformReader := PerformReader s + 1, Sync := y\<rparr>)"
proof -
  obtain y1 y2 where cs: "cs_run (enter_reader M) s = Inr (s\<lparr>Sync := y1\<rparr>)"
    "\<forall>r. Sync r = y1 \<longrightarrow> cs_run (leave_reader M) r = Inr (r\<lparr>Sync := y2\<rparr>)" "free y2"
    using reader_cs [OF assms(2)] by blast
  have "unat (rnd mod RING_BUFFER_SIZE) = unat rnd mod 5" and "length (RingBuffer s) = 5"
    using wf by (simp_all add: unat_mod_distrib km_wf_def ring_inv_def)
  then have "arr_get (RingBuffer s) (rnd mod RING_BUFFER_SIZE) = Inr (RingBuffer s ! (unat rnd mod 5))"
    by (simp add: arr_get_small)
  then show ?thesis
    using cs by (auto simp: KboardReader_Show_def Let_def RING_BUFFER_SIZE_def intro!: exI [of _ y2])
qed

end

text \<open>The dump, slot by slot.\<close>

definition dump_line :: "nat \<Rightarrow> cint \<Rightarrow> string" where
  "dump_line i v = ''index: '' @ quoted (show_nat i) @ '', value: '' @ quoted (fmt_d v) @ newline"

lemma dump_loop_all:
  assumes "length r = 5" and "unat index \<le> 5"
  shows "dump_loop r index = Inr (concat (map (\<lambda>i. dump_line i (r ! i)) [unat index..<5]))"
  using assms
proof (induction r index rule: dump_loop.induct)
  case (1 r index)
  show ?case
  proof (cases "unat index < 5")
    case True
    then have lt: "index <s RING_BUFFER_SIZE" and "\<not> index <s 0" and nxt: "unat (index + 1) = Suc (unat index)"
      by (simp_all add: sless_small nonneg_iff_small unat_add_small)
    moreover have "dump_loop r (index + 1) = Inr (concat (map (\<lambda>i. dump_line i (r ! i)) [Suc (unat index)..<5]))"
      using 1 lt True nxt by simp
    moreover have "[unat index..<5] = unat index # [Suc (unat index)..<5]"
      using True by (rule upt_conv_Cons)
    ultimately show ?thesis
      using "1.prems" True
      by (simp add: dump_loop.simps [of r index] arr_get_small dump_line_def fmt_d_nonneg)
  next
    case False
    then have "\<not> index <s RING_BUFFER_SIZE"
      using "1.prems" by (simp add: sless_small)
    then show ?thesis
      using False by (simp add: dump_loop.simps [of r index])
  qed
qed

section \<open>Lines of text\<close>

text \<open>What a user writes to enqueue a number: its digits and the end of the line.\<close>

definition item_line :: "cint \<Rightarrow> string" where
  "item_line v = fmt_d v @ newline"

lemma show_nat_length: "n < 10 ^ k \<Longrightarrow> 0 < k \<Longrightarrow> length (show_nat n) \<le> k"
proof (induction k arbitrary: n)
  case (Suc k)
  show ?case
  proof (cases "n < 10")
    case False
    then have "n div 10 < 10 ^ k" and "0 < k"
      using Suc.prems(1) by (auto intro: Nat.gr0I)
    with Suc.IH show ?thesis
      using False by (simp add: show_nat.simps [of n])
  qed (simp add: show_nat.simps [of n])
qed simp

lemma item_line_length: "\<not> v <s 0 \<Longrightarrow> length (item_line v) \<le> 11"
  using show_nat_length [of "unat v" 10]
  by (simp add: item_line_def fmt_d_nonneg newline_def nonneg_iff_small)

lemma c_string_line: "\<not> v <s 0 \<Longrightarrow> \<exists>rest. c_string (item_line v @ mem) = fmt_d v @ newline @ rest"
proof -
  assume v: "\<not> v <s 0"
  have "list_all is_digit (fmt_d v)"
    using show_nat_digits [of "unat v"] v by (simp add: fmt_d_nonneg)
  then have "\<forall>c \<in> set (fmt_d v). c \<noteq> CHR 0x00"
    by (auto simp: list_all_iff is_digit_def)
  then show ?thesis
    by (simp add: c_string_def item_line_def newline_def takeWhile_append)
qed

context decimal_scan
begin

lemma scan_line: "\<not> v <s 0 \<Longrightarrow> scan (c_string (item_line v @ mem)) = Some v"
  using c_string_line [of v mem] scan_number [of v "newline @ _"]
  by (auto simp: newline_def is_digit_def)

lemma scan_paste: "\<not> v <s 0 \<Longrightarrow> scan (drop 8 (''Paste: '' @ quoted (fmt_d v) @ newline)) = Some v"
  using scan_number [of v "CHR 0x27 # newline"] by (simp add: quoted_def is_digit_def)

end

section \<open>The files as a queue\<close>

text \<open>
  A user who enqueues by writing one line to \<open>writer\<close> and dequeues by reading it, with the text of a
  write placed in its memory by \<open>put\<close> at address \<open>a\<close>, and who reads the number off the line printed.
\<close>

fun km_op :: "'y cs_methods \<Rightarrow> 'm copy_in \<Rightarrow> (string \<Rightarrow> cint option) \<Rightarrow> string \<Rightarrow> string \<Rightarrow> (string \<Rightarrow> 'm) \<Rightarrow> uaddr \<Rightarrow>
    cint qop \<Rightarrow> 'y kboard \<Rightarrow> cint qres \<times> 'y kboard" where
  "km_op M cfu scan buffer0 beyond put a (Enq x) s =
     (case KboardWriter_Write M cfu scan buffer0 beyond (put (item_line x)) a (of_nat (length (item_line x))) s of
        Inl _ \<Rightarrow> (Faulted, s)
      | Inr (ret, s') \<Rightarrow> (if ret = of_nat (length (item_line x)) then Accepted else Rejected, s'))"
| "km_op M cfu scan buffer0 beyond put a Deq s =
     (case KboardWriter_Show M s of
        Inl _ \<Rightarrow> (Faulted, s)
      | Inr (ret, out, s') \<Rightarrow> (if ret = 0 then Got (the (scan (drop 8 out))) else Nothing, s'))"

text \<open>\<open>put\<close> makes its text readable for the kernel at address \<open>a\<close>.\<close>

locale km_env = cs_contract M free + user_text cfu bytes + decimal_scan scan
  for M :: "'y cs_methods" and free and cfu :: "'m copy_in" and bytes and scan +
  fixes put :: "string \<Rightarrow> 'm" and a :: uaddr
  assumes put: "fst (cfu (put txt) a (length txt) buf) = 0" "bytes (put txt) a (length txt) = txt"
begin

lemma line_word: "\<not> x <s 0 \<Longrightarrow> unat (of_nat (length (item_line x)) :: clong) = length (item_line x)"
  using item_line_length [of x] by (simp add: unat_of_nat)

lemma write_line:
  assumes "km_wf s" and "free (Sync s)" and x: "\<not> x <s 0" and buf: "length buffer0 = WRITER_BUFFER_SIZE"
  shows "\<exists>y. free y \<and> KboardWriter_Write M cfu scan buffer0 beyond (put (item_line x)) a (of_nat (length (item_line x))) s =
    Inr (if length (km_contents s) < 5 then of_nat (length (item_line x)) else - EPERM, (km_enq x s)\<lparr>Sync := y\<rparr>)"
proof -
  let ?n = "length (item_line x)"
  have n: "?n \<le> 11" using item_line_length [OF x] .
  obtain buffer where c: "cfu (put (item_line x)) a ?n buffer0 = (0, buffer)"
    using put(1) by (metis prod.collapse)
  then have "buffer = item_line x @ drop ?n buffer0"
    using copied_in [OF _ c] n buf put(2) by (simp add: WRITER_BUFFER_SIZE_def)
  then have "scan (c_string (buffer @ beyond)) = Some x"
    using scan_line [OF x] by simp
  moreover have "(of_nat ?n :: clong) \<le> of_nat WRITER_BUFFER_SIZE"
    using n line_word [OF x] by (simp add: WRITER_BUFFER_SIZE_def word_le_nat_alt)
  ultimately show ?thesis
    using writer_write [OF assms(1,2), of _ cfu "put (item_line x)" a buffer0 buffer scan beyond x] c line_word [OF x] x
    by simp
qed

lemma km_op_refines:
  assumes wf: "km_wf s" and f: "free (Sync s)" and ok: "\<forall>y \<in> set (enq_items [x]). \<not> y <s 0"
    and buf: "length buffer0 = WRITER_BUFFER_SIZE"
  shows "\<exists>r s'. km_op M cfu scan buffer0 beyond put a x s = (r, s') \<and> km_wf s' \<and> free (Sync s') \<and>
    bq_step 5 x (km_contents s) = (r, km_contents s')"
proof (cases x)
  case (Enq y)
  then have y: "\<not> y <s 0" using ok by simp
  have n: "length (item_line y) \<le> 11" using item_line_length [OF y] .
  have "(- EPERM :: clong) \<noteq> of_nat (length (item_line y))"
  proof
    assume "(- EPERM :: clong) = of_nat (length (item_line y))"
    then have "unat (- EPERM :: clong) = length (item_line y)" using line_word [OF y] by simp
    with n show False by (simp add: EPERM_def unsigned_minus_1_eq_mask mask_eq_exp_minus_1)
  qed
  with Enq write_line [OF wf f y buf, of beyond] km_enq_ring [OF wf y] show ?thesis
    by auto
next
  case Deq
  have "(- EPERM :: cint) \<noteq> 0" by (simp add: EPERM_def)
  moreover have "km_contents s \<noteq> [] \<Longrightarrow> \<not> hd (km_contents s) <s 0"
    using wf by (cases "km_contents s") (auto simp: km_wf_def)
  ultimately show ?thesis
    using Deq writer_show [OF wf f] km_deq_ring [OF wf] scan_paste by (cases "km_contents s") auto
qed

end

locale km_stack = km_env M free cfu bytes scan put a
  for M :: "'y cs_methods" and free and cfu :: "'m copy_in" and bytes scan put a +
  fixes buffer0 beyond :: string
  assumes buffer0_length: "length buffer0 = WRITER_BUFFER_SIZE"

sublocale km_stack \<subseteq> kmq: bounded_queue 5 "km_op M cfu scan buffer0 beyond put a" km_contents
  "\<lambda>s. km_wf s \<and> free (Sync s)" "\<lambda>x. \<not> x <s 0"
proof (unfold_locales, goal_cases)
  case (1 s x)
  then show ?case using km_op_refines [of s x buffer0 beyond] buffer0_length by auto
next
  case (2 s x)
  then show ?case using km_op_refines [of s x buffer0 beyond] buffer0_length by auto
next
  case (3 s)
  then show ?case by (simp add: km_bound)
qed

context km_stack
begin

lemma km_run:
  assumes "km_wf s" and "free (Sync s)" and "\<forall>x \<in> set (enq_items ops). \<not> x <s 0"
    and "run_ops (km_op M cfu scan buffer0 beyond put a) ops s = (rs, s')"
  shows "run_ops (bq_step 5) ops (km_contents s) = (rs, km_contents s')"
    and "km_contents s @ accepted ops rs = received rs @ km_contents s'" and "km_wf s'"
  using kmq.run_refines [OF _ assms(3,4)] kmq.run_fifo [OF _ assms(3,4)] assms(1,2) by simp_all

end

text \<open>The instance of the examples: solution 1 with counting semaphores, user memory and scanner as above.\<close>

interpretation text_km: km_env "methods1 counting_sem" "free1 (\<lambda>n. n)" text_copy_in text_bytes scan_dec "\<lambda>txt. txt" 0
  by unfold_locales (simp_all add: text_copy_in_def text_bytes_def)

interpretation text_km_stack: km_stack "methods1 counting_sem" "free1 (\<lambda>n. n)" text_copy_in text_bytes scan_dec
  "\<lambda>txt. txt" 0 "replicate 20 (CHR ''7'')" "''7''"
  by unfold_locales (simp add: WRITER_BUFFER_SIZE_def)

definition km_fresh :: "nat sync1 kboard" where
  "km_fresh = \<lparr>Sync = InitializeSyncSolution1 counting_sem, RingBuffer = replicate 5 RING_BUFFER_INIT_VALUE,
     RingBufferCount = 0, RingBufferCurrentIndex = 0, PerformWriter = 0, PerformReader = 0\<rparr>"

lemma km_fresh: "km_wf km_fresh" "km_contents km_fresh = []" "free1 (\<lambda>n. n) (Sync km_fresh)"
  using km_initial counting.init_free1 by (simp_all add: km_fresh_def)

section \<open>Properties\<close>

text \<open>
  C27: \<open>KboardWriter_Write\<close>, completely: a write of more than 20 bytes is \<open>-E2BIG\<close>, an unreadable one
  \<open>-EFAULT\<close>, one whose C string holds no number or a negative one \<open>-EINVAL\<close>, all three without a change of
  state; otherwise the item goes to the end of the queue and the length is returned, or, with five
  items queued, \<open>-EPERM\<close> is returned and the queue stays; both of these count as performed. No index
  leaves the ring, and the solution's variables are free again.
\<close>

theorem kboard_write_correct:
  assumes "cs_contract M free" and "km_wf s" and "free (Sync s)"
  shows "\<exists>ret s'. KboardWriter_Write M cfu sscanf_d buffer0 beyond mem data length0 s = Inr (ret, s') \<and>
    km_wf s' \<and> free (Sync s') \<and>
    (if 20 < unat length0 then ret = - E2BIG \<and> s' = s
     else case cfu mem data (unat length0) buffer0 of (uncopied, buffer) \<Rightarrow>
       if uncopied \<noteq> 0 then ret = - EFAULT \<and> s' = s
       else case sscanf_d (c_string (buffer @ beyond)) of
         None \<Rightarrow> ret = - EINVAL \<and> s' = s
       | Some item \<Rightarrow>
         if item <s 0 then ret = - EINVAL \<and> s' = s
         else PerformWriter s' = PerformWriter s + 1 \<and> PerformReader s' = PerformReader s \<and>
           (if length (km_contents s) < 5 then ret = length0 \<and> km_contents s' = km_contents s @ [item]
            else ret = - EPERM \<and> km_contents s' = km_contents s))"
proof -
  let ?call = "KboardWriter_Write M cfu sscanf_d buffer0 beyond mem data length0 s"
  have long: "(of_nat WRITER_BUFFER_SIZE < length0) = (20 < unat length0)"
    by (simp add: WRITER_BUFFER_SIZE_def word_less_nat_alt)
  obtain k buffer where copy: "cfu mem data (unat length0) buffer0 = (k, buffer)"
    by (cases "cfu mem data (unat length0) buffer0")
  consider "20 < unat length0" | "\<not> 20 < unat length0" "k \<noteq> 0"
    | "\<not> 20 < unat length0" "k = 0" "sscanf_d (c_string (buffer @ beyond)) = None"
    | x where "\<not> 20 < unat length0" "k = 0" "sscanf_d (c_string (buffer @ beyond)) = Some x"
    by (cases "sscanf_d (c_string (buffer @ beyond))") auto
  then show ?thesis
  proof cases
    case (4 x)
    show ?thesis
    proof (cases "x <s 0")
      case True
      then show ?thesis
        using assms 4 copy long by (simp add: KboardWriter_Write_def)
    next
      case False
      have "length0 \<le> of_nat WRITER_BUFFER_SIZE"
        using 4(1) long by (simp add: not_less)
      from cs_contract.writer_write [where cfu = cfu and mem = mem and data = data and sscanf_d = sscanf_d,
          OF assms this copy [unfolded 4(2)] 4(3) False]
      obtain y where y: "free y" "?call =
          Inr (if length (km_contents s) < 5 then length0 else - EPERM, (km_enq x s)\<lparr>Sync := y\<rparr>)"
        by blast
      show ?thesis
        using 4 copy False y km_enq_ring [OF assms(2) False] by simp
    qed
  qed (use assms copy long in \<open>simp_all add: KboardWriter_Write_def\<close>)
qed

theorem kboard_write_correct_witness:
  "\<exists>s'. KboardWriter_Write (methods1 counting_sem) text_copy_in scan_dec (replicate 20 (CHR 0x00)) [] ''42'' 0 2 km_fresh =
      Inr (2, s') \<and> km_contents s' = [42]"
proof -
  have "scan_dec ''42'' = Some 42"
    by (simp add: scan_dec_def is_digit_def digits_value_def)
  then show ?thesis
    using kboard_write_correct [OF counting.m1.cs_contract_axioms km_fresh(1,3),
        of text_copy_in scan_dec "replicate 20 (CHR 0x00)" "[]" "''42''" 0 2] km_fresh(2)
    by (auto simp: text_copy_in_def text_bytes_def c_string_def word_sless_alt)
qed

text \<open>
  C28: \<open>KboardWriter_Show\<close>, completely: on an empty queue it prints nothing and returns \<open>-EPERM\<close>, otherwise
  it prints the oldest item, removes it and returns 0; both count as performed.
\<close>

theorem kboard_paste_correct:
  assumes "cs_contract M free" and "km_wf s" and "free (Sync s)"
  shows "\<exists>ret out s'. KboardWriter_Show M s = Inr (ret, out, s') \<and> km_wf s' \<and> free (Sync s') \<and>
    PerformWriter s' = PerformWriter s + 1 \<and> PerformReader s' = PerformReader s \<and>
    (case km_contents s of
       [] \<Rightarrow> ret = - EPERM \<and> out = [] \<and> km_contents s' = []
     | x # q \<Rightarrow> ret = 0 \<and> out = ''Paste: '' @ quoted (fmt_d x) @ newline \<and> km_contents s' = q)"
  using cs_contract.writer_show [OF assms] km_deq_ring [OF assms(2)] by (cases "km_contents s") auto

theorem kboard_paste_correct_witness:
  "\<exists>s'. KboardWriter_Show (methods1 counting_sem) km_fresh = Inr (- EPERM, [], s') \<and> PerformWriter s' = 1"
  using kboard_paste_correct [OF counting.m1.cs_contract_axioms km_fresh(1,3)] km_fresh(2)
  by (auto simp: km_fresh_def)

text \<open>
  C34: \<open>KboardReader_Show\<close> never leaves the ring whatever random bytes it gets, prints a slot index
  between 0 and 4 and the value there, which is a queued item or \<open>-1\<close>, and changes nothing but its own
  counter.
\<close>

theorem kboard_read_correct:
  assumes "cs_contract M free" and "km_wf s" and "free (Sync s)"
  shows "\<exists>i v y. KboardReader_Show M random_bytes s =
      Inr (0, ''Read random value from Kboard: index: '' @ quoted (fmt_d i) @ '', value: '' @ quoted (fmt_d v) @ newline,
        s\<lparr>PerformReader := PerformReader s + 1, Sync := y\<rparr>) \<and>
    free y \<and> unat i < 5 \<and> RingBuffer s ! unat i = v \<and> (v \<in> set (km_contents s) \<or> v = - 1)"
proof -
  have "unat (random_bytes mod 5) = unat random_bytes mod 5"
    by (simp add: unat_mod_distrib)
  then show ?thesis
    using cs_contract.reader_show [OF assms, of random_bytes] km_slot [OF assms(2), of "unat random_bytes mod 5"]
    by fastforce
qed

theorem kboard_read_correct_witness:
  "\<exists>i v s'. KboardReader_Show (methods1 counting_sem) 4294967295 km_fresh =
      Inr (0, ''Read random value from Kboard: index: '' @ quoted (fmt_d i) @ '', value: '' @ quoted (fmt_d v) @ newline, s') \<and>
    unat i < 5 \<and> v = - 1"
  using kboard_read_correct [OF counting.m1.cs_contract_axioms km_fresh(1,3), of 4294967295] km_fresh(2) by auto

text \<open>
  The two reports are right and change nothing: \<open>count\<close> prints the number of queued items, and \<open>dump\<close>
  the five slots in order, that number, the index of the oldest item, how often writers and readers
  performed and the selected solution.
\<close>

lemma kboard_reports:
  assumes "km_wf s"
  shows "KboardCounter_Show s = Inr (0, ''Kboard Count: '' @ quoted (show_nat (length (km_contents s))) @ newline, s) \<and>
    KboardDumper_Show s = Inr (0,
      ''====== Kboard Status ======'' @ newline @ ''[RingBuffer]'' @ newline @
      concat (map (\<lambda>i. dump_line i (RingBuffer s ! i)) [0, 1, 2, 3, 4]) @
      ''[Count: '' @ quoted (show_nat (length (km_contents s))) @ '']'' @ newline @
      ''[CurrentIndex: '' @ quoted (show_nat (unat (RingBufferCurrentIndex s))) @ '']'' @ newline @
      ''[Writer: '' @ quoted (fmt_d (PerformWriter s)) @ '' times, Reader: '' @ quoted (fmt_d (PerformReader s)) @
      '' times]'' @ newline @ ''[Synchronization Solution: '' @ quoted ''1'' @ '']'' @ newline @
      ''==========================='' @ newline, s)"
proof -
  have ring: "length (RingBuffer s) = 5" "unat (RingBufferCurrentIndex s) < 5" "unat (RingBufferCount s) \<le> 5"
    using assms by (simp_all add: km_wf_def ring_inv_def)
  then have "fmt_d (RingBufferCurrentIndex s) = show_nat (unat (RingBufferCurrentIndex s))"
    and "fmt_d (RingBufferCount s) = show_nat (length (km_contents s))"
    by (simp_all add: fmt_d_nonneg nonneg_iff_small km_length_contents)
  moreover have "fmt_d SYNC_SOLUTION = ''1''"
    by (simp add: SYNC_SOLUTION_def fmt_d_def show_nat.simps char_of_def bit_0)
  moreover have "dump_loop (RingBuffer s) 0 = Inr (concat (map (\<lambda>i. dump_line i (RingBuffer s ! i)) [0, 1, 2, 3, 4]))"
    using dump_loop_all [of "RingBuffer s" 0] ring(1) by (simp add: upt_rec numeral_eq_Suc)
  ultimately show ?thesis
    by (simp add: KboardCounter_Show_def KboardDumper_Show_def)
qed

text \<open>
  \<open>InitializeKboard\<close> terminates without leaving the array, from any contents of the five slots, and
  gives the well-formed empty kboard with both counters zero.
\<close>

lemma kboard_init_correct:
  assumes "length (RingBuffer s) = 5"
  shows "\<exists>s'. InitializeKboard s = Inr s' \<and> km_wf s' \<and> km_contents s' = [] \<and> RingBuffer s' = replicate 5 (- 1) \<and>
    PerformWriter s' = 0 \<and> PerformReader s' = 0 \<and> Sync s' = Sync s"
  unfolding km_init [OF assms] by (simp add: km_initial) (simp add: RING_BUFFER_INIT_VALUE_def)

text \<open>
  C14: The module is a first-in first-out queue of five items for text in, text out: for any sequence of
  lines with non-negative numbers written to \<open>writer\<close> and of reads of \<open>writer\<close>, the answers are those
  of a bounded queue; what was queued, then what was accepted, is what was printed, then what is still
  queued. What is on the kernel stack behind the text does not matter, because a line ends with a
  character that is no digit.
\<close>

theorem kboard_fifo:
  assumes "km_env M free cfu bytes scan put a" and "length buffer0 = WRITER_BUFFER_SIZE"
    and "km_wf s" and "free (Sync s)" and "\<forall>x \<in> set (enq_items ops). \<not> x <s 0"
    and "run_ops (km_op M cfu scan buffer0 beyond put a) ops s = (rs, s')"
  shows "run_ops (bq_step 5) ops (km_contents s) = (rs, km_contents s') \<and>
    km_contents s @ accepted ops rs = received rs @ km_contents s' \<and> km_wf s'"
proof -
  have km: "km_stack M free cfu bytes scan put a buffer0"
    using assms(1,2) by (simp add: km_stack_def km_stack_axioms_def)
  show ?thesis
    using km_stack.km_run [OF km assms(3-6)] by simp
qed

theorem kboard_fifo_witness:
  "fst (run_ops (km_op (methods1 counting_sem) text_copy_in scan_dec (replicate 20 (CHR ''7'')) ''7'' (\<lambda>txt. txt) 0)
     [Enq 7, Enq 2147483647, Deq, Deq, Deq] km_fresh) = [Accepted, Accepted, Got 7, Got 2147483647, Nothing]"
proof -
  obtain rs s' where run: "run_ops (km_op (methods1 counting_sem) text_copy_in scan_dec (replicate 20 (CHR ''7'')) ''7'' (\<lambda>txt. txt) 0)
      [Enq 7, Enq 2147483647, Deq, Deq, Deq] km_fresh = (rs, s')"
    by (metis surj_pair)
  have "\<forall>x \<in> set (enq_items [Enq 7, Enq 2147483647, Deq, Deq, Deq]). \<not> x <s (0 :: cint)"
    by (simp add: word_sless_alt)
  then have "run_ops (bq_step 5) [Enq 7, Enq 2147483647, Deq, Deq, Deq] [] = (rs, km_contents s')"
    using kboard_fifo [OF text_km.km_env_axioms _ km_fresh(1,3) _ run] km_fresh(2)
    by (simp add: WRITER_BUFFER_SIZE_def)
  then show ?thesis
    by (auto simp only: run fst_conv) simp
qed

text \<open>
  C37: \<open>KboardWriter_Write\<close> does not terminate the text it scans. Writing the single byte \<open>4\<close> enqueues
  42 when the uninitialised buffer happens to hold a \<open>2\<close> next: the handler reads beyond the \<open>length\<close>
  bytes it was given.
\<close>

theorem kboard_write_unterminated:
  "\<exists>s'. KboardWriter_Write (methods1 counting_sem) text_copy_in scan_dec (''02'' @ replicate 18 (CHR 0x00)) [] ''4'' 0 1 km_fresh =
      Inr (1, s') \<and> km_contents s' = [42]"
proof -
  have "scan_dec ''42'' = Some 42"
    by (simp add: scan_dec_def is_digit_def digits_value_def)
  then have "scan_dec (c_string ((''42'' @ replicate 18 (CHR 0x00)) @ [])) = Some 42"
    by (simp add: c_string_def)
  moreover have "text_copy_in ''4'' 0 (unat (1 :: clong)) (''02'' @ replicate 18 (CHR 0x00)) =
      (0, ''42'' @ replicate 18 (CHR 0x00))"
    by (simp add: text_copy_in_def text_bytes_def)
  ultimately show ?thesis
    using counting.m1.writer_write [OF km_fresh(1,3), of 1 text_copy_in "''4''" 0 "''02'' @ replicate 18 (CHR 0x00)" _ scan_dec "[]" 42]
      km_enq_ring [OF km_fresh(1), of 42] km_fresh(2)
    by (auto simp: WRITER_BUFFER_SIZE_def word_sless_alt)
qed

end
