(* ===== verification/Sync2.thy ===== *)
theory Sync2
  imports Lightswitch
begin

text \<open>
  Solution 2 of \<open>lab2/KboardModule.c\<close> (\<open>SYNC_SOLUTION == 2\<close>), which prefers writers: writers count
  themselves under \<open>SemaphoreWriterMutex\<close>, the first one takes \<open>SemaphoreReader\<close> and the last one gives
  it back, and a reader has to pass \<open>SemaphoreReader\<close> before it does what a reader of solution 1 does.

  The invariant is two instances of the pattern of \<open>Lightswitch\<close>, one for each group. Field and method
  names carry the number of the solution.
\<close>

section \<open>State and methods\<close>

record 'sm sync2 =
  SemaphoreWriterMutex2 :: 'sm
  SemaphoreReaderMutex2 :: 'sm
  SemaphoreWriter2 :: 'sm
  SemaphoreReader2 :: 'sm
  WriterCount2 :: cint
  ReaderCount2 :: cint
  PerformDelay2 :: cint

definition InitializeSyncSolution2 :: "'sm sem_ops \<Rightarrow> 'sm sync2" where
  "InitializeSyncSolution2 K =
     \<lparr>SemaphoreWriterMutex2 = InitializeSemaphore K 1, SemaphoreReaderMutex2 = InitializeSemaphore K 1,
      SemaphoreWriter2 = InitializeSemaphore K 1, SemaphoreReader2 = InitializeSemaphore K 1,
      WriterCount2 = 0, ReaderCount2 = 0, PerformDelay2 = 1\<rparr>"

definition down_WriterMutex2 :: "'sm sem_ops \<Rightarrow> 'sm sync2 \<Rightarrow> 'sm sync2 option" where
  "down_WriterMutex2 K s = map_option (\<lambda>m. s\<lparr>SemaphoreWriterMutex2 := m\<rparr>) (sem_down K (SemaphoreWriterMutex2 s))"

definition up_WriterMutex2 :: "'sm sem_ops \<Rightarrow> 'sm sync2 \<Rightarrow> 'sm sync2" where
  "up_WriterMutex2 K s = s\<lparr>SemaphoreWriterMutex2 := sem_up K (SemaphoreWriterMutex2 s)\<rparr>"

definition down_ReaderMutex2 :: "'sm sem_ops \<Rightarrow> 'sm sync2 \<Rightarrow> 'sm sync2 option" where
  "down_ReaderMutex2 K s = map_option (\<lambda>m. s\<lparr>SemaphoreReaderMutex2 := m\<rparr>) (sem_down K (SemaphoreReaderMutex2 s))"

definition up_ReaderMutex2 :: "'sm sem_ops \<Rightarrow> 'sm sync2 \<Rightarrow> 'sm sync2" where
  "up_ReaderMutex2 K s = s\<lparr>SemaphoreReaderMutex2 := sem_up K (SemaphoreReaderMutex2 s)\<rparr>"

definition down_Writer2 :: "'sm sem_ops \<Rightarrow> 'sm sync2 \<Rightarrow> 'sm sync2 option" where
  "down_Writer2 K s = map_option (\<lambda>w. s\<lparr>SemaphoreWriter2 := w\<rparr>) (sem_down K (SemaphoreWriter2 s))"

definition up_Writer2 :: "'sm sem_ops \<Rightarrow> 'sm sync2 \<Rightarrow> 'sm sync2" where
  "up_Writer2 K s = s\<lparr>SemaphoreWriter2 := sem_up K (SemaphoreWriter2 s)\<rparr>"

definition down_Reader2 :: "'sm sem_ops \<Rightarrow> 'sm sync2 \<Rightarrow> 'sm sync2 option" where
  "down_Reader2 K s = map_option (\<lambda>r. s\<lparr>SemaphoreReader2 := r\<rparr>) (sem_down K (SemaphoreReader2 s))"

definition up_Reader2 :: "'sm sem_ops \<Rightarrow> 'sm sync2 \<Rightarrow> 'sm sync2" where
  "up_Reader2 K s = s\<lparr>SemaphoreReader2 := sem_up K (SemaphoreReader2 s)\<rparr>"

definition EnterCriticalSection_Writer2 :: "'sm sem_ops \<Rightarrow> 'sm sync2 \<Rightarrow> 'sm sync2 option" where
  "EnterCriticalSection_Writer2 K s = do {
     s \<leftarrow> down_WriterMutex2 K s;
     let s = s\<lparr>WriterCount2 := WriterCount2 s + 1\<rparr>;
     s \<leftarrow> (if WriterCount2 s = 1 then down_Reader2 K s else Some s);
     let s = up_WriterMutex2 K s;
     down_Writer2 K s }"

definition EnterCriticalSection_Reader2 :: "'sm sem_ops \<Rightarrow> 'sm sync2 \<Rightarrow> 'sm sync2 option" where
  "EnterCriticalSection_Reader2 K s = do {
     s \<leftarrow> down_Reader2 K s;
     let s = up_Reader2 K s;
     s \<leftarrow> down_ReaderMutex2 K s;
     let s = s\<lparr>ReaderCount2 := ReaderCount2 s + 1\<rparr>;
     s \<leftarrow> (if ReaderCount2 s = 1 then down_Writer2 K s else Some s);
     Some (up_ReaderMutex2 K s) }"

definition LeaveCriticalSection_Writer2 :: "'sm sem_ops \<Rightarrow> 'sm sync2 \<Rightarrow> 'sm sync2 option" where
  "LeaveCriticalSection_Writer2 K s = do {
     let s = up_Writer2 K s;
     s \<leftarrow> down_WriterMutex2 K s;
     let s = s\<lparr>WriterCount2 := WriterCount2 s - 1\<rparr>;
     let s = (if WriterCount2 s = 0 then up_Reader2 K s else s);
     Some (up_WriterMutex2 K s) }"

definition LeaveCriticalSection_Reader2 :: "'sm sem_ops \<Rightarrow> 'sm sync2 \<Rightarrow> 'sm sync2 option" where
  "LeaveCriticalSection_Reader2 K s = do {
     s \<leftarrow> down_ReaderMutex2 K s;
     let s = s\<lparr>ReaderCount2 := ReaderCount2 s - 1\<rparr>;
     let s = (if ReaderCount2 s = 0 then up_Writer2 K s else s);
     Some (up_ReaderMutex2 K s) }"

text \<open>The positions: one per statement, named by the method and the statement.\<close>

datatype pc2 =
    Idle2
  | EW2_down_WriterMutex | EW2_inc | EW2_if | EW2_down_Reader | EW2_up_WriterMutex | EW2_down_Writer | InW2
  | LW2_up_Writer | LW2_down_WriterMutex | LW2_dec | LW2_if | LW2_up_Reader | LW2_up_WriterMutex
  | ER2_down_Reader | ER2_up_Reader | ER2_down_ReaderMutex | ER2_inc | ER2_if | ER2_down_Writer
  | ER2_up_ReaderMutex | InR2
  | LR2_down_ReaderMutex | LR2_dec | LR2_if | LR2_up_Writer | LR2_up_ReaderMutex

fun step2 :: "'sm sem_ops \<Rightarrow> pc2 \<Rightarrow> 'sm sync2 \<Rightarrow> (pc2 \<times> 'sm sync2) option" where
  "step2 K Idle2 s = None"
| "step2 K EW2_down_WriterMutex s = map_option (Pair EW2_inc) (down_WriterMutex2 K s)"
| "step2 K EW2_inc s = Some (EW2_if, s\<lparr>WriterCount2 := WriterCount2 s + 1\<rparr>)"
| "step2 K EW2_if s = Some (if WriterCount2 s = 1 then EW2_down_Reader else EW2_up_WriterMutex, s)"
| "step2 K EW2_down_Reader s = map_option (Pair EW2_up_WriterMutex) (down_Reader2 K s)"
| "step2 K EW2_up_WriterMutex s = Some (EW2_down_Writer, up_WriterMutex2 K s)"
| "step2 K EW2_down_Writer s = map_option (Pair InW2) (down_Writer2 K s)"
| "step2 K InW2 s = None"
| "step2 K LW2_up_Writer s = Some (LW2_down_WriterMutex, up_Writer2 K s)"
| "step2 K LW2_down_WriterMutex s = map_option (Pair LW2_dec) (down_WriterMutex2 K s)"
| "step2 K LW2_dec s = Some (LW2_if, s\<lparr>WriterCount2 := WriterCount2 s - 1\<rparr>)"
| "step2 K LW2_if s = Some (if WriterCount2 s = 0 then LW2_up_Reader else LW2_up_WriterMutex, s)"
| "step2 K LW2_up_Reader s = Some (LW2_up_WriterMutex, up_Reader2 K s)"
| "step2 K LW2_up_WriterMutex s = Some (Idle2, up_WriterMutex2 K s)"
| "step2 K ER2_down_Reader s = map_option (Pair ER2_up_Reader) (down_Reader2 K s)"
| "step2 K ER2_up_Reader s = Some (ER2_down_ReaderMutex, up_Reader2 K s)"
| "step2 K ER2_down_ReaderMutex s = map_option (Pair ER2_inc) (down_ReaderMutex2 K s)"
| "step2 K ER2_inc s = Some (ER2_if, s\<lparr>ReaderCount2 := ReaderCount2 s + 1\<rparr>)"
| "step2 K ER2_if s = Some (if ReaderCount2 s = 1 then ER2_down_Writer else ER2_up_ReaderMutex, s)"
| "step2 K ER2_down_Writer s = map_option (Pair ER2_up_ReaderMutex) (down_Writer2 K s)"
| "step2 K ER2_up_ReaderMutex s = Some (InR2, up_ReaderMutex2 K s)"
| "step2 K InR2 s = None"
| "step2 K LR2_down_ReaderMutex s = map_option (Pair LR2_dec) (down_ReaderMutex2 K s)"
| "step2 K LR2_dec s = Some (LR2_if, s\<lparr>ReaderCount2 := ReaderCount2 s - 1\<rparr>)"
| "step2 K LR2_if s = Some (if ReaderCount2 s = 0 then LR2_up_Writer else LR2_up_ReaderMutex, s)"
| "step2 K LR2_up_Writer s = Some (LR2_up_ReaderMutex, up_Writer2 K s)"
| "step2 K LR2_up_ReaderMutex s = Some (Idle2, up_ReaderMutex2 K s)"

definition sol2 :: "'sm sem_ops \<Rightarrow> (pc2, 'sm sync2) sync_ops" where
  "sol2 K = \<lparr>pos_idle = Idle2, pos_enter_writer = EW2_down_WriterMutex, pos_in_writer = InW2,
     pos_leave_writer = LW2_up_Writer, pos_enter_reader = ER2_down_Reader, pos_in_reader = InR2,
     pos_leave_reader = LR2_down_ReaderMutex, pstep = step2 K\<rparr>"

section \<open>The invariant\<close>

text \<open>Towards \<open>SemaphoreWriter\<close> the readers are the group and a writer is a holder.\<close>

fun rrole2 :: "pc2 \<Rightarrow> role" where
  "rrole2 InW2 = Holder"
| "rrole2 LW2_up_Writer = Holder"
| "rrole2 ER2_inc = AtInc"
| "rrole2 ER2_if = AtIfFirst"
| "rrole2 ER2_down_Writer = AtTake"
| "rrole2 ER2_up_ReaderMutex = AtUnlockIn"
| "rrole2 InR2 = Inside"
| "rrole2 LR2_down_ReaderMutex = Inside"
| "rrole2 LR2_dec = AtDec"
| "rrole2 LR2_if = AtIfLast"
| "rrole2 LR2_up_Writer = AtGive"
| "rrole2 LR2_up_ReaderMutex = AtUnlockOut"
| "rrole2 p = Out"

text \<open>Towards \<open>SemaphoreReader\<close> the writers are the group and a passing reader is a holder.\<close>

fun wrole2 :: "pc2 \<Rightarrow> role" where
  "wrole2 ER2_up_Reader = Holder"
| "wrole2 EW2_inc = AtInc"
| "wrole2 EW2_if = AtIfFirst"
| "wrole2 EW2_down_Reader = AtTake"
| "wrole2 EW2_up_WriterMutex = AtUnlockIn"
| "wrole2 EW2_down_Writer = Inside"
| "wrole2 InW2 = Inside"
| "wrole2 LW2_up_Writer = Inside"
| "wrole2 LW2_down_WriterMutex = Inside"
| "wrole2 LW2_dec = AtDec"
| "wrole2 LW2_if = AtIfLast"
| "wrole2 LW2_up_Reader = AtGive"
| "wrole2 LW2_up_WriterMutex = AtUnlockOut"
| "wrole2 p = Out"

definition rinv2 :: "('sm \<Rightarrow> nat) \<Rightarrow> 'sm sync2 \<Rightarrow> pc2 list \<Rightarrow> bool" where
  "rinv2 val s ps \<longleftrightarrow>
     ls_inv (val (SemaphoreReaderMutex2 s)) (ReaderCount2 s) (val (SemaphoreWriter2 s)) (map rrole2 ps)"

definition winv2 :: "('sm \<Rightarrow> nat) \<Rightarrow> 'sm sync2 \<Rightarrow> pc2 list \<Rightarrow> bool" where
  "winv2 val s ps \<longleftrightarrow>
     ls_inv (val (SemaphoreWriterMutex2 s)) (WriterCount2 s) (val (SemaphoreReader2 s)) (map wrole2 ps)"

lemmas sem2_defs = down_WriterMutex2_def up_WriterMutex2_def down_ReaderMutex2_def up_ReaderMutex2_def
  down_Writer2_def up_Writer2_def down_Reader2_def up_Reader2_def

lemma sol2_simps [simp]:
  "pos_idle (sol2 K) = Idle2" "pos_enter_writer (sol2 K) = EW2_down_WriterMutex"
  "pos_in_writer (sol2 K) = InW2" "pos_leave_writer (sol2 K) = LW2_up_Writer"
  "pos_enter_reader (sol2 K) = ER2_down_Reader" "pos_in_reader (sol2 K) = InR2"
  "pos_leave_reader (sol2 K) = LR2_down_ReaderMutex" "pstep (sol2 K) = step2 K"
  by (simp_all add: sol2_def)

lemma role2_if:
  "rrole2 (if b then ER2_down_Writer else ER2_up_ReaderMutex) = (if b then AtTake else AtUnlockIn)"
  "rrole2 (if b then LR2_up_Writer else LR2_up_ReaderMutex) = (if b then AtGive else AtUnlockOut)"
  "rrole2 (if b then EW2_down_Reader else EW2_up_WriterMutex) = Out"
  "rrole2 (if b then LW2_up_Reader else LW2_up_WriterMutex) = Out"
  "wrole2 (if b then EW2_down_Reader else EW2_up_WriterMutex) = (if b then AtTake else AtUnlockIn)"
  "wrole2 (if b then LW2_up_Reader else LW2_up_WriterMutex) = (if b then AtGive else AtUnlockOut)"
  "wrole2 (if b then ER2_down_Writer else ER2_up_ReaderMutex) = Out"
  "wrole2 (if b then LR2_up_Writer else LR2_up_ReaderMutex) = Out"
  by simp_all

context kernel_semaphore
begin

lemma rinv2_step:
  assumes inv: "rinv2 val s ps" and t: "t < length ps" "ps ! t = p" and step: "step2 K p s = Some (q, s')"
  shows "rinv2 val s' (ps[t := q])"
proof -
  have t': "t < length (map rrole2 ps)" "map rrole2 ps ! t = rrole2 p"
    using t by simp_all
  show ?thesis
    using inv step t'(2) ls_stay ls_moves [OF t'(1)] ls_inc [OF _ t'(1)] ls_dec [OF _ t'(1)]
    unfolding rinv2_def map_update
    by (cases p) (auto simp: sem2_defs role2_if dest!: down_Some)
qed

lemma winv2_step:
  assumes inv: "winv2 val s ps" and t: "t < length ps" "ps ! t = p" and step: "step2 K p s = Some (q, s')"
  shows "winv2 val s' (ps[t := q])"
proof -
  have t': "t < length (map wrole2 ps)" "map wrole2 ps ! t = wrole2 p"
    using t by simp_all
  show ?thesis
    using inv step t'(2) ls_stay ls_moves [OF t'(1)] ls_inc [OF _ t'(1)] ls_dec [OF _ t'(1)]
    unfolding winv2_def map_update
    by (cases p) (auto simp: sem2_defs role2_if dest!: down_Some)
qed

lemma inv2_reach:
  assumes n: "n < 2147483648"
    and reach: "reach (rw_step (sol2 K)) (rw_start (sol2 K) (InitializeSyncSolution2 K) n) (s, ps)"
  shows rinv2_reach: "rinv2 val s ps" and winv2_reach: "winv2 val s ps"
proof -
  show "rinv2 val s ps"
  proof (rule rw_invariantI [OF reach])
    show "rinv2 val (InitializeSyncSolution2 K) (replicate n (pos_idle (sol2 K)))"
      using ls_start [OF n] by (simp add: rinv2_def InitializeSyncSolution2_def)
  qed (auto simp: rinv2_def map_update intro: rinv2_step [unfolded rinv2_def map_update] ls_stay)
  show "winv2 val s ps"
  proof (rule rw_invariantI [OF reach])
    show "winv2 val (InitializeSyncSolution2 K) (replicate n (pos_idle (sol2 K)))"
      using ls_start [OF n] by (simp add: winv2_def InitializeSyncSolution2_def)
  qed (auto simp: winv2_def map_update intro: winv2_step [unfolded winv2_def map_update] ls_stay)
qed

lemma rinv2_excl:
  assumes "rinv2 val s ps"
  shows "rw_excl (sol2 K) ps"
proof (rule rw_exclI)
  have excl: "occ (map rrole2 ps) Holder \<le> 1"
    "0 < occ (map rrole2 ps) Holder \<longrightarrow> occ (map rrole2 ps) Inside = 0"
    using ls_excl assms unfolding rinv2_def by blast+
  show "occ ps (pos_in_writer (sol2 K)) \<le> 1"
    using occ_map_le [of ps InW2 rrole2] excl(1) by simp
  show "occ ps (pos_in_reader (sol2 K)) = 0" if "0 < occ ps (pos_in_writer (sol2 K))"
    using occ_map_le [of ps InW2 rrole2] occ_map_le [of ps InR2 rrole2] excl(2) that by simp
qed

text \<open>
  No deadlock. A waiting thread waits for one of the four semaphores; the readers' pattern shows that
  \<open>SemaphoreReaderMutex\<close> and \<open>SemaphoreWriter\<close> are free, then the writers' pattern shows the same of
  the other two.
\<close>

lemma inv2_no_deadlock:
  assumes rinv: "rinv2 val s ps" and winv: "winv2 val s ps"
  shows "\<not> rw_deadlock (sol2 K) (s, ps)"
proof
  assume "rw_deadlock (sol2 K) (s, ps)"
  then obtain u where u: "u < length ps" "ps ! u \<notin> {Idle2, InW2, InR2}"
    and stuck: "\<And>t. t < length ps \<Longrightarrow> ps ! t \<noteq> InW2 \<and> ps ! t \<noteq> InR2 \<and> step2 K (ps ! t) s = None"
    by (auto simp: rw_deadlock_def)
  let ?wm = "val (SemaphoreWriterMutex2 s)" and ?rm = "val (SemaphoreReaderMutex2 s)"
    and ?w = "val (SemaphoreWriter2 s)" and ?r = "val (SemaphoreReader2 s)"
  have at: "ps ! t = Idle2 \<or> (ps ! t = EW2_down_WriterMutex \<or> ps ! t = LW2_down_WriterMutex) \<and> ?wm = 0 \<or>
      (ps ! t = ER2_down_ReaderMutex \<or> ps ! t = LR2_down_ReaderMutex) \<and> ?rm = 0 \<or>
      (ps ! t = EW2_down_Writer \<or> ps ! t = ER2_down_Writer) \<and> ?w = 0 \<or>
      (ps ! t = EW2_down_Reader \<or> ps ! t = ER2_down_Reader) \<and> ?r = 0" if "t < length ps" for t
    using stuck [OF that] by (cases "ps ! t") (auto simp: sem2_defs down_None_iff)
  have r: "?rm = 1 \<and> ?w = 1 \<and> occ (map rrole2 ps) Inside = 0 \<and> occ (map rrole2 ps) AtTake = 0"
  proof (rule ls_stuck [OF rinv [unfolded rinv2_def]])
    fix t assume "t < length (map rrole2 ps)"
    then have "t < length ps" by simp
    from at [OF this] this show "map rrole2 ps ! t \<in> {Out, Inside, AtTake}"
      and "map rrole2 ps ! t = Inside \<Longrightarrow> ?rm = 0" and "map rrole2 ps ! t = AtTake \<Longrightarrow> ?w = 0"
      by auto
  qed
  have "?wm = 1 \<and> ?r = 1 \<and> occ (map wrole2 ps) Inside = 0 \<and> occ (map wrole2 ps) AtTake = 0"
  proof (rule ls_stuck [OF winv [unfolded winv2_def]])
    fix t assume "t < length (map wrole2 ps)"
    then have "t < length ps" by simp
    from at [OF this] this r show "map wrole2 ps ! t \<in> {Out, Inside, AtTake}"
      and "map wrole2 ps ! t = Inside \<Longrightarrow> ?wm = 0" and "map wrole2 ps ! t = AtTake \<Longrightarrow> ?r = 0"
      by auto
  qed
  with r at [OF u(1)] u(2) show False
    by auto
qed

text \<open>While a writer has announced itself, no reader gets past \<open>SemaphoreReader\<close>.\<close>

lemma winv2_shut:
  assumes inv: "winv2 val s ps" and t: "t < length ps" "wrole2 (ps ! t) \<in> set group"
  shows "step2 K ER2_down_Reader s = None"
proof -
  have "0 < occs (map wrole2 ps) group"
    using t by (intro occs_pos [of t]) simp_all
  then show ?thesis
    using ls_group_shut [OF inv [unfolded winv2_def]] by (simp add: down_Reader2_def down_None_iff)
qed

end

sublocale rw_threads \<subseteq> s2: rw_exclusion "sol2 K" "InitializeSyncSolution2 K" n
  by unfold_locales (auto intro: rinv2_excl rinv2_reach [OF n_small])

text \<open>An example run: a writer is in its critical section, a reader waits before \<open>SemaphoreReader\<close>.\<close>

lemma sync2_demo:
  "\<exists>s. reach (rw_step (sol2 counting_sem)) (rw_start (sol2 counting_sem) (InitializeSyncSolution2 counting_sem) 2)
      (s, [InW2, ER2_down_Reader])"
proof -
  let ?P = "sol2 counting_sem" and ?s0 = "InitializeSyncSolution2 counting_sem"
  have "\<exists>s. exec (rw_step ?P) [CallEnterW 0, Run 0, Run 0, Run 0, Run 0, Run 0, Run 0, CallEnterR 1] (rw_start ?P ?s0 2) =
      Some (s, [InW2, ER2_down_Reader])"
    by (simp add: rw_start_def jump_def sem2_defs InitializeSyncSolution2_def counting_sem_def numeral_2_eq_2)
  then show ?thesis
    by (blast intro: exec_reach)
qed

section \<open>A visit that meets nobody\<close>

definition methods2 :: "'sm sem_ops \<Rightarrow> 'sm sync2 cs_methods" where
  "methods2 K = \<lparr>enter_writer = EnterCriticalSection_Writer2 K, enter_reader = EnterCriticalSection_Reader2 K,
     leave_writer = LeaveCriticalSection_Writer2 K, leave_reader = LeaveCriticalSection_Reader2 K\<rparr>"

definition free2 :: "('sm \<Rightarrow> nat) \<Rightarrow> 'sm sync2 \<Rightarrow> bool" where
  "free2 val s \<longleftrightarrow> val (SemaphoreWriterMutex2 s) = 1 \<and> val (SemaphoreReaderMutex2 s) = 1 \<and>
     val (SemaphoreWriter2 s) = 1 \<and> val (SemaphoreReader2 s) = 1 \<and> WriterCount2 s = 0 \<and> ReaderCount2 s = 0"

lemmas enter_leave2 = EnterCriticalSection_Writer2_def EnterCriticalSection_Reader2_def
  LeaveCriticalSection_Writer2_def LeaveCriticalSection_Reader2_def

context kernel_semaphore
begin

lemma init_free2: "free2 val (InitializeSyncSolution2 K)"
  by (simp add: free2_def InitializeSyncSolution2_def)

end

sublocale kernel_semaphore \<subseteq> m2: cs_contract "methods2 K" "free2 val"
proof unfold_locales
  fix y assume "free2 val y"
  then have y: "val (SemaphoreWriterMutex2 y) = 1" "val (SemaphoreReaderMutex2 y) = 1" "val (SemaphoreWriter2 y) = 1"
      "val (SemaphoreReader2 y) = 1" "WriterCount2 y = 0" "ReaderCount2 y = 0"
    by (simp_all add: free2_def)
  have take: "\<exists>x'. sem_down K x = Some x' \<and> val x' = 0" if "val x = 1" for x
    using down_takes [of x] that by auto
  from take y obtain a where a: "sem_down K (SemaphoreWriterMutex2 y) = Some a" "val a = 0" by blast
  from take y obtain b where b: "sem_down K (SemaphoreReaderMutex2 y) = Some b" "val b = 0" by blast
  from take y obtain c where c: "sem_down K (SemaphoreWriter2 y) = Some c" "val c = 0" by blast
  from take y obtain d where d: "sem_down K (SemaphoreReader2 y) = Some d" "val d = 0" by blast
  from take [of "sem_up K a"] a obtain a' where a': "sem_down K (sem_up K a) = Some a'" "val a' = 0" by auto
  from take [of "sem_up K b"] b obtain b' where b': "sem_down K (sem_up K b) = Some b'" "val b' = 0" by auto
  show "\<exists>y1 y2. enter_writer (methods2 K) y = Some y1 \<and> leave_writer (methods2 K) y1 = Some y2 \<and> free2 val y2"
    and "\<exists>y1 y2. enter_reader (methods2 K) y = Some y1 \<and> leave_reader (methods2 K) y1 = Some y2 \<and> free2 val y2"
    using y a b c d a' b' by (simp_all add: methods2_def enter_leave2 sem2_defs free2_def)
qed

section \<open>Properties\<close>

text \<open>
  C7: Mutual exclusion of solution 2, for any number of threads (fewer than \<open>2^31\<close>) and any
  interleaving of their statements: a writer in its critical section is the only thread in one.
\<close>

theorem sync2_exclusion:
  assumes "kernel_semaphore K val" and "n < 2147483648"
    and "reach (rw_step (sol2 K)) (rw_start (sol2 K) (InitializeSyncSolution2 K) n) (s, ps)"
  shows "rw_excl (sol2 K) ps"
  using kernel_semaphore.rinv2_excl [OF assms(1) kernel_semaphore.rinv2_reach [OF assms]] .

theorem sync2_exclusion_witness:
  "\<exists>s. reach (rw_step (sol2 counting_sem)) (rw_start (sol2 counting_sem) (InitializeSyncSolution2 counting_sem) 2)
      (s, [InW2, ER2_down_Reader]) \<and> rw_excl (sol2 counting_sem) [InW2, ER2_down_Reader]"
proof -
  let ?P = "sol2 counting_sem" and ?s0 = "InitializeSyncSolution2 counting_sem"
  obtain s where r: "reach (rw_step ?P) (rw_start ?P ?s0 2) (s, [InW2, ER2_down_Reader])"
    using sync2_demo by blast
  show ?thesis
    using sync2_exclusion [OF counting.kernel_semaphore_axioms _ r] r by auto
qed

text \<open>
  C24: Solution 2 does not deadlock: in no reachable state are all threads that have called a method
  waiting while nobody is in a critical section.
\<close>

theorem sync2_no_deadlock:
  assumes "kernel_semaphore K val" and "n < 2147483648"
    and "reach (rw_step (sol2 K)) (rw_start (sol2 K) (InitializeSyncSolution2 K) n) (s, ps)"
  shows "\<not> rw_deadlock (sol2 K) (s, ps)"
  using kernel_semaphore.inv2_no_deadlock
    [OF assms(1) kernel_semaphore.rinv2_reach [OF assms] kernel_semaphore.winv2_reach [OF assms]] .

theorem sync2_no_deadlock_witness:
  "\<exists>s. reach (rw_step (sol2 counting_sem)) (rw_start (sol2 counting_sem) (InitializeSyncSolution2 counting_sem) 2)
      (s, [InW2, ER2_down_Reader]) \<and> \<not> rw_deadlock (sol2 counting_sem) (s, [InW2, ER2_down_Reader])"
proof -
  let ?P = "sol2 counting_sem" and ?s0 = "InitializeSyncSolution2 counting_sem"
  obtain s where r: "reach (rw_step ?P) (rw_start ?P ?s0 2) (s, [InW2, ER2_down_Reader])"
    using sync2_demo by blast
  show ?thesis
    using sync2_no_deadlock [OF counting.kernel_semaphore_axioms _ r] r by auto
qed

text \<open>
  C25: Solution 2 prefers writers: from the moment a writer has passed \<open>down(&SemaphoreReader)\<close> (or
  found it taken by another writer) until it has decided on leaving that it is not the last writer, or
  given \<open>SemaphoreReader\<close> back, a reader at \<open>down(&SemaphoreReader)\<close> cannot go on, however many
  writers follow.
\<close>

theorem sync2_writers_first:
  assumes "kernel_semaphore K val" and "n < 2147483648"
    and "reach (rw_step (sol2 K)) (rw_start (sol2 K) (InitializeSyncSolution2 K) n) (s, ps)"
    and "t < n" and "ps ! t \<in> {EW2_up_WriterMutex, EW2_down_Writer, InW2, LW2_up_Writer, LW2_down_WriterMutex,
      LW2_dec, LW2_if, LW2_up_Reader}"
    and "u < n" and "ps ! u = ER2_down_Reader"
  shows "rw_step (sol2 K) (Run u) (s, ps) = None"
proof -
  have "length ps = n"
    using rw_reach_length [OF assms(3) [unfolded rw_start_def]] by simp
  then have "step2 K ER2_down_Reader s = None"
    using kernel_semaphore.winv2_shut [OF assms(1) kernel_semaphore.winv2_reach [OF assms(1-3)], of t] assms(4,5)
    by (auto simp: group_def)
  then show ?thesis
    using assms(7) by simp
qed

theorem sync2_writers_first_witness:
  "\<exists>s. reach (rw_step (sol2 counting_sem)) (rw_start (sol2 counting_sem) (InitializeSyncSolution2 counting_sem) 2)
      (s, [InW2, ER2_down_Reader]) \<and> rw_step (sol2 counting_sem) (Run 1) (s, [InW2, ER2_down_Reader]) = None"
proof -
  let ?P = "sol2 counting_sem" and ?s0 = "InitializeSyncSolution2 counting_sem"
  obtain s where r: "reach (rw_step ?P) (rw_start ?P ?s0 2) (s, [InW2, ER2_down_Reader])"
    using sync2_demo by blast
  show ?thesis
    using sync2_writers_first [OF counting.kernel_semaphore_axioms _ r, of 0 1] r by auto
qed

text \<open>
  The statement-by-statement model of solution 2 and its methods as functions agree: one thread
  that executes a method alone does exactly what the method says, and waits exactly when it does.
\<close>

lemma sync2_methods:
  "run_alone (sol2 K) (7 + k) EW2_down_WriterMutex s = map_option (Pair InW2) (EnterCriticalSection_Writer2 K s) \<and>
   run_alone (sol2 K) (7 + k) LW2_up_Writer s = map_option (Pair Idle2) (LeaveCriticalSection_Writer2 K s) \<and>
   run_alone (sol2 K) (7 + k) ER2_down_Reader s = map_option (Pair InR2) (EnterCriticalSection_Reader2 K s) \<and>
   run_alone (sol2 K) (7 + k) LR2_down_ReaderMutex s = map_option (Pair Idle2) (LeaveCriticalSection_Reader2 K s)"
  by (auto simp: run_alone.simps EnterCriticalSection_Writer2_def LeaveCriticalSection_Writer2_def
      EnterCriticalSection_Reader2_def LeaveCriticalSection_Reader2_def
      numeral_eq_Suc split: option.splits)

interpretation alone2: alone_methods "sol2 K" "methods2 K" for K
  using sync2_methods by unfold_locales (auto simp: methods2_def)

text \<open>
  A round in which two writers take turns, from and to a state where one of them is in its critical section and a
  reader waits.
\<close>

definition overtake2 :: "rw_act list" where
  "overtake2 = [CallEnterW 2, Run 2, Run 2, Run 2, Run 2, CallLeaveW 1, Run 1, Run 2, Run 1, Run 1, Run 1, Run 1,
     CallEnterW 1, Run 1, Run 1, Run 1, Run 1, CallLeaveW 2, Run 2, Run 1, Run 2, Run 2, Run 2, Run 2]"

text \<open>A writer in its critical section.\<close>

definition busy2 :: "nat sync2" where
  "busy2 = (InitializeSyncSolution2 counting_sem)\<lparr>SemaphoreReader2 := 0, SemaphoreWriter2 := 0, WriterCount2 := 1\<rparr>"

lemma overtake2_round:
  "exec (rw_step (sol2 counting_sem)) overtake2 (busy2, [ER2_down_Reader, InW2, Idle2]) =
      Some (busy2, [ER2_down_Reader, InW2, Idle2])"
  "kept_out (rw_step (sol2 counting_sem)) (Run 0) overtake2 (busy2, [ER2_down_Reader, InW2, Idle2])"
  by (simp_all add: busy2_def InitializeSyncSolution2_def overtake2_def jump_def sem2_defs counting_sem_def)

lemma overtake2_start:
  "exec (rw_step (sol2 counting_sem)) [CallEnterW 1, Run 1, Run 1, Run 1, Run 1, Run 1, Run 1, CallEnterR 0]
     (rw_start (sol2 counting_sem) (InitializeSyncSolution2 counting_sem) 3) = Some (busy2, [ER2_down_Reader, InW2, Idle2])"
  by (simp add: busy2_def rw_start_def jump_def sem2_defs InitializeSyncSolution2_def counting_sem_def numeral_3_eq_3)

text \<open>
  C20: Solution 2 has the opposite fault of solution 1: two writers that take turns keep a waiting reader waiting. There is a
  reachable state with a reader at its first \<open>down\<close> from which, for every \<open>k\<close>, a run of \<open>k\<close> rounds of two complete
  writer visits each leads back to the same state and the reader can execute its \<open>down\<close> in no state of that run.
\<close>

theorem sync2_writers_overtake:
  "\<exists>s. reach (rw_step (sol2 counting_sem)) (rw_start (sol2 counting_sem) (InitializeSyncSolution2 counting_sem) 3)
      (s, [ER2_down_Reader, InW2, Idle2]) \<and>
    (\<forall>k. exec (rw_step (sol2 counting_sem)) (concat (replicate k overtake2)) (s, [ER2_down_Reader, InW2, Idle2]) =
        Some (s, [ER2_down_Reader, InW2, Idle2]) \<and>
      kept_out (rw_step (sol2 counting_sem)) (Run 0) (concat (replicate k overtake2)) (s, [ER2_down_Reader, InW2, Idle2]))"
  using exec_reach [OF overtake2_start] kept_out_rounds [OF overtake2_round] by blast

end
