(* ===== verification/Kboard_Conc.thy ===== *)
theory Kboard_Conc
  imports Kboard_Module Sync2
begin

text \<open>
  The handlers of \<open>lab2/KboardModule.c\<close> under concurrency. Any number of threads execute
  \<open>KboardWriter_Show\<close>, \<open>KboardWriter_Write\<close> and \<open>KboardReader_Show\<close>, interleaved statement by statement,
  the statements of the synchronisation methods included; an increment of \<open>PerformWriter\<close> or
  \<open>PerformReader\<close> is a load and a store. The solution is a parameter \<open>P\<close> of which only the contract
  \<open>rw_exclusion\<close> is used, so the results hold for solutions 1 and 2.

  The part of \<open>KboardWriter_Write\<close> before \<open>EnterCriticalSection_Writer\<close> and the printing after
  \<open>LeaveCriticalSection_*\<close> touch no shared variable: a thread starts here with the item it has scanned
  or the index it has drawn, and ends with the result it prints. \<open>clog\<close> is a history variable, no code
  reads it: the operations in the order in which their critical sections ended, with their results.
\<close>

section \<open>Threads\<close>

text \<open>The statements of the critical sections, with the values of the local variables.\<close>

datatype stmt =
    PLoad | PStore cint | PTest | PTake | PClear cint | PDec cint | PAdvance cint
  | CLoad cint | CStore cint cint | CTest cint | CPut cint | CInc cint
  | RLoad cint | RStore cint cint | RSlot cint

fun body_step :: "stmt \<Rightarrow> 'y kboard \<Rightarrow> ((stmt + cint qres) \<times> 'y kboard) result" where
  "body_step PLoad s = Inr (Inl (PStore (PerformWriter s)), s)"
| "body_step (PStore n) s = Inr (Inl PTest, s\<lparr>PerformWriter := n + 1\<rparr>)"
| "body_step PTest s = Inr (if RingBufferCount s <=s 0 then Inr Nothing else Inl PTake, s)"
| "body_step PTake s =
     rbind (arr_get (RingBuffer s) (RingBufferCurrentIndex s)) (\<lambda>item. Inr (Inl (PClear item), s))"
| "body_step (PClear item) s =
     rbind (arr_set (RingBuffer s) (RingBufferCurrentIndex s) RING_BUFFER_INIT_VALUE) (\<lambda>r.
       Inr (Inl (PDec item), s\<lparr>RingBuffer := r\<rparr>))"
| "body_step (PDec item) s = Inr (Inl (PAdvance item), s\<lparr>RingBufferCount := RingBufferCount s - 1\<rparr>)"
| "body_step (PAdvance item) s =
     Inr (Inr (Got item), s\<lparr>RingBufferCurrentIndex := c_mod (RingBufferCurrentIndex s + 1) RING_BUFFER_SIZE\<rparr>)"
| "body_step (CLoad item) s = Inr (Inl (CStore item (PerformWriter s)), s)"
| "body_step (CStore item n) s = Inr (Inl (CTest item), s\<lparr>PerformWriter := n + 1\<rparr>)"
| "body_step (CTest item) s = Inr (if RING_BUFFER_SIZE <=s RingBufferCount s then Inr Rejected else Inl (CPut item), s)"
| "body_step (CPut item) s =
     rbind (arr_set (RingBuffer s) (c_mod (RingBufferCurrentIndex s + RingBufferCount s) RING_BUFFER_SIZE) item) (\<lambda>r.
       Inr (Inl (CInc item), s\<lparr>RingBuffer := r\<rparr>))"
| "body_step (CInc item) s = Inr (Inr Accepted, s\<lparr>RingBufferCount := RingBufferCount s + 1\<rparr>)"
| "body_step (RLoad i) s = Inr (Inl (RStore i (PerformReader s)), s)"
| "body_step (RStore i n) s = Inr (Inl (RSlot i), s\<lparr>PerformReader := n + 1\<rparr>)"
| "body_step (RSlot i) s = rbind (arr_get (RingBuffer s) i) (\<lambda>item. Inr (Inr (Got item), s))"

text \<open>The handlers a thread may start, and their first statements.\<close>

datatype job = Paste | Copy cint | Read cint

fun first_stmt :: "job \<Rightarrow> stmt" where
  "first_stmt Paste = PLoad"
| "first_stmt (Copy item) = CLoad item"
| "first_stmt (Read i) = RLoad i"

text \<open>The check of the item in \<open>KboardWriter_Write\<close>, the reduction of the index in \<open>KboardReader_Show\<close>.\<close>

fun job_ok :: "job \<Rightarrow> bool" where
  "job_ok Paste = True"
| "job_ok (Copy item) = (\<not> item <s 0)"
| "job_ok (Read i) = (unat i < 5)"

fun is_reader :: "stmt \<Rightarrow> bool" where
  "is_reader (RLoad i) = True"
| "is_reader (RStore i n) = True"
| "is_reader (RSlot i) = True"
| "is_reader _ = False"

fun stmt_op :: "stmt \<Rightarrow> cint qop" where
  "stmt_op (CLoad item) = Enq item"
| "stmt_op (CStore item n) = Enq item"
| "stmt_op (CTest item) = Enq item"
| "stmt_op (CPut item) = Enq item"
| "stmt_op (CInc item) = Enq item"
| "stmt_op _ = Deq"

datatype act = NoJob | Entering stmt | Body stmt | Leaving "cint qres"

record ('p, 'y) conc =
  board :: "'y kboard"
  pos :: "'p list"
  acts :: "act list"
  clog :: "(cint qop \<times> cint qres) list"

datatype choice = Start nat job | Sched nat

definition in_pos :: "('p, 'y) sync_ops \<Rightarrow> stmt \<Rightarrow> 'p" where
  "in_pos P b = (if is_reader b then pos_in_reader P else pos_in_writer P)"

definition enter_pos :: "('p, 'y) sync_ops \<Rightarrow> stmt \<Rightarrow> 'p" where
  "enter_pos P b = (if is_reader b then pos_enter_reader P else pos_enter_writer P)"

definition leave_pos :: "('p, 'y) sync_ops \<Rightarrow> stmt \<Rightarrow> 'p" where
  "leave_pos P b = (if is_reader b then pos_leave_reader P else pos_leave_writer P)"

text \<open>A statement of a synchronisation method.\<close>

definition sync_stmt :: "('p, 'y) sync_ops \<Rightarrow> nat \<Rightarrow> ('p, 'y) conc \<Rightarrow> ('p, 'y) conc option" where
  "sync_stmt P t c =
     (case pstep P (pos c ! t) (Sync (board c)) of
        None \<Rightarrow> None
      | Some (p, y) \<Rightarrow> Some (c\<lparr>board := (board c)\<lparr>Sync := y\<rparr>, pos := (pos c)[t := p]\<rparr>))"

fun conc_step :: "('p, 'y) sync_ops \<Rightarrow> choice \<Rightarrow> ('p, 'y) conc \<Rightarrow> ('p, 'y) conc option" where
  "conc_step P (Start t j) c =
     (if t < length (pos c) \<and> acts c ! t = NoJob \<and> pos c ! t = pos_idle P \<and> job_ok j then
        Some (c\<lparr>pos := (pos c)[t := enter_pos P (first_stmt j)], acts := (acts c)[t := Entering (first_stmt j)]\<rparr>)
      else None)"
| "conc_step P (Sched t) c =
     (if t < length (pos c) then
        case acts c ! t of
          NoJob \<Rightarrow> None
        | Entering b \<Rightarrow>
            if pos c ! t = in_pos P b then Some (c\<lparr>acts := (acts c)[t := Body b]\<rparr>) else sync_stmt P t c
        | Body b \<Rightarrow>
            (case body_step b (board c) of
               Inl _ \<Rightarrow> None
             | Inr (Inl b', s) \<Rightarrow> Some (c\<lparr>board := s, acts := (acts c)[t := Body b']\<rparr>)
             | Inr (Inr r, s) \<Rightarrow> Some (c\<lparr>board := s, pos := (pos c)[t := leave_pos P b],
                 acts := (acts c)[t := Leaving r],
                 clog := clog c @ (if is_reader b then [] else [(stmt_op b, r)])\<rparr>))
        | Leaving r \<Rightarrow>
            if pos c ! t = pos_idle P then Some (c\<lparr>acts := (acts c)[t := NoJob]\<rparr>) else sync_stmt P t c
      else None)"

definition conc_start :: "('p, 'y) sync_ops \<Rightarrow> 'y \<Rightarrow> nat \<Rightarrow> ('p, 'y) conc" where
  "conc_start P y n = \<lparr>board = \<lparr>Sync = y, RingBuffer = replicate 5 RING_BUFFER_INIT_VALUE, RingBufferCount = 0,
       RingBufferCurrentIndex = 0, PerformWriter = 0, PerformReader = 0\<rparr>,
     pos = replicate n (pos_idle P), acts = replicate n NoJob, clog = []\<rparr>"

text \<open>The statements of a thread, case by case.\<close>

lemma conc_sched_cases [consumes 1, case_names enter sync body finish idle]:
  assumes "conc_step P (Sched t) c = Some c'"
  obtains b where "t < length (pos c)" "acts c ! t = Entering b" "pos c ! t = in_pos P b" "c' = c\<lparr>acts := (acts c)[t := Body b]\<rparr>"
  | p y where "t < length (pos c)" "\<exists>b. acts c ! t = Entering b \<and> pos c ! t \<noteq> in_pos P b \<or> (\<exists>r. acts c ! t = Leaving r \<and> pos c ! t \<noteq> pos_idle P)"
      "pstep P (pos c ! t) (Sync (board c)) = Some (p, y)" "c' = c\<lparr>board := (board c)\<lparr>Sync := y\<rparr>, pos := (pos c)[t := p]\<rparr>"
  | b b' s where "t < length (pos c)" "acts c ! t = Body b" "body_step b (board c) = Inr (Inl b', s)"
      "c' = c\<lparr>board := s, acts := (acts c)[t := Body b']\<rparr>"
  | b r s where "t < length (pos c)" "acts c ! t = Body b" "body_step b (board c) = Inr (Inr r, s)"
      "c' = c\<lparr>board := s, pos := (pos c)[t := leave_pos P b], acts := (acts c)[t := Leaving r],
        clog := clog c @ (if is_reader b then [] else [(stmt_op b, r)])\<rparr>"
  | r where "t < length (pos c)" "acts c ! t = Leaving r" "pos c ! t = pos_idle P" "c' = c\<lparr>acts := (acts c)[t := NoJob]\<rparr>"
proof (cases "acts c ! t")
  case (Body b)
  then obtain nxt s where "body_step b (board c) = Inr (nxt, s)"
    using assms by (cases "body_step b (board c)") (auto split: if_splits)
  then show thesis
    using assms Body that(3,4) by (cases nxt) (auto split: if_splits)
qed (use assms that(1,2,5) in \<open>auto simp: sync_stmt_def split: if_splits option.splits\<close>)

section \<open>The state inside a writer's critical section\<close>

text \<open>The shared data a writer works on.\<close>

definition core :: "'y kboard \<Rightarrow> cint list \<times> cint \<times> cint \<times> cint" where
  "core s = (RingBuffer s, RingBufferCount s, RingBufferCurrentIndex s, PerformWriter s)"

text \<open>
  \<open>mid b s0 s\<close>: a writer whose next statement is \<open>b\<close> and who found the kboard as \<open>s0\<close> has brought it to \<open>s\<close>.
\<close>

fun mid :: "stmt \<Rightarrow> 'y kboard \<Rightarrow> 'z kboard \<Rightarrow> bool" where
  "mid PLoad s0 s \<longleftrightarrow> core s = core s0"
| "mid (PStore n) s0 s \<longleftrightarrow> core s = core s0 \<and> n = PerformWriter s0"
| "mid PTest s0 s \<longleftrightarrow> core s = core (s0\<lparr>PerformWriter := PerformWriter s0 + 1\<rparr>)"
| "mid PTake s0 s \<longleftrightarrow> km_contents s0 \<noteq> [] \<and> core s = core (s0\<lparr>PerformWriter := PerformWriter s0 + 1\<rparr>)"
| "mid (PClear x) s0 s \<longleftrightarrow> km_contents s0 \<noteq> [] \<and> x = hd (km_contents s0) \<and>
     core s = core (s0\<lparr>PerformWriter := PerformWriter s0 + 1\<rparr>)"
| "mid (PDec x) s0 s \<longleftrightarrow> km_contents s0 \<noteq> [] \<and> x = hd (km_contents s0) \<and>
     core s = core (s0\<lparr>PerformWriter := PerformWriter s0 + 1, RingBuffer := RingBuffer (km_popped s0)\<rparr>)"
| "mid (PAdvance x) s0 s \<longleftrightarrow> km_contents s0 \<noteq> [] \<and> x = hd (km_contents s0) \<and>
     core s = core (s0\<lparr>PerformWriter := PerformWriter s0 + 1, RingBuffer := RingBuffer (km_popped s0),
       RingBufferCount := RingBufferCount s0 - 1\<rparr>)"
| "mid (CLoad x) s0 s \<longleftrightarrow> \<not> x <s 0 \<and> core s = core s0"
| "mid (CStore x n) s0 s \<longleftrightarrow> \<not> x <s 0 \<and> core s = core s0 \<and> n = PerformWriter s0"
| "mid (CTest x) s0 s \<longleftrightarrow> \<not> x <s 0 \<and> core s = core (s0\<lparr>PerformWriter := PerformWriter s0 + 1\<rparr>)"
| "mid (CPut x) s0 s \<longleftrightarrow> \<not> x <s 0 \<and> length (km_contents s0) < 5 \<and>
     core s = core (s0\<lparr>PerformWriter := PerformWriter s0 + 1\<rparr>)"
| "mid (CInc x) s0 s \<longleftrightarrow> \<not> x <s 0 \<and> length (km_contents s0) < 5 \<and>
     core s = core (s0\<lparr>PerformWriter := PerformWriter s0 + 1, RingBuffer := RingBuffer (km_pushed s0 x)\<rparr>)"
| "mid b s0 s \<longleftrightarrow> core s = core s0"

text \<open>What a whole critical section does, by its operation.\<close>

fun km_do :: "cint qop \<Rightarrow> 'y kboard \<Rightarrow> 'y kboard" where
  "km_do (Enq x) s = km_enq x s"
| "km_do Deq s = km_deq s"

lemma core_ring: "core s = core s0 \<Longrightarrow> km_wf s = km_wf s0 \<and> km_contents s = km_contents s0"
  by (simp add: core_def km_wf_def km_contents_def)

lemma core_frame [simp]: "core (s\<lparr>Sync := y\<rparr>) = core s" "core (s\<lparr>PerformReader := n\<rparr>) = core s"
  by (simp_all add: core_def)

text \<open>One statement of a writer: no fault, and the kboard is what \<open>mid\<close> says of the next statement.\<close>

lemma body_writer:
  assumes wf: "km_wf s0" and m: "mid b s0 s" and w: "\<not> is_reader b"
  shows "\<exists>nxt s'. body_step b s = Inr (nxt, s') \<and> Sync s' = Sync s \<and>
    (case nxt of Inl b' \<Rightarrow> mid b' s0 s' \<and> stmt_op b' = stmt_op b \<and> \<not> is_reader b'
     | Inr r \<Rightarrow> core s' = core (km_do (stmt_op b) s0) \<and>
        bq_step 5 (stmt_op b) (km_contents s0) = (r, km_contents (km_do (stmt_op b) s0)) \<and>
        km_wf (km_do (stmt_op b) s0) \<and> PerformWriter s' = PerformWriter s0 + 1)"
proof -
  note ring = km_empty_iff [OF wf] km_full_iff [OF wf] km_bound [OF wf] km_pop(1,2) [OF wf] km_push(1) [OF wf]
    km_deq_ring [OF wf] km_enq_ring [OF wf]
  show ?thesis
    using m w ring
    by (cases b) (auto simp: core_def km_deq_def km_enq_def km_popped_def km_pushed_def neq_Nil_conv)
qed

fun index_ok :: "stmt \<Rightarrow> bool" where
  "index_ok (RLoad i) = (unat i < 5)"
| "index_ok (RStore i n) = (unat i < 5)"
| "index_ok (RSlot i) = (unat i < 5)"
| "index_ok _ = True"

text \<open>One statement of a reader: no fault, no change of the data; it gets a queued item or \<open>-1\<close>.\<close>

lemma body_reader:
  assumes wf: "km_wf s" and r: "is_reader b" "index_ok b"
  shows "\<exists>nxt s'. body_step b s = Inr (nxt, s') \<and> Sync s' = Sync s \<and> core s' = core s \<and>
    (case nxt of Inl b' \<Rightarrow> is_reader b' \<and> index_ok b'
     | Inr r \<Rightarrow> \<exists>v. r = Got v \<and> (v \<in> set (km_contents s) \<or> v = - 1))"
proof -
  have len: "length (RingBuffer s) = 5"
    using wf by (simp add: km_wf_def ring_inv_def)
  show ?thesis
    using r len km_slot [OF wf] by (cases b) (auto simp: arr_get_small)
qed

lemma mid_core: "core s = core s' \<Longrightarrow> mid b s0 s = mid b s0 s'"
  by (cases b) simp_all

lemma mid_first: "job_ok j \<Longrightarrow> core s = core s0 \<Longrightarrow> mid (first_stmt j) s0 s"
  by (cases j) simp_all

section \<open>The invariant\<close>

definition no_writer :: "act list \<Rightarrow> bool" where
  "no_writer as \<longleftrightarrow> (\<forall>t < length as. \<forall>b. as ! t = Body b \<longrightarrow> is_reader b)"

text \<open>
  The data at any moment, where \<open>s0\<close> is the kboard after the critical sections of the history: it is
  \<open>s0\<close> if no writer is inside, and what a writer inside has made of \<open>s0\<close> otherwise.
\<close>

definition data_at :: "'y kboard \<Rightarrow> act list \<Rightarrow> 'y kboard \<Rightarrow> bool" where
  "data_at s0 as s \<longleftrightarrow>
     (\<forall>t < length as. \<forall>b. as ! t = Body b \<longrightarrow> \<not> is_reader b \<longrightarrow> mid b s0 s) \<and>
     (no_writer as \<longrightarrow> core s = core s0)"

definition history :: "(cint qop \<times> cint qres) list \<Rightarrow> 'y kboard \<Rightarrow> bool" where
  "history log s0 \<longleftrightarrow> km_wf s0 \<and> run_ops (bq_step 5) (map fst log) [] = (map snd log, km_contents s0) \<and>
     PerformWriter s0 = of_nat (length log)"

definition act_ok :: "('p, 'y) sync_ops \<Rightarrow> 'p \<Rightarrow> act \<Rightarrow> bool" where
  "act_ok P p a = (case a of Entering b \<Rightarrow> (\<exists>j. job_ok j \<and> b = first_stmt j)
     | Body b \<Rightarrow> p = in_pos P b \<and> index_ok b | _ \<Rightarrow> True)"

definition conc_inv :: "('p, 'y) sync_ops \<Rightarrow> 'y \<Rightarrow> nat \<Rightarrow> ('p, 'y) conc \<Rightarrow> bool" where
  "conc_inv P y n c \<longleftrightarrow>
     reach (rw_step P) (rw_start P y n) (Sync (board c), pos c) \<and>
     length (acts c) = length (pos c) \<and>
     (\<forall>t < length (pos c). act_ok P (pos c ! t) (acts c ! t)) \<and>
     (\<exists>s0. history (clog c) s0 \<and> data_at s0 (acts c) (board c))"

lemma history_snoc:
  assumes "history log s0" and "bq_step 5 x (km_contents s0) = (r, km_contents (km_do x s0))" and "km_wf (km_do x s0)"
  shows "history (log @ [(x, r)]) (km_do x s0)"
proof -
  have "PerformWriter (km_do x s0) = PerformWriter s0 + 1"
    by (cases x) simp_all
  then show ?thesis
    using assms run_ops_snoc [of "bq_step 5" "map fst log" "[]"] by (simp add: history_def)
qed

lemma act_ok_update:
  assumes "\<forall>t < length ps. act_ok P (ps ! t) (as ! t)" and "length as = length ps" and "act_ok P p a"
  shows "\<forall>u < length (ps[t := p]). act_ok P (ps[t := p] ! u) (as[t := a] ! u)"
  using assms by (auto simp: nth_update)

lemma data_at_core: "core s = core s' \<Longrightarrow> data_at s0 as s = data_at s0 as s'"
  by (simp add: data_at_def mid_core [of s s'])

text \<open>A thread's activity changes without a writer's body being involved.\<close>

lemma data_at_outside:
  assumes "data_at s0 as s" and "\<forall>b. as ! t = Body b \<longrightarrow> is_reader b" and "\<forall>b. a = Body b \<longrightarrow> is_reader b"
  shows "data_at s0 (as[t := a]) s"
proof -
  have "no_writer (as[t := a]) \<longleftrightarrow> no_writer as"
    using assms(2,3) by (auto simp: no_writer_def nth_update split: if_splits)
  then show ?thesis
    using assms by (auto simp: data_at_def nth_update)
qed

text \<open>The only writer inside executes a statement.\<close>

lemma data_at_inside:
  assumes alone: "\<And>u b. u < length as \<Longrightarrow> u \<noteq> t \<Longrightarrow> as ! u \<noteq> Body b" and t: "t < length as"
  shows "mid b s0 s \<Longrightarrow> \<not> is_reader b \<Longrightarrow> data_at s0 (as[t := Body b]) s"
    and "core s = core s1 \<Longrightarrow> data_at s1 (as[t := Leaving r]) s"
  using alone t by (auto simp: data_at_def no_writer_def nth_update)

text \<open>The calls of the methods, as steps of the synchronisation alone.\<close>

lemma rw_call_enter:
  "t < length ps \<Longrightarrow> ps ! t = pos_idle P \<Longrightarrow> \<exists>x. rw_step P x (y, ps) = Some (y, ps[t := enter_pos P b])"
  by (intro exI [of _ "if is_reader b then CallEnterR t else CallEnterW t"]) (simp add: enter_pos_def jump_def)

lemma rw_call_leave:
  "t < length ps \<Longrightarrow> ps ! t = in_pos P b \<Longrightarrow> \<exists>x. rw_step P x (y, ps) = Some (y, ps[t := leave_pos P b])"
  by (intro exI [of _ "if is_reader b then CallLeaveR t else CallLeaveW t"]) (simp add: in_pos_def leave_pos_def jump_def)

context rw_exclusion
begin

lemma conc_alone:
  assumes "conc_inv P s0 n c" and "t < length (pos c)" and "pos c ! t = pos_in_writer P"
    and "u < length (acts c)" and "u \<noteq> t"
  shows "acts c ! u \<noteq> Body b"
proof
  assume b: "acts c ! u = Body b"
  have u: "u < length (pos c)" and "rw_excl P (pos c)"
    using assms(1,4) exclusive by (auto simp: conc_inv_def)
  then have "pos c ! u \<noteq> in_pos P b"
    using rw_exclD [of P "pos c" t u] assms(2,3,5) by (auto simp: in_pos_def)
  moreover have "act_ok P (pos c ! u) (acts c ! u)"
    using assms(1) u by (simp add: conc_inv_def)
  ultimately show False
    using b by (simp add: act_ok_def)
qed

lemma conc_inv_sync:
  assumes inv: "conc_inv P s0 n c" and t: "t < length (pos c)" and a: "\<And>b. acts c ! t \<noteq> Body b"
    and step: "sync_stmt P t c = Some c'"
  shows "conc_inv P s0 n c'"
proof -
  obtain p y where ps: "pstep P (pos c ! t) (Sync (board c)) = Some (p, y)"
    and c': "c' = c\<lparr>board := (board c)\<lparr>Sync := y\<rparr>, pos := (pos c)[t := p]\<rparr>"
    using step by (auto simp: sync_stmt_def split: option.splits)
  have "rw_step P (Run t) (Sync (board c), pos c) = Some (y, (pos c)[t := p])"
    using ps t by simp
  then have "reach (rw_step P) (rw_start P s0 n) (y, (pos c)[t := p])"
    using reach.step [of "rw_step P" "rw_start P s0 n" "(Sync (board c), pos c)"] inv by (simp only: conc_inv_def)
  moreover have "act_ok P q (acts c ! t)" if "act_ok P r (acts c ! t)" for q r
    using that a by (auto simp: act_ok_def split: act.splits)
  ultimately show ?thesis
    using inv t data_at_core [of "board c" "(board c)\<lparr>Sync := y\<rparr>"]
    by (auto simp: conc_inv_def c' nth_update)
qed

lemma conc_inv_start:
  assumes inv: "conc_inv P s0 n c" and t: "t < length (pos c)" "acts c ! t = NoJob" "pos c ! t = pos_idle P" and j: "job_ok j"
  shows "conc_inv P s0 n (c\<lparr>pos := (pos c)[t := enter_pos P (first_stmt j)], acts := (acts c)[t := Entering (first_stmt j)]\<rparr>)"
proof -
  obtain x where "rw_step P x (Sync (board c), pos c) = Some (Sync (board c), (pos c)[t := enter_pos P (first_stmt j)])"
    using rw_call_enter [OF t(1,3)] by blast
  then have "reach (rw_step P) (rw_start P s0 n) (Sync (board c), (pos c)[t := enter_pos P (first_stmt j)])"
    using reach.step [of "rw_step P" "rw_start P s0 n" "(Sync (board c), pos c)"] inv by (simp only: conc_inv_def)
  moreover have "data_at s1 ((acts c)[t := Entering (first_stmt j)]) (board c)" if "data_at s1 (acts c) (board c)" for s1
    using data_at_outside [OF that, of t "Entering (first_stmt j)"] t(2) by simp
  ultimately show ?thesis
    using inv j t(1) by (auto simp: conc_inv_def nth_update act_ok_def)
qed

lemma conc_inv_enter:
  assumes inv: "conc_inv P s0 n c" and t: "t < length (pos c)" "acts c ! t = Entering b" "pos c ! t = in_pos P b"
  shows "conc_inv P s0 n (c\<lparr>acts := (acts c)[t := Body b]\<rparr>)"
proof -
  have "act_ok P (pos c ! t) (acts c ! t)"
    using inv t(1) by (simp add: conc_inv_def)
  then obtain j where j: "job_ok j" "b = first_stmt j"
    using t(2) by (auto simp: act_ok_def)
  have len: "length (acts c) = length (pos c)"
    using inv by (simp add: conc_inv_def)
  have "data_at s1 ((acts c)[t := Body b]) (board c)" if d: "data_at s1 (acts c) (board c)" for s1
  proof (cases "is_reader b")
    case True
    then show ?thesis
      using data_at_outside [OF d, of t "Body b"] t(2) by simp
  next
    case False
    then have alone: "acts c ! u \<noteq> Body b'" if "u < length (acts c)" "u \<noteq> t" for u b'
      using conc_alone [OF inv t(1) _ that] t(3) by (simp add: in_pos_def)
    then have "acts c ! u \<noteq> Body b'" if "u < length (acts c)" for u b'
      using that t(2) by (cases "u = t") auto
    then have "core (board c) = core s1"
      using d by (auto simp: data_at_def no_writer_def)
    then have "mid b s1 (board c)"
      using mid_first [OF j(1)] j(2) by simp
    then show ?thesis
      using data_at_inside(1) [of "acts c" t, OF alone] t(1) len False by simp
  qed
  moreover have "index_ok b"
    using j by (cases j) auto
  ultimately show ?thesis
    using inv t(1,3) by (auto simp: conc_inv_def nth_update act_ok_def)
qed

lemma conc_inv_idle:
  assumes inv: "conc_inv P s0 n c" and t: "t < length (pos c)" "acts c ! t = Leaving r"
  shows "conc_inv P s0 n (c\<lparr>acts := (acts c)[t := NoJob]\<rparr>)"
proof -
  have "data_at s1 ((acts c)[t := NoJob]) (board c)" if "data_at s1 (acts c) (board c)" for s1
    using data_at_outside [OF that, of t NoJob] t(2) by simp
  then show ?thesis
    using inv by (auto simp: conc_inv_def nth_update act_ok_def)
qed

text \<open>What a statement of a thread inside its critical section leaves behind, apart from the data.\<close>

lemma conc_inside:
  assumes inv: "conc_inv P s0 n c" and t: "t < length (pos c)" "acts c ! t = Body b"
  shows "reach (rw_step P) (rw_start P s0 n) (Sync (board c), (pos c)[t := leave_pos P b])"
    and "\<forall>u < length ((pos c)[t := leave_pos P b]). act_ok P ((pos c)[t := leave_pos P b] ! u) ((acts c)[t := Leaving q] ! u)"
    and "index_ok b' \<Longrightarrow> is_reader b' = is_reader b \<Longrightarrow> \<forall>u < length (pos c). act_ok P (pos c ! u) ((acts c)[t := Body b'] ! u)"
    and "\<not> is_reader b \<Longrightarrow> u < length (acts c) \<Longrightarrow> u \<noteq> t \<Longrightarrow> acts c ! u \<noteq> Body b''"
    and "is_reader b \<Longrightarrow> no_writer (acts c)"
    and "index_ok b"
proof -
  have ok: "act_ok P (pos c ! t) (acts c ! t)" and len: "length (acts c) = length (pos c)"
    and r: "reach (rw_step P) (rw_start P s0 n) (Sync (board c), pos c)"
    and oks: "\<forall>t < length (pos c). act_ok P (pos c ! t) (acts c ! t)"
    using inv t(1) by (auto simp: conc_inv_def)
  have p: "pos c ! t = in_pos P b" and "index_ok b"
    using ok t(2) by (simp_all add: act_ok_def)
  then show "index_ok b" by simp
  show "reach (rw_step P) (rw_start P s0 n) (Sync (board c), (pos c)[t := leave_pos P b])"
    using rw_call_leave [OF t(1) p, of "Sync (board c)"] reach.step [OF r] by blast
  show "\<forall>u < length ((pos c)[t := leave_pos P b]). act_ok P ((pos c)[t := leave_pos P b] ! u) ((acts c)[t := Leaving q] ! u)"
    by (rule act_ok_update [OF oks len]) (simp add: act_ok_def)
  show "\<forall>u < length (pos c). act_ok P (pos c ! u) ((acts c)[t := Body b'] ! u)"
    if "index_ok b'" "is_reader b' = is_reader b"
    using oks p that len by (auto simp: nth_update act_ok_def in_pos_def)
  show "acts c ! u \<noteq> Body b''" if "\<not> is_reader b" "u < length (acts c)" "u \<noteq> t"
    using conc_alone [OF inv t(1) _ that(2,3)] p that(1) by (simp add: in_pos_def)
  show "no_writer (acts c)" if b: "is_reader b"
    unfolding no_writer_def
  proof (intro allI impI, rule ccontr)
    fix u d
    assume u: "u < length (acts c)" "acts c ! u = Body d" "\<not> is_reader d"
    then have "pos c ! u = pos_in_writer P" "u \<noteq> t"
      using oks len b t(2) by (auto simp: act_ok_def in_pos_def dest!: spec [of _ u])
    then show False
      using conc_alone [OF inv, of u t b] u(1) t len by auto
  qed
qed

text \<open>A statement of a reader and of a writer: no fault, and the invariant holds again.\<close>

lemma conc_inv_reader:
  assumes inv: "conc_inv P s0 n c" and t: "t < length (pos c)" "acts c ! t = Body b" and b: "is_reader b"
  shows "\<exists>c'. conc_step P (Sched t) c = Some c' \<and> conc_inv P s0 n c'"
proof -
  note inside = conc_inside [OF inv t]
  have r: "reach (rw_step P) (rw_start P s0 n) (Sync (board c), pos c)" and len: "length (acts c) = length (pos c)"
    using inv by (auto simp: conc_inv_def)
  obtain s1 where h: "history (clog c) s1" and d: "data_at s1 (acts c) (board c)"
    using inv by (auto simp: conc_inv_def)
  have "core (board c) = core s1"
    using d inside(5) [OF b] by (simp add: data_at_def)
  then have "km_wf (board c)"
    using core_ring h by (auto simp: history_def)
  from body_reader [OF this b inside(6)]
  obtain nxt s' where s': "body_step b (board c) = Inr (nxt, s')" "Sync s' = Sync (board c)" "core s' = core (board c)"
    and nxt: "case nxt of Inl b' \<Rightarrow> is_reader b' \<and> index_ok b' | Inr r \<Rightarrow> \<exists>v. r = Got v \<and> (v \<in> set (km_contents (board c)) \<or> v = - 1)"
    by blast
  have data: "data_at s1 ((acts c)[t := x]) s'" if "\<forall>d. x = Body d \<longrightarrow> is_reader d" for x
    using data_at_outside [of s1 "acts c" s' t x] data_at_core [OF s'(3)] d t(2) b that by auto
  show ?thesis
  proof (cases nxt)
    case (Inl b')
    then show ?thesis
      using nxt s' t h r len inside(3) [of b'] b data [of "Body b'"] by (auto simp: conc_inv_def)
  next
    case (Inr q)
    then show ?thesis
      using s' t h len inside(1,2) b data [of "Leaving q"] by (auto simp: conc_inv_def)
  qed
qed

lemma conc_inv_writer:
  assumes inv: "conc_inv P s0 n c" and t: "t < length (pos c)" "acts c ! t = Body b" and b: "\<not> is_reader b"
  shows "\<exists>c'. conc_step P (Sched t) c = Some c' \<and> conc_inv P s0 n c'"
proof -
  note inside = conc_inside [OF inv t]
  have r: "reach (rw_step P) (rw_start P s0 n) (Sync (board c), pos c)" and len: "length (acts c) = length (pos c)"
    using inv by (auto simp: conc_inv_def)
  obtain s1 where h: "history (clog c) s1" and d: "data_at s1 (acts c) (board c)"
    using inv by (auto simp: conc_inv_def)
  have "km_wf s1" "mid b s1 (board c)"
    using d t len b h by (auto simp: data_at_def history_def)
  from body_writer [OF this b]
  obtain nxt s' where s': "body_step b (board c) = Inr (nxt, s')" "Sync s' = Sync (board c)"
    and nxt: "case nxt of Inl b' \<Rightarrow> mid b' s1 s' \<and> stmt_op b' = stmt_op b \<and> \<not> is_reader b'
     | Inr r \<Rightarrow> core s' = core (km_do (stmt_op b) s1) \<and>
        bq_step 5 (stmt_op b) (km_contents s1) = (r, km_contents (km_do (stmt_op b) s1)) \<and>
        km_wf (km_do (stmt_op b) s1) \<and> PerformWriter s' = PerformWriter s1 + 1"
    by blast
  show ?thesis
  proof (cases nxt)
    case (Inl b')
    then have "data_at s1 ((acts c)[t := Body b']) s'"
      using data_at_inside(1) [of "acts c" t b' s1 s', OF inside(4)] nxt t(1) len b by simp
    moreover have "index_ok b'"
      using Inl nxt by (cases b') auto
    ultimately show ?thesis
      using Inl nxt s' t h r len inside(3) [of b'] b by (auto simp: conc_inv_def)
  next
    case (Inr q)
    then have "data_at (km_do (stmt_op b) s1) ((acts c)[t := Leaving q]) s'"
      using data_at_inside(2) [of "acts c" t s' "km_do (stmt_op b) s1" q, OF inside(4)] nxt t(1) len b by simp
    moreover have "history (clog c @ [(stmt_op b, q)]) (km_do (stmt_op b) s1)"
      using history_snoc [OF h] nxt Inr by simp
    ultimately show ?thesis
      using Inr s' t inside(1,2) len b by (auto simp: conc_inv_def)
  qed
qed

lemma conc_inv_step:
  assumes inv: "conc_inv P s0 n c" and step: "conc_step P x c = Some c'"
  shows "conc_inv P s0 n c'"
proof (cases x)
  case (Start t j)
  then show ?thesis
    using step conc_inv_start [OF inv] by (auto split: if_splits)
next
  case (Sched t)
  then have t: "t < length (pos c)"
    using step by (auto split: if_splits)
  show ?thesis
  proof (cases "acts c ! t")
    case (Body b)
    then show ?thesis
      using step Sched conc_inv_reader [OF inv t Body] conc_inv_writer [OF inv t Body] by (cases "is_reader b") auto
  qed (use step Sched t conc_inv_sync [OF inv t] conc_inv_enter [OF inv t] conc_inv_idle [OF inv t] in \<open>auto split: if_splits\<close>)
qed

lemma conc_inv_reach:
  assumes "reach (conc_step P) (conc_start P s0 n) c"
  shows "conc_inv P s0 n c"
  using assms
proof (induction rule: reach_invariant)
  case start
  let ?s = "board (conc_start P s0 n)"
  have "history [] ?s"
    by (simp add: history_def conc_start_def km_initial)
  moreover have "data_at ?s (replicate n NoJob) ?s"
    by (simp add: data_at_def)
  ultimately show ?case
    by (auto simp: conc_inv_def conc_start_def rw_start_def act_ok_def reach.start intro!: exI)
qed (rule conc_inv_step)

lemma conc_length:
  assumes "reach (conc_step P) (conc_start P s0 n) c"
  shows "length (pos c) = n" and "length (acts c) = n"
  using conc_inv_reach [OF assms] rw_reach_length [of P s0 "replicate n (pos_idle P)"] by (auto simp: conc_inv_def rw_start_def)

lemma conc_history:
  assumes "reach (conc_step P) (conc_start P s0 n) c"
  shows "\<exists>q. run_ops (bq_step 5) (map fst (clog c)) [] = (map snd (clog c), q) \<and>
    (no_writer (acts c) \<longrightarrow> km_wf (board c) \<and> km_contents (board c) = q \<and>
      PerformWriter (board c) = of_nat (length (clog c)))"
proof -
  obtain s1 where h: "history (clog c) s1" and d: "data_at s1 (acts c) (board c)"
    using conc_inv_reach [OF assms] by (auto simp: conc_inv_def)
  have "km_wf (board c) \<and> km_contents (board c) = km_contents s1 \<and>
      PerformWriter (board c) = of_nat (length (clog c))" if "no_writer (acts c)"
  proof -
    have "core (board c) = core s1"
      using d that by (simp add: data_at_def)
    then show ?thesis
      using core_ring [of "board c" s1] h by (simp add: history_def core_def)
  qed
  then show ?thesis
    using h by (auto simp: history_def)
qed

lemma conc_no_fault:
  assumes "reach (conc_step P) (conc_start P s0 n) c" and "t < n" and "acts c ! t = Body b"
  shows "\<exists>c'. conc_step P (Sched t) c = Some c'"
proof -
  have inv: "conc_inv P s0 n c"
    by (rule conc_inv_reach [OF assms(1)])
  have "t < length (pos c)"
    using assms(2) conc_length [OF assms(1)] by simp
  then show ?thesis
    using conc_inv_reader [OF inv _ assms(3)] conc_inv_writer [OF inv _ assms(3)] by blast
qed

text \<open>At every moment, also in the middle of a critical section, the indices are in range.\<close>

lemma conc_ring:
  assumes "reach (conc_step P) (conc_start P s0 n) c"
  shows "ring_inv 5 (RingBuffer (board c)) (RingBufferCurrentIndex (board c)) (RingBufferCount (board c))"
proof -
  obtain s1 where h: "history (clog c) s1" and d: "data_at s1 (acts c) (board c)"
    using conc_inv_reach [OF assms] by (auto simp: conc_inv_def)
  have inv: "ring_inv 5 (RingBuffer s1) (RingBufferCurrentIndex s1) (RingBufferCount s1)"
    and some: "km_contents s1 \<noteq> [] \<Longrightarrow> 0 < unat (RingBufferCount s1)"
    using h km_length_contents [of s1] by (auto simp: history_def km_wf_def intro: Nat.gr0I)
  have "mid b s1 s \<Longrightarrow> ring_inv 5 (RingBuffer s) (RingBufferCurrentIndex s) (RingBufferCount s)" for b and s :: "'b kboard"
    using inv some by (cases b) (auto simp: core_def ring_inv_def unat_dec km_popped_def km_pushed_def)
  moreover have "core (board c) = core s1 \<Longrightarrow> ?thesis"
    using inv by (simp add: core_def)
  ultimately show ?thesis
    using d by (auto simp: data_at_def no_writer_def)
qed

lemma conc_count: "reach (conc_step P) (conc_start P s0 n) c \<Longrightarrow> unat (RingBufferCount (board c)) \<le> 5"
  using conc_ring by (simp add: ring_inv_def)

end

interpretation counting2: rw_threads counting_sem "\<lambda>n. n" 2
  by unfold_locales simp

section \<open>Properties\<close>

text \<open>
  C1: The concurrent kboard is linearizable. Under any solution that keeps writers exclusive, for any
  number of threads and any interleaving of the statements of handlers and synchronisation, the
  results of the enqueues and dequeues are those of a sequential bounded queue in the order in which
  their critical sections ended; whenever no writer is inside, the ring is well formed and holds
  exactly that queue, and \<open>PerformWriter\<close> is the number of these operations (modulo \<open>2^32\<close>).
\<close>

theorem kboard_linearizable:
  assumes "rw_exclusion P y n" and "reach (conc_step P) (conc_start P y n) c"
  shows "\<exists>q. run_ops (bq_step 5) (map fst (clog c)) [] = (map snd (clog c), q) \<and>
    accepted (map fst (clog c)) (map snd (clog c)) = received (map snd (clog c)) @ q \<and>
    (no_writer (acts c) \<longrightarrow> km_wf (board c) \<and> km_contents (board c) = q \<and>
      PerformWriter (board c) = of_nat (length (clog c)))"
  using rw_exclusion.conc_history [OF assms] bq_run_fifo by fastforce

text \<open>
  C13: Under any solution that keeps writers exclusive (\<open>rw_exclusion\<close>: solutions 1 and 2, not solution 3) no handler
  faults under concurrency: a thread inside its critical section can always execute its next statement, so no
  access leaves the ring; and at every moment, also in the middle of a critical section, \<open>RingBufferCount\<close>, which
  \<open>KboardCounter_Show\<close> prints without synchronisation, is between 0 and 5.
\<close>

theorem kboard_conc_safe:
  assumes "rw_exclusion P y n" and "reach (conc_step P) (conc_start P y n) c"
  shows "(\<forall>t < n. \<forall>b. acts c ! t = Body b \<longrightarrow> (\<exists>c'. conc_step P (Sched t) c = Some c')) \<and>
    unat (RingBufferCount (board c)) \<le> 5"
  using rw_exclusion.conc_no_fault [OF assms] rw_exclusion.conc_count [OF assms] by blast

text \<open>An example run: one thread enqueues 7 while another one waits to dequeue.\<close>

definition conc_demo :: "choice list" where
  "conc_demo = [Start 0 (Copy 7), Sched 0, Sched 0, Start 1 Paste, Sched 0, Sched 0, Sched 0, Sched 0, Sched 0]"

lemmas conc_eval = conc_start_def enter_pos_def in_pos_def leave_pos_def sync_stmt_def sem1_defs
  InitializeSyncSolution1_def counting_sem_def RING_BUFFER_SIZE_def RING_BUFFER_INIT_VALUE_def c_eval numeral_2_eq_2

lemma conc_demo_run:
  "\<exists>c. exec (conc_step (sol1 counting_sem)) conc_demo
     (conc_start (sol1 counting_sem) (InitializeSyncSolution1 counting_sem) 2) = Some c \<and>
    clog c = [(Enq 7, Accepted)] \<and> acts c = [Leaving Accepted, Entering PLoad]"
  by (simp add: conc_demo_def conc_eval)

lemma conc_demo_reach:
  obtains c where "reach (conc_step (sol1 counting_sem)) (conc_start (sol1 counting_sem) (InitializeSyncSolution1 counting_sem) 2) c"
    and "clog c = [(Enq 7, Accepted)]" and "acts c = [Leaving Accepted, Entering PLoad]"
  using conc_demo_run by (elim exE conjE) (rule that [OF exec_reach])

theorem kboard_linearizable_witness:
  "\<exists>c. reach (conc_step (sol1 counting_sem)) (conc_start (sol1 counting_sem) (InitializeSyncSolution1 counting_sem) 2) c \<and>
    acts c = [Leaving Accepted, Entering PLoad] \<and> km_contents (board c) = [7] \<and> PerformWriter (board c) = 1"
proof -
  obtain c where c: "reach (conc_step (sol1 counting_sem)) (conc_start (sol1 counting_sem) (InitializeSyncSolution1 counting_sem) 2) c"
    and log: "clog c = [(Enq 7, Accepted)]" "acts c = [Leaving Accepted, Entering PLoad]"
    by (rule conc_demo_reach)
  have "no_writer (acts c)"
    by (auto simp: no_writer_def log less_Suc_eq)
  then show ?thesis
    using kboard_linearizable [OF counting2.s1.rw_exclusion_axioms c] c log by auto
qed

theorem kboard_conc_safe_witness:
  "\<exists>c. reach (conc_step (sol1 counting_sem)) (conc_start (sol1 counting_sem) (InitializeSyncSolution1 counting_sem) 2) c \<and>
    acts c = [Leaving Accepted, Entering PLoad] \<and> unat (RingBufferCount (board c)) \<le> 5"
proof -
  obtain c where c: "reach (conc_step (sol1 counting_sem)) (conc_start (sol1 counting_sem) (InitializeSyncSolution1 counting_sem) 2) c"
    and log: "acts c = [Leaving Accepted, Entering PLoad]"
    by (rule conc_demo_reach)
  then show ?thesis
    using kboard_conc_safe [OF counting2.s1.rw_exclusion_axioms c] by blast
qed

text \<open>
  C33: Under any solution that keeps writers exclusive (\<open>rw_exclusion\<close>: solutions 1 and 2, not solution 3) a reader
  never sees a write in progress: while a reader is at any statement of its critical section no writer is in its own and the
  ring is well formed; the reader can go on, and its statement leaves ring, count and index alone. The value it ends
  with is the one in the slot it has drawn, and that is a queued item or \<open>-1\<close>.
\<close>

theorem kboard_reader_consistent:
  assumes "rw_exclusion P y n" and "reach (conc_step P) (conc_start P y n) c"
    and "t < n" and "acts c ! t = Body b" and "is_reader b"
  shows "no_writer (acts c) \<and> km_wf (board c) \<and>
    (\<exists>c'. conc_step P (Sched t) c = Some c' \<and> core (board c') = core (board c) \<and>
      (case b of
         RSlot i \<Rightarrow> unat i < 5 \<and> acts c' ! t = Leaving (Got (RingBuffer (board c) ! unat i)) \<and>
           (RingBuffer (board c) ! unat i \<in> set (km_contents (board c)) \<or> RingBuffer (board c) ! unat i = - 1)
       | _ \<Rightarrow> \<exists>b'. acts c' ! t = Body b' \<and> is_reader b'))"
proof -
  have inv: "conc_inv P y n c"
    using rw_exclusion.conc_inv_reach [OF assms(1,2)] .
  have t: "t < length (pos c)" "t < length (acts c)"
    using rw_exclusion.conc_length [OF assms(1,2)] assms(3) by simp_all
  note inside = rw_exclusion.conc_inside [OF assms(1) inv t(1) assms(4)]
  then have nw: "no_writer (acts c)" and ok: "index_ok b"
    using assms(5) by simp_all
  then have wf: "km_wf (board c)"
    using rw_exclusion.conc_history [OF assms(1,2)] by blast
  then have len: "length (RingBuffer (board c)) = 5"
    by (simp add: km_wf_def ring_inv_def)
  show ?thesis
    using nw wf ok assms(4,5) t len by (cases b) (auto simp: arr_get_small core_def dest: km_slot [OF wf])
qed

text \<open>Two readers, interleaved so that both load \<open>PerformReader\<close> before either stores it.\<close>

definition two_reads :: "choice list" where
  "two_reads = [Start 0 (Read 0), Sched 0, Sched 0, Sched 0, Sched 0, Sched 0, Sched 0,
     Start 1 (Read 1), Sched 1, Sched 1, Sched 1, Sched 1, Sched 1,
     Sched 0, Sched 1, Sched 0, Sched 1]"

definition two_leaves :: "choice list" where
  "two_leaves = [Sched 0, Sched 1,
     Sched 0, Sched 0, Sched 0, Sched 0, Sched 0,
     Sched 1, Sched 1, Sched 1, Sched 1, Sched 1, Sched 1]"

lemma two_reads_run:
  "exec (conc_step (sol1 counting_sem)) two_reads
     (conc_start (sol1 counting_sem) (InitializeSyncSolution1 counting_sem) 2) =
   Some \<lparr>board = \<lparr>Sync = \<lparr>SemaphoreMutex1 = 1, SemaphoreWriter1 = 0, ReaderCount1 = 2, PerformDelay1 = 3\<rparr>,
       RingBuffer = replicate 5 (- 1), RingBufferCount = 0, RingBufferCurrentIndex = 0, PerformWriter = 0, PerformReader = 1\<rparr>,
     pos = [InR1, InR1], acts = [Body (RSlot 0), Body (RSlot 1)], clog = []\<rparr>"
  by (simp add: two_reads_def conc_eval)

theorem kboard_reader_consistent_witness:
  "\<exists>c c'. reach (conc_step (sol1 counting_sem)) (conc_start (sol1 counting_sem) (InitializeSyncSolution1 counting_sem) 2) c \<and>
    acts c = [Body (RSlot 0), Body (RSlot 1)] \<and> km_wf (board c) \<and>
    conc_step (sol1 counting_sem) (Sched 1) c = Some c' \<and> acts c' ! 1 = Leaving (Got (- 1))"
proof -
  obtain c where c: "reach (conc_step (sol1 counting_sem)) (conc_start (sol1 counting_sem) (InitializeSyncSolution1 counting_sem) 2) c"
    and acts: "acts c = [Body (RSlot 0), Body (RSlot 1)]" and ring: "RingBuffer (board c) = replicate 5 (- 1)"
    using exec_reach [OF two_reads_run] by fastforce
  obtain c' where "km_wf (board c)" "conc_step (sol1 counting_sem) (Sched 1) c = Some c'" "acts c' ! 1 = Leaving (Got (- 1))"
    using kboard_reader_consistent [OF counting2.s1.rw_exclusion_axioms c, of 1 "RSlot 1"] by (auto simp: acts ring)
  then show ?thesis
    using c acts by blast
qed

text \<open>
  \<open>PerformReader\<close> may lose an increment: readers are inside together, and the increment is a load and
  a store. Two reads that both complete can leave the counter, which \<open>dump\<close> prints, at 1.
\<close>

lemma kboard_perform_reader_lost:
  "\<exists>c. exec (conc_step (sol1 counting_sem)) (two_reads @ two_leaves)
      (conc_start (sol1 counting_sem) (InitializeSyncSolution1 counting_sem) 2) = Some c \<and>
    length (filter (\<lambda>x. \<exists>t \<in> {0, 1}. \<exists>i \<in> {0, 1}. x = Start t (Read i)) (two_reads @ two_leaves)) = 2 \<and>
    acts c = [NoJob, NoJob] \<and> PerformReader (board c) = 1"
proof -
  have "length (filter (\<lambda>x. \<exists>t \<in> {0, 1}. \<exists>i \<in> {0, 1}. x = Start t (Read i)) (two_reads @ two_leaves)) = 2"
    by (simp add: two_reads_def two_leaves_def)
  then show ?thesis
    by (simp add: exec_append two_reads_run) (simp add: two_leaves_def conc_eval)
qed

end
