(* ===== verification/Sync3.thy ===== *)
theory Sync3
  imports Rw_Sync
begin

text \<open>
  Solution 3 of \<open>lab2/KboardModule.c\<close> (\<open>SYNC_SOLUTION == 3\<close>), which is meant to serve readers and
  writers in turn: all counters are kept under \<open>SemaphoreMutex\<close>, a thread that may not enter counts
  itself as waiting and sleeps on \<open>SemaphoreReader\<close> or \<open>SemaphoreWriter\<close>, and a leaving thread hands
  out permits to those that wait.

  What holds is proved for any number of threads: the mutex is exclusive and the four counters are
  exact (\<open>sync3_bookkeeping\<close>), writers among themselves exclude each other (\<open>sync3_writers_exclusive\<close>).
  With readers and writers together mutual exclusion fails (\<open>sync3_exclusion_fails\<close>). Field and method
  names carry the number of the solution.
\<close>

section \<open>State and methods\<close>

record 'sm sync3 =
  SemaphoreMutex3 :: 'sm
  SemaphoreWriter3 :: 'sm
  SemaphoreReader3 :: 'sm
  WriterCount3 :: cint
  ReaderCount3 :: cint
  WriterWaitingCount3 :: cint
  ReaderWaitingCount3 :: cint
  PerformDelay3 :: cint

definition InitializeSyncSolution3 :: "'sm sem_ops \<Rightarrow> 'sm sync3" where
  "InitializeSyncSolution3 K =
     \<lparr>SemaphoreMutex3 = InitializeSemaphore K 1, SemaphoreWriter3 = InitializeSemaphore K 0,
      SemaphoreReader3 = InitializeSemaphore K 0, WriterCount3 = 0, ReaderCount3 = 0,
      WriterWaitingCount3 = 0, ReaderWaitingCount3 = 0, PerformDelay3 = 1\<rparr>"

definition down_Mutex3 :: "'sm sem_ops \<Rightarrow> 'sm sync3 \<Rightarrow> 'sm sync3 option" where
  "down_Mutex3 K s = map_option (\<lambda>m. s\<lparr>SemaphoreMutex3 := m\<rparr>) (sem_down K (SemaphoreMutex3 s))"

definition up_Mutex3 :: "'sm sem_ops \<Rightarrow> 'sm sync3 \<Rightarrow> 'sm sync3" where
  "up_Mutex3 K s = s\<lparr>SemaphoreMutex3 := sem_up K (SemaphoreMutex3 s)\<rparr>"

definition down_Writer3 :: "'sm sem_ops \<Rightarrow> 'sm sync3 \<Rightarrow> 'sm sync3 option" where
  "down_Writer3 K s = map_option (\<lambda>w. s\<lparr>SemaphoreWriter3 := w\<rparr>) (sem_down K (SemaphoreWriter3 s))"

definition up_Writer3 :: "'sm sem_ops \<Rightarrow> 'sm sync3 \<Rightarrow> 'sm sync3" where
  "up_Writer3 K s = s\<lparr>SemaphoreWriter3 := sem_up K (SemaphoreWriter3 s)\<rparr>"

definition down_Reader3 :: "'sm sem_ops \<Rightarrow> 'sm sync3 \<Rightarrow> 'sm sync3 option" where
  "down_Reader3 K s = map_option (\<lambda>r. s\<lparr>SemaphoreReader3 := r\<rparr>) (sem_down K (SemaphoreReader3 s))"

definition up_Reader3 :: "'sm sem_ops \<Rightarrow> 'sm sync3 \<Rightarrow> 'sm sync3" where
  "up_Reader3 K s = s\<lparr>SemaphoreReader3 := sem_up K (SemaphoreReader3 s)\<rparr>"

text \<open>The conditions under which a writer and a reader have to wait.\<close>

definition writer_waits3 :: "'sm sync3 \<Rightarrow> bool" where
  "writer_waits3 s \<longleftrightarrow> 0 <s WriterCount3 s \<or> 0 <s ReaderCount3 s \<or>
     0 <s WriterWaitingCount3 s \<or> 0 <s ReaderWaitingCount3 s"

definition reader_waits3 :: "'sm sync3 \<Rightarrow> bool" where
  "reader_waits3 s \<longleftrightarrow> 0 <s WriterWaitingCount3 s \<or> 0 <s WriterCount3 s"

definition EnterCriticalSection_Writer3 :: "'sm sem_ops \<Rightarrow> 'sm sync3 \<Rightarrow> 'sm sync3 option" where
  "EnterCriticalSection_Writer3 K s = do {
     s \<leftarrow> down_Mutex3 K s;
     s \<leftarrow> (if writer_waits3 s then do {
         let s = s\<lparr>WriterWaitingCount3 := WriterWaitingCount3 s + 1\<rparr>;
         let s = up_Mutex3 K s;
         s \<leftarrow> down_Writer3 K s;
         s \<leftarrow> down_Mutex3 K s;
         Some (s\<lparr>WriterWaitingCount3 := WriterWaitingCount3 s - 1\<rparr>) }
       else Some s);
     let s = s\<lparr>WriterCount3 := WriterCount3 s + 1\<rparr>;
     Some (up_Mutex3 K s) }"

definition EnterCriticalSection_Reader3 :: "'sm sem_ops \<Rightarrow> 'sm sync3 \<Rightarrow> 'sm sync3 option" where
  "EnterCriticalSection_Reader3 K s = do {
     s \<leftarrow> down_Mutex3 K s;
     s \<leftarrow> (if reader_waits3 s then do {
         let s = s\<lparr>ReaderWaitingCount3 := ReaderWaitingCount3 s + 1\<rparr>;
         let s = up_Mutex3 K s;
         s \<leftarrow> down_Reader3 K s;
         s \<leftarrow> down_Mutex3 K s;
         Some (s\<lparr>ReaderWaitingCount3 := ReaderWaitingCount3 s - 1\<rparr>) }
       else Some s);
     let s = s\<lparr>ReaderCount3 := ReaderCount3 s + 1\<rparr>;
     Some (up_Mutex3 K s) }"

text \<open>The loop that hands a permit to every waiting reader.\<close>

function up_Readers3 :: "'sm sem_ops \<Rightarrow> cint \<Rightarrow> 'sm sync3 \<Rightarrow> 'sm sync3" where
  "up_Readers3 K index s =
     (if index <s ReaderWaitingCount3 s then up_Readers3 K (index + 1) (up_Reader3 K s) else s)"
  by pat_completeness auto
termination
  by (relation "measure (\<lambda>(K, index, s). nat (sint (ReaderWaitingCount3 s) - sint index))")
    (auto simp: up_Reader3_def dest: loop_bound)
declare up_Readers3.simps [simp del]

definition LeaveCriticalSection_Writer3 :: "'sm sem_ops \<Rightarrow> 'sm sync3 \<Rightarrow> 'sm sync3 option" where
  "LeaveCriticalSection_Writer3 K s = do {
     s \<leftarrow> down_Mutex3 K s;
     let s = s\<lparr>WriterCount3 := WriterCount3 s - 1\<rparr>;
     let s = (if 0 <s ReaderWaitingCount3 s then up_Readers3 K 0 s
       else if 0 <s WriterWaitingCount3 s then up_Writer3 K s else s);
     Some (up_Mutex3 K s) }"

definition LeaveCriticalSection_Reader3 :: "'sm sem_ops \<Rightarrow> 'sm sync3 \<Rightarrow> 'sm sync3 option" where
  "LeaveCriticalSection_Reader3 K s = do {
     s \<leftarrow> down_Mutex3 K s;
     let s = s\<lparr>ReaderCount3 := ReaderCount3 s - 1\<rparr>;
     let s = (if ReaderCount3 s = 0 \<and> 0 <s WriterWaitingCount3 s then up_Writer3 K s else s);
     Some (up_Mutex3 K s) }"

text \<open>
  The positions: one per statement, named by the method and the statement; the positions of the loop
  carry the local variable \<open>index\<close>.
\<close>

datatype pc3 =
    Idle3
  | EW3_down_Mutex | EW3_if | EW3_inc_waiting | EW3_up_Mutex_wait | EW3_down_Writer | EW3_down_Mutex_again
  | EW3_dec_waiting | EW3_inc | EW3_up_Mutex | InW3
  | LW3_down_Mutex | LW3_dec | LW3_if | LW3_for cint | LW3_up_Reader cint | LW3_else_if | LW3_up_Writer
  | LW3_up_Mutex
  | ER3_down_Mutex | ER3_if | ER3_inc_waiting | ER3_up_Mutex_wait | ER3_down_Reader | ER3_down_Mutex_again
  | ER3_dec_waiting | ER3_inc | ER3_up_Mutex | InR3
  | LR3_down_Mutex | LR3_dec | LR3_if | LR3_up_Writer | LR3_up_Mutex

fun step3 :: "'sm sem_ops \<Rightarrow> pc3 \<Rightarrow> 'sm sync3 \<Rightarrow> (pc3 \<times> 'sm sync3) option" where
  "step3 K Idle3 s = None"
| "step3 K EW3_down_Mutex s = map_option (Pair EW3_if) (down_Mutex3 K s)"
| "step3 K EW3_if s = Some (if writer_waits3 s then EW3_inc_waiting else EW3_inc, s)"
| "step3 K EW3_inc_waiting s = Some (EW3_up_Mutex_wait, s\<lparr>WriterWaitingCount3 := WriterWaitingCount3 s + 1\<rparr>)"
| "step3 K EW3_up_Mutex_wait s = Some (EW3_down_Writer, up_Mutex3 K s)"
| "step3 K EW3_down_Writer s = map_option (Pair EW3_down_Mutex_again) (down_Writer3 K s)"
| "step3 K EW3_down_Mutex_again s = map_option (Pair EW3_dec_waiting) (down_Mutex3 K s)"
| "step3 K EW3_dec_waiting s = Some (EW3_inc, s\<lparr>WriterWaitingCount3 := WriterWaitingCount3 s - 1\<rparr>)"
| "step3 K EW3_inc s = Some (EW3_up_Mutex, s\<lparr>WriterCount3 := WriterCount3 s + 1\<rparr>)"
| "step3 K EW3_up_Mutex s = Some (InW3, up_Mutex3 K s)"
| "step3 K InW3 s = None"
| "step3 K LW3_down_Mutex s = map_option (Pair LW3_dec) (down_Mutex3 K s)"
| "step3 K LW3_dec s = Some (LW3_if, s\<lparr>WriterCount3 := WriterCount3 s - 1\<rparr>)"
| "step3 K LW3_if s = Some (if 0 <s ReaderWaitingCount3 s then LW3_for 0 else LW3_else_if, s)"
| "step3 K (LW3_for index) s =
     Some (if index <s ReaderWaitingCount3 s then LW3_up_Reader index else LW3_up_Mutex, s)"
| "step3 K (LW3_up_Reader index) s = Some (LW3_for (index + 1), up_Reader3 K s)"
| "step3 K LW3_else_if s = Some (if 0 <s WriterWaitingCount3 s then LW3_up_Writer else LW3_up_Mutex, s)"
| "step3 K LW3_up_Writer s = Some (LW3_up_Mutex, up_Writer3 K s)"
| "step3 K LW3_up_Mutex s = Some (Idle3, up_Mutex3 K s)"
| "step3 K ER3_down_Mutex s = map_option (Pair ER3_if) (down_Mutex3 K s)"
| "step3 K ER3_if s = Some (if reader_waits3 s then ER3_inc_waiting else ER3_inc, s)"
| "step3 K ER3_inc_waiting s = Some (ER3_up_Mutex_wait, s\<lparr>ReaderWaitingCount3 := ReaderWaitingCount3 s + 1\<rparr>)"
| "step3 K ER3_up_Mutex_wait s = Some (ER3_down_Reader, up_Mutex3 K s)"
| "step3 K ER3_down_Reader s = map_option (Pair ER3_down_Mutex_again) (down_Reader3 K s)"
| "step3 K ER3_down_Mutex_again s = map_option (Pair ER3_dec_waiting) (down_Mutex3 K s)"
| "step3 K ER3_dec_waiting s = Some (ER3_inc, s\<lparr>ReaderWaitingCount3 := ReaderWaitingCount3 s - 1\<rparr>)"
| "step3 K ER3_inc s = Some (ER3_up_Mutex, s\<lparr>ReaderCount3 := ReaderCount3 s + 1\<rparr>)"
| "step3 K ER3_up_Mutex s = Some (InR3, up_Mutex3 K s)"
| "step3 K InR3 s = None"
| "step3 K LR3_down_Mutex s = map_option (Pair LR3_dec) (down_Mutex3 K s)"
| "step3 K LR3_dec s = Some (LR3_if, s\<lparr>ReaderCount3 := ReaderCount3 s - 1\<rparr>)"
| "step3 K LR3_if s =
     Some (if ReaderCount3 s = 0 \<and> 0 <s WriterWaitingCount3 s then LR3_up_Writer else LR3_up_Mutex, s)"
| "step3 K LR3_up_Writer s = Some (LR3_up_Mutex, up_Writer3 K s)"
| "step3 K LR3_up_Mutex s = Some (Idle3, up_Mutex3 K s)"

definition sol3 :: "'sm sem_ops \<Rightarrow> (pc3, 'sm sync3) sync_ops" where
  "sol3 K = \<lparr>pos_idle = Idle3, pos_enter_writer = EW3_down_Mutex, pos_in_writer = InW3,
     pos_leave_writer = LW3_down_Mutex, pos_enter_reader = ER3_down_Mutex, pos_in_reader = InR3,
     pos_leave_reader = LR3_down_Mutex, pstep = step3 K\<rparr>"

lemma sol3_simps [simp]:
  "pos_idle (sol3 K) = Idle3" "pos_enter_writer (sol3 K) = EW3_down_Mutex"
  "pos_in_writer (sol3 K) = InW3" "pos_leave_writer (sol3 K) = LW3_down_Mutex"
  "pos_enter_reader (sol3 K) = ER3_down_Mutex" "pos_in_reader (sol3 K) = InR3"
  "pos_leave_reader (sol3 K) = LR3_down_Mutex" "pstep (sol3 K) = step3 K"
  by (simp_all add: sol3_def)

lemmas sem3_defs = down_Mutex3_def up_Mutex3_def down_Writer3_def up_Writer3_def
  down_Reader3_def up_Reader3_def

section \<open>The counters are exact\<close>

fun has_mutex3 :: "pc3 \<Rightarrow> bool" where
  "has_mutex3 Idle3 = False"
| "has_mutex3 EW3_down_Mutex = False"
| "has_mutex3 EW3_down_Writer = False"
| "has_mutex3 EW3_down_Mutex_again = False"
| "has_mutex3 InW3 = False"
| "has_mutex3 LW3_down_Mutex = False"
| "has_mutex3 ER3_down_Mutex = False"
| "has_mutex3 ER3_down_Reader = False"
| "has_mutex3 ER3_down_Mutex_again = False"
| "has_mutex3 InR3 = False"
| "has_mutex3 LR3_down_Mutex = False"
| "has_mutex3 _ = True"

fun writing3 :: "pc3 \<Rightarrow> bool" where
  "writing3 EW3_up_Mutex = True"
| "writing3 InW3 = True"
| "writing3 LW3_down_Mutex = True"
| "writing3 LW3_dec = True"
| "writing3 _ = False"

fun reading3 :: "pc3 \<Rightarrow> bool" where
  "reading3 ER3_up_Mutex = True"
| "reading3 InR3 = True"
| "reading3 LR3_down_Mutex = True"
| "reading3 LR3_dec = True"
| "reading3 _ = False"

fun waiting_writer3 :: "pc3 \<Rightarrow> bool" where
  "waiting_writer3 EW3_up_Mutex_wait = True"
| "waiting_writer3 EW3_down_Writer = True"
| "waiting_writer3 EW3_down_Mutex_again = True"
| "waiting_writer3 EW3_dec_waiting = True"
| "waiting_writer3 _ = False"

fun waiting_reader3 :: "pc3 \<Rightarrow> bool" where
  "waiting_reader3 ER3_up_Mutex_wait = True"
| "waiting_reader3 ER3_down_Reader = True"
| "waiting_reader3 ER3_down_Mutex_again = True"
| "waiting_reader3 ER3_dec_waiting = True"
| "waiting_reader3 _ = False"

definition inv3 :: "('sm \<Rightarrow> nat) \<Rightarrow> 'sm sync3 \<Rightarrow> pc3 list \<Rightarrow> bool" where
  "inv3 val s ps \<longleftrightarrow> lock_tally has_mutex3 (val (SemaphoreMutex3 s)) ps \<and>
     tally writing3 (WriterCount3 s) ps \<and> tally reading3 (ReaderCount3 s) ps \<and>
     tally waiting_writer3 (WriterWaitingCount3 s) ps \<and> tally waiting_reader3 (ReaderWaitingCount3 s) ps"

lemma inv3_call:
  assumes inv: "inv3 val s ps" and t: "t < length ps"
    and call: "(ps ! t, q) \<in> {(Idle3, EW3_down_Mutex), (Idle3, ER3_down_Mutex), (InW3, LW3_down_Mutex), (InR3, LR3_down_Mutex)}"
  shows "inv3 val s (ps[t := q])"
  using inv call unfolding inv3_def
  by (intro conjI lock_moves(1) [OF t] tally_moves(1) [OF _ t]) auto

context kernel_semaphore
begin

lemma inv3_step:
  assumes inv: "inv3 val s ps" and t: "t < length ps" "ps ! t = p" and step: "step3 K p s = Some (q, s')"
  shows "inv3 val s' (ps[t := q])"
  unfolding inv3_def
proof (intro conjI)
  have m: "lock_tally has_mutex3 (val (SemaphoreMutex3 s)) ps"
    and c1: "tally writing3 (WriterCount3 s) ps" and c2: "tally reading3 (ReaderCount3 s) ps"
    and c3: "tally waiting_writer3 (WriterWaitingCount3 s) ps"
    and c4: "tally waiting_reader3 (ReaderWaitingCount3 s) ps"
    using inv by (simp_all add: inv3_def)
  show "lock_tally has_mutex3 (val (SemaphoreMutex3 s')) (ps[t := q])"
    using step m lock_moves [OF t(1), of has_mutex3 _ q] t(2)
    by (cases p) (auto simp: sem3_defs dest!: down_Some)
  show "tally writing3 (WriterCount3 s') (ps[t := q])"
    using step tally_moves [OF c1 t(1), of q] t(2) by (cases p) (auto simp: sem3_defs)
  show "tally reading3 (ReaderCount3 s') (ps[t := q])"
    using step tally_moves [OF c2 t(1), of q] t(2) by (cases p) (auto simp: sem3_defs)
  show "tally waiting_writer3 (WriterWaitingCount3 s') (ps[t := q])"
    using step tally_moves [OF c3 t(1), of q] t(2) by (cases p) (auto simp: sem3_defs)
  show "tally waiting_reader3 (ReaderWaitingCount3 s') (ps[t := q])"
    using step tally_moves [OF c4 t(1), of q] t(2) by (cases p) (auto simp: sem3_defs)
qed

lemma inv3_reach:
  assumes n: "n < 2147483648"
    and reach: "reach (rw_step (sol3 K)) (rw_start (sol3 K) (InitializeSyncSolution3 K) n) (s, ps)"
  shows "inv3 val s ps"
proof (rule rw_invariantI [OF reach])
  show "inv3 val (InitializeSyncSolution3 K) (replicate n (pos_idle (sol3 K)))"
    using n by (simp add: inv3_def InitializeSyncSolution3_def tally_start lock_start [unfolded One_nat_def])
qed (auto intro: inv3_step inv3_call)

end

section \<open>Writers among themselves\<close>

text \<open>
  Without readers at most one permit exists: it is the permit in \<open>SemaphoreWriter\<close> (and then a writer
  is about to fetch it) or it is with one writer, from the end of its wait to the hand-over when it
  leaves.
\<close>

definition writers_step :: "('p, 's) sync_ops \<Rightarrow> rw_act \<Rightarrow> 's \<times> 'p list \<Rightarrow> ('s \<times> 'p list) option" where
  "writers_step P x c = (case x of CallEnterR t \<Rightarrow> None | _ \<Rightarrow> rw_step P x c)"

fun writer_pos3 :: "pc3 \<Rightarrow> bool" where
  "writer_pos3 ER3_down_Mutex = False"
| "writer_pos3 ER3_if = False"
| "writer_pos3 ER3_inc_waiting = False"
| "writer_pos3 ER3_up_Mutex_wait = False"
| "writer_pos3 ER3_down_Reader = False"
| "writer_pos3 ER3_down_Mutex_again = False"
| "writer_pos3 ER3_dec_waiting = False"
| "writer_pos3 ER3_inc = False"
| "writer_pos3 ER3_up_Mutex = False"
| "writer_pos3 InR3 = False"
| "writer_pos3 LR3_down_Mutex = False"
| "writer_pos3 LR3_dec = False"
| "writer_pos3 LR3_if = False"
| "writer_pos3 LR3_up_Writer = False"
| "writer_pos3 LR3_up_Mutex = False"
| "writer_pos3 _ = True"

fun permit3 :: "pc3 \<Rightarrow> bool" where
  "permit3 EW3_down_Mutex_again = True"
| "permit3 EW3_dec_waiting = True"
| "permit3 EW3_inc = True"
| "permit3 EW3_up_Mutex = True"
| "permit3 InW3 = True"
| "permit3 LW3_down_Mutex = True"
| "permit3 LW3_dec = True"
| "permit3 LW3_if = True"
| "permit3 (LW3_for i) = True"
| "permit3 (LW3_up_Reader i) = True"
| "permit3 LW3_else_if = True"
| "permit3 LW3_up_Writer = True"
| "permit3 _ = False"

definition fetching3 :: "pc3 \<Rightarrow> bool" where
  "fetching3 p \<longleftrightarrow> p = EW3_up_Mutex_wait \<or> p = EW3_down_Writer"

definition winv3 :: "('sm \<Rightarrow> nat) \<Rightarrow> 'sm sync3 \<Rightarrow> pc3 list \<Rightarrow> bool" where
  "winv3 val s ps \<longleftrightarrow> inv3 val s ps \<and> list_all writer_pos3 ps \<and>
     val (SemaphoreWriter3 s) + cnt permit3 ps \<le> 1 \<and> val (SemaphoreWriter3 s) \<le> cnt fetching3 ps \<and>
     (LW3_up_Writer \<in> set ps \<longrightarrow> 0 < cnt waiting_writer3 ps)"

text \<open>The owner of the mutex is the only one; nobody can take it meanwhile.\<close>

lemma inv3_owner:
  assumes "inv3 val s ps" and "t < length ps" and "has_mutex3 (ps ! t)"
  shows "val (SemaphoreMutex3 s) = 0" and "\<And>u. u < length ps \<Longrightarrow> has_mutex3 (ps ! u) \<Longrightarrow> u = t"
proof -
  have 1: "val (SemaphoreMutex3 s) + cnt has_mutex3 ps = 1"
    using assms(1) by (simp add: inv3_def lock_tally_def)
  then show "val (SemaphoreMutex3 s) = 0"
    using cnt_posI [of t ps has_mutex3] assms(2,3) by simp
  show "u = t" if "u < length ps" "has_mutex3 (ps ! u)" for u
    using cnt_two [OF that(1) assms(2), of has_mutex3] that(2) assms(3) 1 by fastforce
qed

lemma inv3_counts:
  assumes "inv3 val s ps"
  shows "(0 <s WriterCount3 s) = (0 < cnt writing3 ps)" "(0 <s WriterWaitingCount3 s) = (0 < cnt waiting_writer3 ps)"
    "(0 <s ReaderCount3 s) = (0 < cnt reading3 ps)" "(0 <s ReaderWaitingCount3 s) = (0 < cnt waiting_reader3 ps)"
proof -
  have le: "cnt P ps < 2147483648" for P
    using assms cnt_le [of P ps] by (simp add: inv3_def tally_def)
  show "(0 <s WriterCount3 s) = (0 < cnt writing3 ps)" "(0 <s WriterWaitingCount3 s) = (0 < cnt waiting_writer3 ps)"
    "(0 <s ReaderCount3 s) = (0 < cnt reading3 ps)" "(0 <s ReaderWaitingCount3 s) = (0 < cnt waiting_reader3 ps)"
    using assms le by (simp_all add: inv3_def tally_def sless_zero_small)
qed

text \<open>A writer that finds all counters zero finds no permit either.\<close>

lemma winv3_direct:
  assumes inv: "winv3 val s ps" and t: "t < length ps" "ps ! t = EW3_if" and go: "\<not> writer_waits3 s"
  shows "val (SemaphoreWriter3 s) = 0 \<and> cnt permit3 ps = 0"
proof -
  have i: "inv3 val s ps" using inv by (simp add: winv3_def)
  have zero: "\<not> 0 < cnt writing3 ps" "\<not> 0 < cnt waiting_writer3 ps"
    using go inv3_counts [OF i] by (simp_all add: writer_waits3_def)
  have "\<not> permit3 (ps ! u)" if u: "u < length ps" for u
  proof
    assume p: "permit3 (ps ! u)"
    have "has_mutex3 (ps ! u) \<Longrightarrow> u = t"
      using inv3_owner(2) [OF i t(1) _ u] t(2) by simp
    moreover have "\<not> writing3 (ps ! u)" "\<not> waiting_writer3 (ps ! u)"
      using zero cnt_posI [OF u, of writing3] cnt_posI [OF u, of waiting_writer3] by auto
    ultimately show False
      using p t(2) by (cases "ps ! u") auto
  qed
  moreover have "\<not> fetching3 (ps ! u)" if u: "u < length ps" for u
    using zero(2) cnt_posI [OF u, of waiting_writer3] by (auto simp: fetching3_def)
  ultimately have "\<not> 0 < cnt permit3 ps" "\<not> 0 < cnt fetching3 ps"
    unfolding cnt_pos_iff by blast+
  then show ?thesis
    using inv by (simp add: winv3_def)
qed

text \<open>When a leaving writer hands its permit over, a writer is there to fetch it.\<close>

lemma winv3_handover:
  assumes inv: "winv3 val s ps" and t: "t < length ps" "ps ! t = LW3_up_Writer"
  shows "val (SemaphoreWriter3 s) = 0" and "0 < cnt fetching3 ps"
proof -
  have i: "inv3 val s ps" using inv by (simp add: winv3_def)
  have one: "val (SemaphoreWriter3 s) + cnt permit3 ps \<le> 1"
    using inv by (simp add: winv3_def)
  show "val (SemaphoreWriter3 s) = 0"
    using one cnt_posI [OF t(1), of permit3] t(2) by simp
  have "LW3_up_Writer \<in> set ps"
    using t by (metis nth_mem)
  then obtain u where u: "u < length ps" "waiting_writer3 (ps ! u)"
    using inv by (auto simp: winv3_def cnt_pos_iff)
  have "\<not> permit3 (ps ! u)"
    using one cnt_two [OF u(1) t(1), of permit3] t(2) u(2) by (cases "u = t") auto
  then have "fetching3 (ps ! u)"
    using u(2) by (cases "ps ! u") (auto simp: fetching3_def)
  then show "0 < cnt fetching3 ps"
    using cnt_posI [OF u(1)] by blast
qed

context kernel_semaphore
begin

lemma winv3_permits:
  assumes inv: "winv3 val s ps" and t: "t < length ps" "ps ! t = p" and step: "step3 K p s = Some (q, s')"
  shows "val (SemaphoreWriter3 s') + cnt permit3 (ps[t := q]) \<le> 1"
    and "val (SemaphoreWriter3 s') \<le> cnt fetching3 (ps[t := q])"
proof -
  have w: "writer_pos3 p" and 1: "val (SemaphoreWriter3 s) + cnt permit3 ps \<le> 1"
      "val (SemaphoreWriter3 s) \<le> cnt fetching3 ps"
    using inv t by (auto simp: winv3_def list_all_length)
  note direct = winv3_direct [OF inv t(1)] and handover = winv3_handover [OF inv t(1)]
  show "val (SemaphoreWriter3 s') + cnt permit3 (ps[t := q]) \<le> 1"
    using step w 1 direct handover(1) cnt_move [OF t(1), of permit3 q] t(2)
    by (cases p) (auto simp: sem3_defs dest!: down_Some)
  show "val (SemaphoreWriter3 s') \<le> cnt fetching3 (ps[t := q])"
    using step w 1 direct handover cnt_move [OF t(1), of fetching3 q] t(2)
    by (cases p) (auto simp: sem3_defs fetching3_def dest!: down_Some)
qed

lemma winv3_step:
  assumes inv: "winv3 val s ps" and t: "t < length ps" "ps ! t = p" and step: "step3 K p s = Some (q, s')"
  shows "winv3 val s' (ps[t := q])"
  unfolding winv3_def
proof (intro conjI impI)
  have i: "inv3 val s ps" and w: "list_all writer_pos3 ps" and u: "LW3_up_Writer \<in> set ps \<longrightarrow> 0 < cnt waiting_writer3 ps"
    using inv by (simp_all add: winv3_def)
  show "inv3 val s' (ps[t := q])"
    using inv3_step [OF i t step] .
  have "writer_pos3 q"
    using step w t by (cases p) (auto simp: list_all_length sem3_defs)
  then show "list_all writer_pos3 (ps[t := q])"
    using w by (auto simp: list_all_iff dest!: set_update_subset_insert [THEN subsetD])
  show "0 < cnt waiting_writer3 (ps[t := q])" if up: "LW3_up_Writer \<in> set (ps[t := q])"
  proof (cases "q = LW3_up_Writer")
    case True
    then have "p = LW3_else_if" "0 <s WriterWaitingCount3 s"
      using step by (cases p; auto split: if_splits)+
    then show ?thesis
      using inv3_counts(2) [OF i] cnt_move(1) [OF t(1), of waiting_writer3 q] t(2) True by simp
  next
    case False
    obtain v where v': "v < length ps" "ps[t := q] ! v = LW3_up_Writer"
      using up by (auto simp: in_set_conv_nth)
    have "v \<noteq> t"
      using v'(2) t(1) False by auto
    with v' have v: "v < length ps" "v \<noteq> t" "ps ! v = LW3_up_Writer"
      by simp_all
    have m: "val (SemaphoreMutex3 s) = 0" "\<not> has_mutex3 p"
      using inv3_owner(1) [OF i v(1)] inv3_owner(2) [OF i v(1) _ t(1)] t(2) v(2,3) by auto
    then have "waiting_writer3 p = waiting_writer3 q"
      using step by (cases p) (auto simp: sem3_defs dest!: down_Some)
    moreover have "LW3_up_Writer \<in> set ps"
      using v by (metis nth_mem)
    ultimately show ?thesis
      using u cnt_move(1) [OF t(1), of waiting_writer3 q] t(2) by simp
  qed
qed (use winv3_permits [OF inv t step] in simp_all)

end

lemma winv3_call:
  assumes inv: "winv3 val s ps" and t: "t < length ps"
    and call: "(ps ! t, q) \<in> {(Idle3, EW3_down_Mutex), (InW3, LW3_down_Mutex)}"
  shows "winv3 val s (ps[t := q])"
proof -
  have "cnt permit3 (ps[t := q]) = cnt permit3 ps" "cnt fetching3 (ps[t := q]) = cnt fetching3 ps"
    "cnt waiting_writer3 (ps[t := q]) = cnt waiting_writer3 ps"
    using call by (auto intro!: cnt_move(1) [OF t] simp: fetching3_def)
  moreover have "LW3_up_Writer \<in> set (ps[t := q]) \<Longrightarrow> LW3_up_Writer \<in> set ps"
    using call set_update_subset_insert [of ps t q] by auto
  moreover have "list_all writer_pos3 (ps[t := q])"
    using inv call by (auto simp: winv3_def list_all_iff dest!: set_update_subset_insert [THEN subsetD])
  ultimately show ?thesis
    using inv call inv3_call [OF _ t, of val s q] by (auto simp: winv3_def)
qed

context kernel_semaphore
begin

lemma winv3_reach:
  assumes n: "n < 2147483648"
    and reach: "reach (writers_step (sol3 K)) (rw_start (sol3 K) (InitializeSyncSolution3 K) n) (s, ps)"
  shows "winv3 val s ps"
proof -
  have "winv3 val (fst (s, ps)) (snd (s, ps))"
    using reach
  proof (induction rule: reach_invariant)
    case start
    have "inv3 val (InitializeSyncSolution3 K) (replicate n Idle3)"
      using inv3_reach [OF n, of "InitializeSyncSolution3 K" "replicate n Idle3"]
      by (simp add: rw_start_def reach.start)
    then show ?case
      by (simp add: winv3_def rw_start_def InitializeSyncSolution3_def fetching3_def list_all_length)
  next
    case (step x c c')
    obtain s1 ps1 where c: "c = (s1, ps1)" by (cases c)
    with step.IH have I: "winv3 val s1 ps1" by simp
    then have "\<not> writer_pos3 (ps1 ! t) \<Longrightarrow> \<not> t < length ps1" for t
      by (auto simp: winv3_def list_all_length)
    with step.hyps c show ?case
      by (cases x) (auto simp: writers_step_def jump_Some split: if_splits option.splits
          intro: winv3_step [OF I] winv3_call [OF I])
  qed
  then show ?thesis by simp
qed

lemma winv3_excl: "winv3 val s ps \<Longrightarrow> rw_excl (sol3 K) ps"
proof (rule rw_exclI)
  assume inv: "winv3 val s ps"
  then have le: "cnt permit3 ps \<le> 1" and w: "list_all writer_pos3 ps"
    by (simp_all add: winv3_def)
  show "occ ps (pos_in_writer (sol3 K)) \<le> 1"
    using le cnt_mono [of "(=) InW3" permit3 ps] by (auto simp: occ_def)
  show "occ ps (pos_in_reader (sol3 K)) = 0"
    using w by (intro occ_zeroI) (auto simp: list_all_length)
qed

end

section \<open>A visit that meets nobody\<close>

definition methods3 :: "'sm sem_ops \<Rightarrow> 'sm sync3 cs_methods" where
  "methods3 K = \<lparr>enter_writer = EnterCriticalSection_Writer3 K, enter_reader = EnterCriticalSection_Reader3 K,
     leave_writer = LeaveCriticalSection_Writer3 K, leave_reader = LeaveCriticalSection_Reader3 K\<rparr>"

definition free3 :: "('sm \<Rightarrow> nat) \<Rightarrow> 'sm sync3 \<Rightarrow> bool" where
  "free3 val s \<longleftrightarrow> val (SemaphoreMutex3 s) = 1 \<and> WriterCount3 s = 0 \<and> ReaderCount3 s = 0 \<and>
     WriterWaitingCount3 s = 0 \<and> ReaderWaitingCount3 s = 0"

lemmas enter_leave3 = EnterCriticalSection_Writer3_def EnterCriticalSection_Reader3_def
  LeaveCriticalSection_Writer3_def LeaveCriticalSection_Reader3_def

context kernel_semaphore
begin

lemma init_free3: "free3 val (InitializeSyncSolution3 K)"
  by (simp add: free3_def InitializeSyncSolution3_def)

end

sublocale kernel_semaphore \<subseteq> m3: cs_contract "methods3 K" "free3 val"
proof unfold_locales
  fix y assume "free3 val y"
  then have y: "val (SemaphoreMutex3 y) = 1" "WriterCount3 y = 0" "ReaderCount3 y = 0"
      "WriterWaitingCount3 y = 0" "ReaderWaitingCount3 y = 0"
    by (simp_all add: free3_def)
  from down_takes [of "SemaphoreMutex3 y"] y obtain m where m: "sem_down K (SemaphoreMutex3 y) = Some m" "val m = 0"
    by auto
  from down_takes [of "sem_up K m"] m obtain m' where m': "sem_down K (sem_up K m) = Some m'" "val m' = 0"
    by auto
  show "\<exists>y1 y2. enter_writer (methods3 K) y = Some y1 \<and> leave_writer (methods3 K) y1 = Some y2 \<and> free3 val y2"
    and "\<exists>y1 y2. enter_reader (methods3 K) y = Some y1 \<and> leave_reader (methods3 K) y1 = Some y2 \<and> free3 val y2"
    using y m m' by (simp_all add: methods3_def enter_leave3 sem3_defs free3_def writer_waits3_def reader_waits3_def)
qed

section \<open>Properties\<close>

text \<open>
  C22: Mutual exclusion of solution 3 fails. With a working semaphore there is an interleaving of two
  writers and two readers after which a reader and a writer are in their critical sections together:
  writer 0 leaves and permits both waiting readers; reader 1 enters and leaves before reader 2, which
  has fetched its permit, has counted itself, so that reader 1 finds \<open>ReaderCount == 0\<close> and permits the
  waiting writer 3 as well.
\<close>

theorem sync3_exclusion_fails:
  "\<exists>s. reach (rw_step (sol3 counting_sem)) (rw_start (sol3 counting_sem) (InitializeSyncSolution3 counting_sem) 4)
      (s, [Idle3, Idle3, InR3, InW3]) \<and> \<not> rw_excl (sol3 counting_sem) [Idle3, Idle3, InR3, InW3]"
proof -
  let ?P = "sol3 counting_sem"
  let ?enter = "\<lambda>c t. c t # replicate 4 (Run t)"
  have "\<exists>s. exec (rw_step ?P)
      (?enter CallEnterW 0 @ ?enter CallEnterR 1 @ ?enter CallEnterR 2 @ ?enter CallEnterW 3 @
       CallLeaveW 0 # replicate 9 (Run 0) @ Run 1 # Run 2 # replicate 4 (Run 1) @
       CallLeaveR 1 # replicate 5 (Run 1) @ replicate 5 (Run 3) @ replicate 4 (Run 2))
      (rw_start ?P (InitializeSyncSolution3 counting_sem) 4) = Some (s, [Idle3, Idle3, InR3, InW3])"
    by (simp add: rw_start_def jump_def sem3_defs InitializeSyncSolution3_def counting_sem_def
        writer_waits3_def reader_waits3_def word_sless_alt eval_nat_numeral)
  moreover have "\<not> rw_excl ?P [Idle3, Idle3, InR3, InW3]"
    using rw_exclD [of ?P "[Idle3, Idle3, InR3, InW3]" 3 2] by auto
  ultimately show ?thesis
    by (blast intro: exec_reach)
qed

text \<open>
  C26: The bookkeeping of solution 3 is exact in every reachable state, for any number of threads
  (fewer than \<open>2^31\<close>): at most one thread is between a \<open>down(&SemaphoreMutex)\<close> and the next \<open>up\<close>, and the
  four counters are the numbers of threads between their increments and decrements.
\<close>

theorem sync3_bookkeeping:
  assumes "kernel_semaphore K val" and "n < 2147483648"
    and "reach (rw_step (sol3 K)) (rw_start (sol3 K) (InitializeSyncSolution3 K) n) (s, ps)"
  shows "val (SemaphoreMutex3 s) + cnt has_mutex3 ps = 1 \<and>
    unat (WriterCount3 s) = cnt writing3 ps \<and> unat (ReaderCount3 s) = cnt reading3 ps \<and>
    unat (WriterWaitingCount3 s) = cnt waiting_writer3 ps \<and>
    unat (ReaderWaitingCount3 s) = cnt waiting_reader3 ps"
  using kernel_semaphore.inv3_reach [OF assms] by (simp add: inv3_def tally_def lock_tally_def)

text \<open>An example run: a writer is in its critical section, a reader sleeps.\<close>

lemma sync3_demo:
  obtains s where "reach (rw_step (sol3 counting_sem)) (rw_start (sol3 counting_sem) (InitializeSyncSolution3 counting_sem) 2)
      (s, [InW3, ER3_down_Reader])"
proof -
  let ?P = "sol3 counting_sem" and ?s0 = "InitializeSyncSolution3 counting_sem"
  have "\<exists>s. exec (rw_step ?P) (CallEnterW 0 # replicate 4 (Run 0) @ CallEnterR 1 # replicate 4 (Run 1))
      (rw_start ?P ?s0 2) = Some (s, [InW3, ER3_down_Reader])"
    by (simp add: rw_start_def jump_def sem3_defs InitializeSyncSolution3_def counting_sem_def
        writer_waits3_def reader_waits3_def word_sless_alt eval_nat_numeral)
  then show thesis
    by (blast intro: that exec_reach)
qed

theorem sync3_bookkeeping_witness:
  "\<exists>s. reach (rw_step (sol3 counting_sem)) (rw_start (sol3 counting_sem) (InitializeSyncSolution3 counting_sem) 2)
      (s, [InW3, ER3_down_Reader]) \<and> unat (WriterCount3 s) = 1 \<and> unat (ReaderWaitingCount3 s) = 1"
proof -
  obtain s where r: "reach (rw_step (sol3 counting_sem)) (rw_start (sol3 counting_sem) (InitializeSyncSolution3 counting_sem) 2)
      (s, [InW3, ER3_down_Reader])"
    by (rule sync3_demo)
  from sync3_bookkeeping [OF counting.kernel_semaphore_axioms _ r] r show ?thesis
    by auto
qed

text \<open>
  Writers among themselves exclude each other in solution 3: as long as no reader enters, for any
  number of writers and any interleaving, at most one of them is in its critical section.
\<close>

lemma sync3_writers_exclusive:
  assumes "kernel_semaphore K val" and "n < 2147483648"
    and "reach (writers_step (sol3 K)) (rw_start (sol3 K) (InitializeSyncSolution3 K) n) (s, ps)"
  shows "rw_excl (sol3 K) ps"
  using kernel_semaphore.winv3_excl [OF assms(1) kernel_semaphore.winv3_reach [OF assms]] .

text \<open>The loop, statement by statement: two statements per permit and the last test.\<close>

lemma up_Readers3_steps:
  "run_alone (sol3 K) (Suc (k + 2 * nat (sint (ReaderWaitingCount3 s) - sint index))) (LW3_for index) s =
     run_alone (sol3 K) k LW3_up_Mutex (up_Readers3 K index s)"
proof (induction K index s rule: up_Readers3.induct)
  case (1 K index s)
  show ?case
  proof (cases "index <s ReaderWaitingCount3 s")
    case True
    let ?d = "\<lambda>i. nat (sint (ReaderWaitingCount3 s) - sint i)"
    have "?d index = Suc (?d (index + 1))"
      using True by (simp add: sint_inc [OF True] word_sless_alt)
    then show ?thesis
      using True 1 [OF True] by (simp add: run_alone.simps [of _ "Suc _"] up_Reader3_def up_Readers3.simps [of K index s])
  next
    case False
    then show ?thesis
      by (simp add: run_alone.simps [of _ "Suc _"] up_Readers3.simps [of K index s] word_sless_alt)
  qed
qed

text \<open>
  The statement-by-statement model of solution 3 and its methods as functions agree: one thread
  that executes a method alone does exactly what the method says, and waits exactly when it does. The
  writer's \<open>Leave\<close> takes two more statements per waiting reader.
\<close>

lemma sync3_methods:
  "run_alone (sol3 K) (9 + k) EW3_down_Mutex s = map_option (Pair InW3) (EnterCriticalSection_Writer3 K s) \<and>
   run_alone (sol3 K) (6 + (k + 2 * nat (sint (ReaderWaitingCount3 s)))) LW3_down_Mutex s =
     map_option (Pair Idle3) (LeaveCriticalSection_Writer3 K s) \<and>
   run_alone (sol3 K) (9 + k) ER3_down_Mutex s = map_option (Pair InR3) (EnterCriticalSection_Reader3 K s) \<and>
   run_alone (sol3 K) (5 + k) LR3_down_Mutex s = map_option (Pair Idle3) (LeaveCriticalSection_Reader3 K s)"
proof -
  note at = run_alone.simps [of "sol3 K" _ Idle3] run_alone.simps [of "sol3 K" "Suc _" LW3_down_Mutex]
    run_alone.simps [of "sol3 K" "Suc _" LW3_dec] run_alone.simps [of "sol3 K" "Suc _" LW3_if]
    run_alone.simps [of "sol3 K" "Suc _" LW3_else_if] run_alone.simps [of "sol3 K" "Suc _" LW3_up_Writer]
    run_alone.simps [of "sol3 K" "Suc _" LW3_up_Mutex]
  have loop: "run_alone (sol3 K) (Suc (Suc (Suc (k + 2 * nat (sint (ReaderWaitingCount3 s)))))) (LW3_for 0) s =
      Some (Idle3, up_Mutex3 K (up_Readers3 K 0 s))" for s :: "'a sync3"
    using up_Readers3_steps [of K "Suc (Suc k)" s 0] by (simp add: at)
  note defs = EnterCriticalSection_Writer3_def LeaveCriticalSection_Writer3_def
    EnterCriticalSection_Reader3_def LeaveCriticalSection_Reader3_def
  have "run_alone (sol3 K) (9 + k) EW3_down_Mutex s = map_option (Pair InW3) (EnterCriticalSection_Writer3 K s)"
    by (auto simp: run_alone.simps defs numeral_eq_Suc split: option.splits)
  moreover have "run_alone (sol3 K) (9 + k) ER3_down_Mutex s = map_option (Pair InR3) (EnterCriticalSection_Reader3 K s)"
    by (auto simp: run_alone.simps defs numeral_eq_Suc split: option.splits)
  moreover have "run_alone (sol3 K) (5 + k) LR3_down_Mutex s = map_option (Pair Idle3) (LeaveCriticalSection_Reader3 K s)"
    by (auto simp: run_alone.simps defs numeral_eq_Suc split: option.splits)
  moreover have "run_alone (sol3 K) (6 + (k + 2 * nat (sint (ReaderWaitingCount3 s)))) LW3_down_Mutex s =
     map_option (Pair Idle3) (LeaveCriticalSection_Writer3 K s)"
  proof (cases "down_Mutex3 K s")
    case None
    then show ?thesis by (simp add: run_alone.simps defs)
  next
    case (Some r)
    let ?r = "r\<lparr>WriterCount3 := WriterCount3 r - 1\<rparr>"
    have w: "ReaderWaitingCount3 r = ReaderWaitingCount3 s"
      using Some by (auto simp: down_Mutex3_def)
    have six: "6 + x = Suc (Suc (Suc (Suc (Suc (Suc x)))))" for x by simp
    show ?thesis
      unfolding six using Some loop [of ?r] w
      by (cases "0 <s ReaderWaitingCount3 s"; cases "0 <s WriterWaitingCount3 r") (simp_all add: defs at)
  qed
  ultimately show ?thesis by blast
qed

interpretation alone3: alone_methods "sol3 K" "methods3 K" for K
proof
  have shift: "\<exists>m. \<forall>k. run_alone (sol3 K) (m + k) p y = z" if "\<And>k. run_alone (sol3 K) (6 + (k + m)) p y = z" for p y z m
    using that by (intro exI [of _ "6 + m"]) (simp add: ac_simps)
  fix y
  show "\<exists>m. \<forall>k. run_alone (sol3 K) (m + k) (pos_leave_writer (sol3 K)) y =
      map_option (Pair (pos_idle (sol3 K))) (leave_writer (methods3 K) y)"
    by (rule shift [of "2 * nat (sint (ReaderWaitingCount3 y))"]) (use sync3_methods in \<open>auto simp: methods3_def\<close>)
qed (use sync3_methods in \<open>auto simp: methods3_def\<close>)

end
