(* ===== verification/Single_Caller.thy ===== *)
theory Single_Caller
  imports Os_Kboard_Conc Kboard_Conc Sync3
begin

text \<open>
  The two kinds of model agree. The handlers and system calls are modelled as functions, for a caller that
  meets nobody (\<open>Os_Kboard\<close>, \<open>Kboard_Module\<close>), and statement by statement, for any interleaving
  (\<open>Os_Kboard_Conc\<close>, \<open>Kboard_Conc\<close>). Here one process of the interleaved model is scheduled alone from its call to
  its return, whatever the state and whatever the others are doing: it ends in the state, with the result and
  with the entry in the history that the function says, and it never returns where the function faults or waits.

  \<open>run_until\<close> has fuel. For the system calls a number of statements is given that always suffices. For the handlers
  the number depends on the solution and, in solution 3, on the number of waiting readers, so the results are
  stated for all sufficiently large numbers (\<open>settles\<close>).
\<close>

section \<open>Running one process\<close>

fun run_until :: "('s \<Rightarrow> bool) \<Rightarrow> ('s \<Rightarrow> 's option) \<Rightarrow> nat \<Rightarrow> 's \<Rightarrow> 's option" where
  "run_until fin f k s =
     (if fin s then Some s
      else case k of 0 \<Rightarrow> None | Suc k \<Rightarrow> (case f s of None \<Rightarrow> None | Some s' \<Rightarrow> run_until fin f k s'))"
declare run_until.simps [simp del]

text \<open>The value of a run for all sufficiently large numbers of statements.\<close>

definition settles :: "(nat \<Rightarrow> 'a) \<Rightarrow> 'a \<Rightarrow> bool" where
  "settles f v \<longleftrightarrow> (\<exists>m. \<forall>k. f (m + k) = v)"

lemma settles_const [simp]: "settles (\<lambda>_. x) v \<longleftrightarrow> x = v"
  by (simp add: settles_def)

lemma settles_shift: "settles (\<lambda>k. f (m + k)) v \<longleftrightarrow> settles f v"
proof
  assume "settles f v"
  then obtain n where "\<And>k. f (n + k) = v" by (auto simp: settles_def)
  then have "\<forall>k. f (m + (n + k)) = v" by (metis add.left_commute)
  then show "settles (\<lambda>k. f (m + k)) v" unfolding settles_def by blast
next
  assume "settles (\<lambda>k. f (m + k)) v"
  then obtain n where "\<And>k. f (m + (n + k)) = v" by (auto simp: settles_def)
  then have "\<forall>k. f ((m + n) + k) = v" by (simp add: add.assoc)
  then show "settles f v" unfolding settles_def by blast
qed

lemma settles_Suc: "settles f v \<longleftrightarrow> settles (\<lambda>k. f (Suc k)) v"
  using settles_shift [of f "Suc 0" v] by simp

text \<open>An index is inside an array for a load and for a store alike.\<close>

lemma arr_cases:
  obtains (fault) "arr_get xs i = Inl OutOfBounds" "\<And>w. arr_set xs i w = Inl OutOfBounds"
  | (ok) "arr_get xs i = Inr (xs ! nat (sint i))" "\<And>w. arr_set xs i w = Inr (xs[nat (sint i) := w])"
  by (cases "0 <=s i \<and> sint i < int (length xs)") (auto simp: arr_get_def arr_set_def)

section \<open>The system calls\<close>

text \<open>
  Process \<open>t\<close> starts a call and is the only one scheduled until it is idle again; \<open>ok\<close> says whether a \<open>copy_to_user\<close> of it succeeds.
\<close>

definition kcall_alone :: "'lk spin_ops \<Rightarrow> bool \<Rightarrow> nat \<Rightarrow> nat \<Rightarrow> kjob \<Rightarrow> 'lk ksys \<Rightarrow> 'lk ksys option" where
  "kcall_alone L ok t k j c =
     Option.bind (ksys_step L (KStart t j) c) (run_until (\<lambda>c. stmts c ! t = KIdle) (ksys_step L (KSched t ok)) k)"

text \<open>Symbolic execution: one statement, the end, and the start.\<close>

lemma kalone_step:
  assumes "t < length bs" and "b \<noteq> KIdle"
  shows "run_until (\<lambda>c. stmts c ! t = KIdle) (ksys_step L (KSched t ok)) (Suc k) \<lparr>kboard_of = s, stmts = bs[t := b], klog = l\<rparr> =
    (case kstmt_step L ok b s of Inl _ \<Rightarrow> None
     | Inr (b', s', l') \<Rightarrow> run_until (\<lambda>c. stmts c ! t = KIdle) (ksys_step L (KSched t ok)) k \<lparr>kboard_of = s', stmts = bs[t := b'], klog = l @ l'\<rparr>)"
  using assms by (auto simp: run_until.simps [of _ _ "Suc k"] split: sum.splits)

lemma kalone_end:
  assumes "t < length bs" and "bs ! t = KIdle"
  shows "run_until (\<lambda>c. stmts c ! t = KIdle) f k \<lparr>kboard_of = s, stmts = bs[t := KIdle], klog = l\<rparr> =
    Some \<lparr>kboard_of = s, stmts = bs, klog = l\<rparr>"
  using assms list_update_id [of bs t] by (simp add: run_until.simps)

lemma kcall_alone_start:
  assumes "t < length (stmts c)" and "stmts c ! t = KIdle" and "case j of JEnq x \<Rightarrow> \<not> x <s 0 | _ \<Rightarrow> True"
  shows "kcall_alone L ok t k j c = run_until (\<lambda>c. stmts c ! t = KIdle) (ksys_step L (KSched t ok)) k
    \<lparr>kboard_of = kboard_of c, stmts = (stmts c)[t := kfirst j], klog = klog c\<rparr>"
  using assms by (cases c) (auto simp: kcall_alone_def split: kjob.splits)

lemmas kalone = kcall_alone_start kalone_step kalone_end eval_nat_numeral

text \<open>The calls, each with a number of statements that suffices.\<close>

lemma kb_enqueue_alone:
  assumes "t < length (stmts c)" and "stmts c ! t = KIdle" and "\<not> x <s 0"
  shows "kcall_alone L ok t (5 + k) (JEnq x) c =
    (case do_sys_kb_enqueue L x (kboard_of c) of Inl _ \<Rightarrow> None
     | Inr (ret, s) \<Rightarrow> Some (c\<lparr>kboard_of := s, klog := klog c @ [(Enq x, if ret = 0 then Accepted else Rejected)]\<rparr>))"
proof (cases "kb_spin_lock L (kboard_of c)")
  case (Inr s)
  then show ?thesis
    using assms by (cases "Ring s" "c_mod (CurrentIndex s + Count s) MAX_CLIP" rule: arr_cases)
      (simp_all add: kalone do_sys_kb_enqueue_def)
qed (use assms in \<open>simp add: kalone do_sys_kb_enqueue_def\<close>)

lemma kb_dequeue_alone:
  assumes "t < length (stmts c)" and "stmts c ! t = KIdle"
  defines "v \<equiv> Ring (kboard_of c) ! nat (sint (CurrentIndex (kboard_of c)))"
  shows "kcall_alone L (fst (ctu a v m) = 0) t (7 + k) JDeq c =
    (case do_sys_kb_dequeue L ctu a (kboard_of c, m) of Inl _ \<Rightarrow> None
     | Inr (ret, s, m') \<Rightarrow> Some (c\<lparr>kboard_of := s, klog := klog c @
         (if ret = 0 then [(Deq, Got v)] else if ret = - 1 then [(Deq, Nothing)] else [])\<rparr>))"
proof (cases "kb_spin_lock L (kboard_of c)")
  case (Inr s)
  then have v: "v = Ring s ! nat (sint (CurrentIndex s))"
    by (auto simp: v_def kb_spin_lock_def split: option.splits)
  obtain u m' where "ctu a v m = (u, m')"
    by fastforce
  with Inr v show ?thesis
    using assms(1,2) by (cases "Ring s" "CurrentIndex s" rule: arr_cases)
      (auto simp: kalone do_sys_kb_dequeue_def Let_def)
qed (use assms in \<open>simp add: kalone do_sys_kb_dequeue_def\<close>)

text \<open>The loop of \<open>do_sys_kb_init\<close>: one statement per slot and the last test.\<close>

lemma kfill_alone:
  assumes "t < length bs"
  shows "run_until (\<lambda>c. stmts c ! t = KIdle) (ksys_step L (KSched t ok)) (Suc (k + nat (sint MAX_CLIP - sint i)))
      \<lparr>kboard_of = s\<lparr>Ring := r\<rparr>, stmts = bs[t := IFill i], klog = l\<rparr> =
    (case fill_loop MAX_CLIP INIT_VALUE r i of Inl _ \<Rightarrow> None
     | Inr r \<Rightarrow> run_until (\<lambda>c. stmts c ! t = KIdle) (ksys_step L (KSched t ok)) k
         \<lparr>kboard_of = s\<lparr>Ring := r\<rparr>, stmts = bs[t := ICount], klog = l\<rparr>)"
proof (induction MAX_CLIP INIT_VALUE r i rule: fill_loop.induct)
  case (1 r i)
  show ?case
  proof (cases "i <s MAX_CLIP")
    case True
    have "nat (sint MAX_CLIP - sint i) = Suc (nat (sint MAX_CLIP - sint (i + 1)))"
      using True by (simp add: sint_inc [OF True] word_sless_alt)
    then show ?thesis
      using True 1 [OF True] assms
      by (cases "arr_set r i INIT_VALUE") (simp_all add: kalone_step [of t bs "IFill i"] fill_loop.simps [of _ _ _ i])
  next
    case False
    then show ?thesis
      using assms by (simp add: kalone_step fill_loop.simps [of _ _ _ i] word_sless_alt)
  qed
qed

lemma kb_init_alone:
  assumes "t < length (stmts c)" and "stmts c ! t = KIdle"
  shows "kcall_alone L ok t (11 + k) JInit c =
    (case do_sys_kb_init L (kboard_of c) of Inl _ \<Rightarrow> None | Inr (ret, s) \<Rightarrow> Some (c\<lparr>kboard_of := s\<rparr>))"
proof -
  have fuel: "11 + k = Suc (Suc (Suc (Suc (Suc (Suc k)) + nat (sint MAX_CLIP - sint (0::cint)))))"
    by (simp add: MAX_CLIP_def)
  note steps = kcall_alone_start kalone_step [of _ _ IReset] kalone_step [of _ _ ILock] kalone_step [of _ _ ICount]
    kalone_step [of _ _ IIndex] kalone_step [of _ _ KUnlock] kalone_end
  show ?thesis
  proof (cases "kb_spin_lock L ((kboard_of c)\<lparr>Lock := spin_lock_init L\<rparr>)")
    case (Inr s)
    show ?thesis
      unfolding fuel
      using assms Inr kfill_alone [OF assms(1), where s = s and r = "Ring s" and i = 0 and k = "Suc (Suc (Suc k))" and L = L and ok = ok and l = "klog c"]
      by (cases "fill_loop MAX_CLIP INIT_VALUE (Ring s) 0") (simp_all add: steps do_sys_kb_init_def Let_def)
  qed (use assms in \<open>simp add: fuel steps do_sys_kb_init_def\<close>)
qed

section \<open>The handlers\<close>

text \<open>
  A thread that has left its critical section holds the result it is about to print or return; with its last statement it is
  without a job again. \<open>handler_alone\<close> gives that result and the state at the end.
\<close>

definition returning :: "('p, 'y) sync_ops \<Rightarrow> nat \<Rightarrow> ('p, 'y) conc \<Rightarrow> bool" where
  "returning P t c = (case acts c ! t of Leaving r \<Rightarrow> pos c ! t = pos_idle P | _ \<Rightarrow> False)"

definition returned :: "('p, 'y) sync_ops \<Rightarrow> nat \<Rightarrow> ('p, 'y) conc \<Rightarrow> (cint qres \<times> ('p, 'y) conc) option" where
  "returned P t c = (case acts c ! t of Leaving r \<Rightarrow> map_option (Pair r) (conc_step P (Sched t) c) | _ \<Rightarrow> None)"

definition upto_end :: "('p, 'y) sync_ops \<Rightarrow> nat \<Rightarrow> nat \<Rightarrow> ('p, 'y) conc \<Rightarrow> (cint qres \<times> ('p, 'y) conc) option" where
  "upto_end P t k c = Option.bind (run_until (returning P t) (conc_step P (Sched t)) k c) (returned P t)"

definition handler_alone ::
    "('p, 'y) sync_ops \<Rightarrow> nat \<Rightarrow> nat \<Rightarrow> job \<Rightarrow> ('p, 'y) conc \<Rightarrow> (cint qres \<times> ('p, 'y) conc) option" where
  "handler_alone P t k j c = Option.bind (conc_step P (Start t j) c) (upto_end P t k)"

locale one_thread =
  fixes P :: "('p, 'y) sync_ops" and t :: nat and ps :: "'p list" and as :: "act list"
  assumes t_pos: "t < length ps" and t_act: "t < length as"
begin

definition conf :: "'y kboard \<Rightarrow> 'p \<Rightarrow> act \<Rightarrow> (cint qop \<times> cint qres) list \<Rightarrow> ('p, 'y) conc" where
  "conf s p a l = \<lparr>board = s, pos = ps[t := p], acts = as[t := a], clog = l\<rparr>"

definition ends :: "'y kboard \<Rightarrow> 'p \<Rightarrow> act \<Rightarrow> (cint qop \<times> cint qres) list \<Rightarrow> (cint qres \<times> ('p, 'y) conc) option \<Rightarrow> bool" where
  "ends s p a l v \<longleftrightarrow> settles (\<lambda>k. upto_end P t k (conf s p a l)) v"

lemma conf_sel: "acts (conf s p a l) ! t = a" "pos (conf s p a l) ! t = p" "board (conf s p a l) = s" "t < length (pos (conf s p a l))"
  using t_pos t_act by (simp_all add: conf_def)

lemma sched_conf:
  "conc_step P (Sched t) (conf s p (Body b) l) =
     (case body_step b s of
        Inl _ \<Rightarrow> None
      | Inr (Inl b', s') \<Rightarrow> Some (conf s' p (Body b') l)
      | Inr (Inr r, s') \<Rightarrow> Some (conf s' (leave_pos P b) (Leaving r) (l @ (if is_reader b then [] else [(stmt_op b, r)]))))"
  "conc_step P (Sched t) (conf s (in_pos P b) (Entering b) l) = Some (conf s (in_pos P b) (Body b) l)"
  "conc_step P (Sched t) (conf s (pos_idle P) (Leaving r) l) = Some (conf s (pos_idle P) NoJob l)"
  using t_pos t_act by (simp_all add: conf_def split: sum.splits)

text \<open>A thread that is in one of the synchronisation methods.\<close>

definition syncing :: "'p \<Rightarrow> act \<Rightarrow> bool" where
  "syncing p a \<longleftrightarrow> (case a of Entering _ \<Rightarrow> True | Leaving _ \<Rightarrow> True | _ \<Rightarrow> False) \<and>
     p \<notin> {pos_idle P, pos_in_writer P, pos_in_reader P}"

lemma sched_sync:
  "syncing p a \<Longrightarrow> conc_step P (Sched t) (conf s p a l) =
     (case pstep P p (Sync s) of None \<Rightarrow> None | Some (q, y) \<Rightarrow> Some (conf (s\<lparr>Sync := y\<rparr>) q a l))"
  using t_pos t_act by (auto simp: syncing_def conf_def in_pos_def sync_stmt_def split: act.splits option.splits)

end

declare conc_step.simps [simp del]

context one_thread
begin

lemma returning_conf: "returning P t (conf s p a l) \<longleftrightarrow> (\<exists>r. a = Leaving r) \<and> p = pos_idle P"
  by (auto simp: returning_def conf_sel split: act.splits)

lemma upto_end_Suc:
  "\<not> returning P t c \<Longrightarrow>
     upto_end P t (Suc k) c = (case conc_step P (Sched t) c of None \<Rightarrow> None | Some c' \<Rightarrow> upto_end P t k c')"
  by (simp add: upto_end_def run_until.simps [of _ _ "Suc _"] split: option.splits)

lemma ends_step:
  "\<not> returning P t (conf s p a l) \<Longrightarrow> ends s p a l v \<longleftrightarrow>
     (case conc_step P (Sched t) (conf s p a l) of None \<Rightarrow> v = None | Some c \<Rightarrow> settles (\<lambda>k. upto_end P t k c) v)"
  by (auto simp: ends_def settles_Suc [of "\<lambda>k. upto_end P t k (conf s p a l)"] upto_end_Suc split: option.splits)

lemma ends_stop: "ends s (pos_idle P) (Leaving r) l v \<longleftrightarrow> v = Some (r, conf s (pos_idle P) NoJob l)"
  by (auto simp: ends_def upto_end_def run_until.simps returning_conf returned_def conf_sel sched_conf)

lemma ends_body:
  "ends s p (Body b) l v \<longleftrightarrow>
     (case body_step b s of
        Inl _ \<Rightarrow> v = None
      | Inr (Inl b', s') \<Rightarrow> ends s' p (Body b') l v
      | Inr (Inr r, s') \<Rightarrow> ends s' (leave_pos P b) (Leaving r) (l @ (if is_reader b then [] else [(stmt_op b, r)])) v)"
  unfolding ends_step [of s p "Body b", simplified returning_conf, simplified] sched_conf by (simp add: ends_def split: sum.splits)

lemma ends_pass:
  "ends s (in_pos P b) (Entering b) l v \<longleftrightarrow> ends s (in_pos P b) (Body b) l v"
  unfolding ends_step [of s _ "Entering b", simplified returning_conf, simplified] sched_conf
  by (simp add: ends_def [symmetric])

lemma ends_sync:
  "syncing p a \<Longrightarrow> ends s p a l v \<longleftrightarrow>
     (case pstep P p (Sync s) of None \<Rightarrow> v = None | Some (q, y) \<Rightarrow> ends (s\<lparr>Sync := y\<rparr>) q a l v)"
  by (cases a) (simp_all add: ends_step returning_conf sched_sync syncing_def ends_def [symmetric] split: option.splits)

text \<open>A synchronisation method that the thread executes alone: to its end, or to a statement at which it waits.\<close>

lemma ends_run_alone:
  assumes "\<forall>p. syncing p a \<longleftrightarrow> p \<notin> {pos_idle P, pos_in_writer P, pos_in_reader P}"
  shows "run_alone P m p (Sync s) = Some (q, y) \<Longrightarrow> ends s p a l v \<longleftrightarrow> ends (s\<lparr>Sync := y\<rparr>) q a l v"
proof (induction m arbitrary: p s)
  case 0
  then show ?case
    by (auto simp: run_alone.simps split: if_splits)
next
  case (Suc m)
  show ?case
  proof (cases "syncing p a")
    case False
    then have "p \<in> {pos_idle P, pos_in_writer P, pos_in_reader P}"
      using assms by blast
    then show ?thesis using Suc.prems by (auto simp: run_alone.simps [of P "Suc m" p])
  next
    case True
    then obtain p1 y1 where "pstep P p (Sync s) = Some (p1, y1)" "run_alone P m p1 y1 = Some (q, y)"
      using Suc.prems by (auto simp: run_alone.simps [of P "Suc _"] syncing_def split: option.splits)
    then show ?thesis
      using Suc.IH [of p1 "s\<lparr>Sync := y1\<rparr>"] by (simp add: ends_sync [OF True])
  qed
qed

lemma ends_waits:
  assumes a: "\<forall>p. syncing p a \<longleftrightarrow> p \<notin> {pos_idle P, pos_in_writer P, pos_in_reader P}"
    and none: "\<And>m. run_alone P m p (Sync s) = None"
  shows "ends s p a l v \<longleftrightarrow> v = None"
proof -
  have "upto_end P t k (conf s p a l) = None" for k
    using none
  proof (induction k arbitrary: p s)
    case 0
    then have "p \<noteq> pos_idle P"
      using 0 [of 0] by (auto simp: run_alone.simps)
    then show ?case by (simp add: upto_end_def run_until.simps returning_conf)
  next
    case (Suc k)
    have p: "p \<notin> {pos_idle P, pos_in_writer P, pos_in_reader P}"
      using Suc.prems [of 0] by (auto simp: run_alone.simps)
    have "upto_end P t k (conf (s\<lparr>Sync := y1\<rparr>) p1 a l) = None" if "pstep P p (Sync s) = Some (p1, y1)" for p1 y1
      using Suc.prems [of "Suc _"] p that by (intro Suc.IH) (simp add: run_alone.simps [of P "Suc _"])
    then show ?case
      using a p by (simp add: upto_end_Suc returning_conf sched_sync split: option.splits)
  qed
  then show ?thesis by (auto simp: ends_def)
qed

lemma ends_method:
  assumes a: "\<forall>p. syncing p a \<longleftrightarrow> p \<notin> {pos_idle P, pos_in_writer P, pos_in_reader P}"
    and run: "\<And>y. \<exists>m. \<forall>k. run_alone P (m + k) p y = map_option (Pair q) (f y)"
  shows "ends s p a l v \<longleftrightarrow> (case cs_run f s of Inl _ \<Rightarrow> v = None | Inr s' \<Rightarrow> ends s' q a l v)"
proof -
  obtain m where m: "\<And>k. run_alone P (m + k) p (Sync s) = map_option (Pair q) (f (Sync s))"
    using run by blast
  show ?thesis
  proof (cases "f (Sync s)")
    case None
    have "run_alone P k p (Sync s) = None" for k
      using run_alone_mono [of P k p "Sync s" _ m] m [of k] None by (cases "run_alone P k p (Sync s)") (auto simp: add.commute)
    then show ?thesis
      using ends_waits [OF a] None by (simp add: cs_run_def)
  next
    case (Some y)
    then show ?thesis
      using ends_run_alone [OF a, of "m + 0"] m [of 0] by (simp add: cs_run_def)
  qed
qed
end

declare conc_step.simps [simp]

text \<open>What the handlers return and print, by the result of their critical sections.\<close>

fun paste_result :: "cint qres \<Rightarrow> cint \<times> string" where
  "paste_result (Got item) = (0, ''Paste: '' @ quoted (fmt_d item) @ newline)"
| "paste_result r = (- EPERM, [])"

fun copy_result :: "clong \<Rightarrow> cint qres \<Rightarrow> clong" where
  "copy_result length0 Accepted = length0"
| "copy_result length0 r = - EPERM"

fun read_result :: "cint \<Rightarrow> cint \<Rightarrow> cint \<times> string" where
  "read_result i item = (0, ''Read random value from Kboard: index: '' @ quoted (fmt_d i) @
     '', value: '' @ quoted (fmt_d item) @ newline)"

text \<open>
  The part of \<open>KboardWriter_Write\<close> before the critical section, which touches no shared variable: the error it returns with,
  or the item it goes on with.
\<close>

definition scan_item ::
    "'m copy_in \<Rightarrow> (string \<Rightarrow> cint option) \<Rightarrow> string \<Rightarrow> string \<Rightarrow> 'm \<Rightarrow> uaddr \<Rightarrow> clong \<Rightarrow> clong + cint" where
  "scan_item cfu sscanf_d buffer0 beyond mem data length0 =
     (if of_nat WRITER_BUFFER_SIZE < length0 then Inl (- E2BIG)
      else case cfu mem data (unat length0) buffer0 of (uncopied, buffer) \<Rightarrow>
        if uncopied \<noteq> 0 then Inl (- EFAULT)
        else case sscanf_d (c_string (buffer @ beyond)) of
          None \<Rightarrow> Inl (- EINVAL)
        | Some item \<Rightarrow> if item <s 0 then Inl (- EINVAL) else Inr item)"

text \<open>
  A handler as a function against a thread that executes it alone: where the function returns, the thread ends
  in the same state, and its own result is the one the function returns and prints; where the function faults or waits,
  the thread never ends. A write that fails before the critical section returns its error and changes nothing.
\<close>

definition paste_agrees :: "('p, 'y) sync_ops \<Rightarrow> 'y cs_methods \<Rightarrow> nat \<Rightarrow> ('p, 'y) conc \<Rightarrow> bool" where
  "paste_agrees P M t c \<longleftrightarrow>
     (case KboardWriter_Show M (board c) of
        Inl _ \<Rightarrow> settles (\<lambda>k. handler_alone P t k Paste c) None
      | Inr (ret, out, s) \<Rightarrow> \<exists>r. (ret, out) = paste_result r \<and>
          settles (\<lambda>k. handler_alone P t k Paste c) (Some (r, c\<lparr>board := s, clog := clog c @ [(Deq, r)]\<rparr>)))"

definition write_agrees ::
    "('p, 'y) sync_ops \<Rightarrow> clong + cint \<Rightarrow> (clong \<times> 'y kboard) result \<Rightarrow> clong \<Rightarrow> nat \<Rightarrow> ('p, 'y) conc \<Rightarrow> bool" where
  "write_agrees P scanned call length0 t c \<longleftrightarrow>
     (case scanned of
        Inl err \<Rightarrow> call = Inr (err, board c)
      | Inr item \<Rightarrow>
          (case call of
             Inl _ \<Rightarrow> settles (\<lambda>k. handler_alone P t k (Copy item) c) None
           | Inr (ret, s) \<Rightarrow> \<exists>r. ret = copy_result length0 r \<and>
               settles (\<lambda>k. handler_alone P t k (Copy item) c) (Some (r, c\<lparr>board := s, clog := clog c @ [(Enq item, r)]\<rparr>))))"

definition read_agrees :: "('p, 'y) sync_ops \<Rightarrow> 'y cs_methods \<Rightarrow> cint \<Rightarrow> nat \<Rightarrow> ('p, 'y) conc \<Rightarrow> bool" where
  "read_agrees P M random_bytes t c \<longleftrightarrow>
     (let i = random_bytes mod RING_BUFFER_SIZE in
      case KboardReader_Show M random_bytes (board c) of
        Inl _ \<Rightarrow> settles (\<lambda>k. handler_alone P t k (Read i) c) None
      | Inr (ret, out, s) \<Rightarrow> \<exists>item. (ret, out) = read_result i item \<and>
          settles (\<lambda>k. handler_alone P t k (Read i) c) (Some (Got item, c\<lparr>board := s\<rparr>)))"

definition quiet :: "('p, 'y) sync_ops \<Rightarrow> nat \<Rightarrow> ('p, 'y) conc \<Rightarrow> bool" where
  "quiet P t c \<longleftrightarrow> t < length (pos c) \<and> t < length (acts c) \<and> pos c ! t = pos_idle P \<and> acts c ! t = NoJob"

locale one_handler = alone_methods P M + one_thread P t "pos c" "acts c"
  for P :: "('p, 'y) sync_ops" and M t and c :: "('p, 'y) conc" +
  assumes idle: "pos c ! t = pos_idle P" "acts c ! t = NoJob"
begin

lemma syncing_acts:
  "\<forall>p. syncing p (Entering b) \<longleftrightarrow> p \<notin> {pos_idle P, pos_in_writer P, pos_in_reader P}"
  "\<forall>p. syncing p (Leaving r) \<longleftrightarrow> p \<notin> {pos_idle P, pos_in_writer P, pos_in_reader P}"
  by (auto simp: syncing_def)

lemma ends_enter:
  "ends s (enter_pos P b) (Entering b) l v \<longleftrightarrow>
     (case cs_run (if is_reader b then enter_reader M else enter_writer M) s of
        Inl _ \<Rightarrow> v = None | Inr s' \<Rightarrow> ends s' (in_pos P b) (Body b) l v)"
proof -
  have "\<exists>m. \<forall>k. run_alone P (m + k) (enter_pos P b) y =
      map_option (Pair (in_pos P b)) ((if is_reader b then enter_reader M else enter_writer M) y)" for y
    using enter_writer_alone enter_reader_alone by (simp add: enter_pos_def in_pos_def)
  from ends_method [OF syncing_acts(1) [of b] this] show ?thesis
    by (simp add: ends_pass split: sum.splits)
qed

lemma ends_leave:
  "ends s (leave_pos P b) (Leaving r) l v \<longleftrightarrow>
     (case cs_run (if is_reader b then leave_reader M else leave_writer M) s of
        Inl _ \<Rightarrow> v = None | Inr s' \<Rightarrow> v = Some (r, c\<lparr>board := s', clog := l\<rparr>))"
proof -
  have run: "\<exists>m. \<forall>k. run_alone P (m + k) (leave_pos P b) y =
      map_option (Pair (pos_idle P)) ((if is_reader b then leave_reader M else leave_writer M) y)" for y
    using leave_writer_alone leave_reader_alone by (simp add: leave_pos_def)
  have "conf s' (pos_idle P) NoJob l = c\<lparr>board := s', clog := l\<rparr>" for s'
    using idle list_update_id [of "pos c" t] list_update_id [of "acts c" t] by (simp add: conf_def)
  then show ?thesis
    using ends_method [OF syncing_acts(2) [of r] run] by (simp add: ends_stop split: sum.splits)
qed

lemma ends_handler:
  assumes "job_ok j"
  shows "settles (\<lambda>k. handler_alone P t k j c) v \<longleftrightarrow> ends (board c) (enter_pos P (first_stmt j)) (Entering (first_stmt j)) (clog c) v"
  using assms idle t_pos unfolding handler_alone_def ends_def conf_def by (cases c) simp

lemmas ends_eval = ends_handler ends_enter ends_leave ends_body Let_def

lemma paste_alone: "paste_agrees P M t c"
proof (cases "cs_run (enter_writer M) (board c)")
  case (Inr s)
  show ?thesis
  proof (cases "RingBufferCount s <=s 0")
    case True
    with Inr show ?thesis
      by (auto simp: paste_agrees_def KboardWriter_Show_def ends_eval intro: exI [of _ Nothing] split: sum.split)
  next
    case False
    with Inr show ?thesis
      by (cases "RingBuffer s" "RingBufferCurrentIndex s" rule: arr_cases)
        (auto simp: paste_agrees_def KboardWriter_Show_def ends_eval intro: exI [of _ "Got _"] split: sum.split)
  qed
qed (simp add: paste_agrees_def KboardWriter_Show_def ends_eval)

lemma write_alone:
  "write_agrees P (scan_item cfu sscanf_d buffer0 beyond mem data length0)
     (KboardWriter_Write M cfu sscanf_d buffer0 beyond mem data length0 (board c)) length0 t c"
proof (cases "scan_item cfu sscanf_d buffer0 beyond mem data length0")
  case (Inl err)
  then show ?thesis
    by (auto simp: write_agrees_def scan_item_def KboardWriter_Write_def split: if_splits prod.splits option.splits)
next
  case item: (Inr item)
  obtain buffer where *: "\<not> of_nat WRITER_BUFFER_SIZE < length0" "cfu mem data (unat length0) buffer0 = (0, buffer)"
      "sscanf_d (c_string (buffer @ beyond)) = Some item" "\<not> item <s 0"
    using item by (cases "cfu mem data (unat length0) buffer0") (auto simp: scan_item_def split: if_splits option.splits)
  note eval = write_agrees_def item KboardWriter_Write_def ends_eval
  show ?thesis
  proof (cases "cs_run (enter_writer M) (board c)")
    case (Inr s)
    show ?thesis
    proof (cases "RING_BUFFER_SIZE <=s RingBufferCount s")
      case True
      with Inr * show ?thesis
        by (auto simp: eval intro: exI [of _ Rejected] split: sum.split)
    next
      case False
      with Inr * show ?thesis
        by (cases "RingBuffer s" "c_mod (RingBufferCurrentIndex s + RingBufferCount s) RING_BUFFER_SIZE" rule: arr_cases)
          (auto simp: eval intro: exI [of _ Accepted] split: sum.split)
    qed
  qed (use * in \<open>simp add: eval\<close>)
qed

lemma read_alone: "read_agrees P M random_bytes t c"
proof -
  have ok: "job_ok (Read (random_bytes mod RING_BUFFER_SIZE))"
    by (simp add: unat_mod_distrib RING_BUFFER_SIZE_def)
  note eval = read_agrees_def KboardReader_Show_def ends_eval
  show ?thesis
  proof (cases "cs_run (enter_reader M) (board c)")
    case (Inr s)
    with ok show ?thesis
      by (cases "RingBuffer s" "random_bytes mod RING_BUFFER_SIZE" rule: arr_cases)
        (auto simp: eval cs_run_def split: sum.split option.splits)
  qed (use ok in \<open>simp add: eval\<close>)
qed

end

lemma one_handlerI: "alone_methods P M \<Longrightarrow> quiet P t c \<Longrightarrow> one_handler P M t c"
  by (intro one_handler.intro one_thread.intro one_handler_axioms.intro) (simp_all add: quiet_def)

lemmas one_handler_agrees = one_handler.paste_alone one_handler.write_alone one_handler.read_alone

section \<open>Properties\<close>

text \<open>
  C12: One process that executes a system call of lab1 alone, statement by statement, does what the system call as a
  function does, in every state of the kboard and of the lock and whatever the other processes are about to do: it returns if
  and only if the function does, after at most 11 statements, in the same state, and the history records the result the
  function returns. An item that fails the check of \<open>kb_enqueue\<close> never gets as far as the lock.
\<close>

theorem kb_calls_alone:
  assumes "t < length (stmts c)" and "stmts c ! t = KIdle" and "11 \<le> k"
  shows "(if x <s 0 then kcall_alone L ok t k (JEnq x) c = None \<and> do_sys_kb_enqueue L x (kboard_of c) = Inr (- 2, kboard_of c)
      else kcall_alone L ok t k (JEnq x) c =
        (case do_sys_kb_enqueue L x (kboard_of c) of Inl _ \<Rightarrow> None
         | Inr (ret, s) \<Rightarrow> Some (c\<lparr>kboard_of := s, klog := klog c @ [(Enq x, if ret = 0 then Accepted else Rejected)]\<rparr>))) \<and>
    (let v = Ring (kboard_of c) ! nat (sint (CurrentIndex (kboard_of c)))
     in kcall_alone L (fst (ctu a v m) = 0) t k JDeq c =
        (case do_sys_kb_dequeue L ctu a (kboard_of c, m) of Inl _ \<Rightarrow> None
         | Inr (ret, s, m') \<Rightarrow> Some (c\<lparr>kboard_of := s, klog := klog c @
             (if ret = 0 then [(Deq, Got v)] else if ret = - 1 then [(Deq, Nothing)] else [])\<rparr>))) \<and>
    kcall_alone L ok t k JInit c =
      (case do_sys_kb_init L (kboard_of c) of Inl _ \<Rightarrow> None | Inr (ret, s) \<Rightarrow> Some (c\<lparr>kboard_of := s\<rparr>))"
proof -
  obtain i where k: "k = 5 + (6 + i)" "k = 7 + (4 + i)" "k = 11 + i"
    using le_Suc_ex [OF assms(3)] by auto
  have "kcall_alone L ok t k (JEnq x) c = None \<and> do_sys_kb_enqueue L x (kboard_of c) = Inr (- 2, kboard_of c)" if "x <s 0"
    using that by (simp add: kcall_alone_def do_sys_kb_enqueue_def)
  then show ?thesis
    using kb_enqueue_alone [OF assms(1,2), of x L ok "6 + i", folded k] kb_dequeue_alone [OF assms(1,2), of L ctu a m "4 + i", folded k]
      kb_init_alone [OF assms(1,2), of L ok i, folded k] by (simp only: Let_def if_True if_False split: if_split) blast
qed

theorem kb_calls_alone_witness:
  "\<exists>s. kcall_alone tas_lock True 1 11 (JEnq 7) (ksys_start tas_lock 2) =
     Some (ksys_start tas_lock 2\<lparr>kboard_of := s, klog := [(Enq 7, Accepted)]\<rparr>) \<and> kb_contents s = [7]"
proof -
  have run: "\<exists>s. do_sys_kb_enqueue tas_lock 7 (kboard_of (ksys_start tas_lock 2)) = Inr (0, s) \<and> kb_contents s = [7]"
    by (simp add: do_sys_kb_enqueue_def ksys_eval kb_contents_def ring_contents_def rslice_def)
  then show ?thesis
    using kb_calls_alone [of 1 "ksys_start tas_lock 2" 11 7 tas_lock True, THEN conjunct1] by (auto simp: ksys_start_def word_sless_alt)
qed

text \<open>
  C11: A thread that executes a handler of lab2 alone, statement by statement, the statements of the synchronisation
  methods included, does what the handler as a function does, with each of the three solutions, in every state, for every text
  written and all random bytes: it ends if and only if the function returns, in the same state, and the result it carries out of its
  critical section is the one the function returns and prints. A write that fails before the critical section (too long, not copied,
  no number, negative number) returns its error without touching the module's state.
\<close>

theorem handlers_alone:
  "(quiet (sol1 K) t c1 \<longrightarrow>
      paste_agrees (sol1 K) (methods1 K) t c1 \<and>
      write_agrees (sol1 K) (scan_item cfu sscanf_d buffer0 beyond mem data length0)
        (KboardWriter_Write (methods1 K) cfu sscanf_d buffer0 beyond mem data length0 (board c1)) length0 t c1 \<and>
      read_agrees (sol1 K) (methods1 K) random_bytes t c1) \<and>
    (quiet (sol2 K) t c2 \<longrightarrow>
      paste_agrees (sol2 K) (methods2 K) t c2 \<and>
      write_agrees (sol2 K) (scan_item cfu sscanf_d buffer0 beyond mem data length0)
        (KboardWriter_Write (methods2 K) cfu sscanf_d buffer0 beyond mem data length0 (board c2)) length0 t c2 \<and>
      read_agrees (sol2 K) (methods2 K) random_bytes t c2) \<and>
    (quiet (sol3 K) t c3 \<longrightarrow>
      paste_agrees (sol3 K) (methods3 K) t c3 \<and>
      write_agrees (sol3 K) (scan_item cfu sscanf_d buffer0 beyond mem data length0)
        (KboardWriter_Write (methods3 K) cfu sscanf_d buffer0 beyond mem data length0 (board c3)) length0 t c3 \<and>
      read_agrees (sol3 K) (methods3 K) random_bytes t c3)"
  by (intro conjI impI one_handler_agrees one_handlerI alone1.alone_methods_axioms alone2.alone_methods_axioms
      alone3.alone_methods_axioms)

definition two_idle :: "(pc1, nat sync1) conc" where
  "two_idle = conc_start (sol1 counting_sem) (InitializeSyncSolution1 counting_sem) 2"

theorem handlers_alone_witness:
  "(\<exists>s. settles (\<lambda>k. handler_alone (sol1 counting_sem) 1 k (Copy 42) two_idle)
     (Some (Accepted, two_idle\<lparr>board := s, clog := [(Enq 42, Accepted)]\<rparr>)) \<and> km_contents s = [42]) \<and>
   KboardWriter_Write (methods1 counting_sem) text_copy_in scan_dec (replicate 20 (CHR 0x00)) [] ''-7'' 0 2 (board two_idle) =
     Inr (- EINVAL, board two_idle)"
proof -
  have b: "board two_idle = km_fresh" and q: "quiet (sol1 counting_sem) 1 two_idle" and l: "clog two_idle = []"
    by (simp_all add: two_idle_def conc_start_def km_fresh_def quiet_def)
  have "scan_dec ''42'' = Some 42" and neg: "scan_dec ''-7'' = Some (- 7)"
    by (simp_all add: scan_dec_def is_digit_def digits_value_def)
  then have sc: "scan_item text_copy_in scan_dec (replicate 20 (CHR 0x00)) [] ''42'' 0 2 = Inr 42"
    and sn: "scan_item text_copy_in scan_dec (replicate 20 (CHR 0x00)) [] ''-7'' 0 2 = Inl (- EINVAL)"
    by (simp_all add: scan_item_def WRITER_BUFFER_SIZE_def text_copy_in_def text_bytes_def c_string_def word_sless_alt)
  obtain y where y: "KboardWriter_Write (methods1 counting_sem) text_copy_in scan_dec (replicate 20 (CHR 0x00)) [] ''42'' 0 2 km_fresh =
      Inr (2, (km_enq 42 km_fresh)\<lparr>Sync := y\<rparr>)"
    using counting.m1.writer_write [OF km_fresh(1,3), of 2 text_copy_in "''42''" 0 "replicate 20 (CHR 0x00)" _ scan_dec "[]" 42] km_fresh(2)
      \<open>scan_dec ''42'' = Some 42\<close>
    by (auto simp: WRITER_BUFFER_SIZE_def text_copy_in_def text_bytes_def c_string_def word_sless_alt)
  have "write_agrees (sol1 counting_sem) (Inr 42) (Inr (2, (km_enq 42 km_fresh)\<lparr>Sync := y\<rparr>)) 2 1 two_idle"
    using handlers_alone [of counting_sem 1 two_idle text_copy_in scan_dec "replicate 20 (CHR 0x00)" "[]" "''42''" 0 2, THEN conjunct1] q
    unfolding b y sc by blast
  moreover have "KboardWriter_Write (methods1 counting_sem) text_copy_in scan_dec (replicate 20 (CHR 0x00)) [] ''-7'' 0 2 (board two_idle) =
      Inr (- EINVAL, board two_idle)"
    using handlers_alone [of counting_sem 1 two_idle text_copy_in scan_dec "replicate 20 (CHR 0x00)" "[]" "''-7''" 0 2, THEN conjunct1] q
    unfolding sn by (simp add: write_agrees_def)
  moreover have "r = Accepted" if "(2 :: clong) = copy_result 2 r" for r
    using that by (cases r) (simp_all add: EPERM_def)
  moreover have "km_contents (km_enq 42 km_fresh) = [42]"
    using km_enq_ring [OF km_fresh(1), of 42] km_fresh(2) by (simp add: word_sless_alt)
  ultimately show ?thesis
    using l by (intro conjI exI [of _ "(km_enq 42 km_fresh)\<lparr>Sync := y\<rparr>"]) (auto simp: write_agrees_def)
qed

interpretation idle: one_handler "sol1 counting_sem" "methods1 counting_sem" 1 two_idle
  by (rule one_handlerI [OF alone1.alone_methods_axioms]) (simp add: two_idle_def conc_start_def quiet_def)

end
