(* ===== verification/Kboard_User.thy ===== *)
theory Kboard_User
  imports Os_Kboard
begin

text \<open>
  The user half of the first kboard (\<open>lab1/user\<close>): the library \<open>kboard.c\<close>, the programs \<open>copy\<close>, \<open>paste\<close>
  and \<open>init\<close>, and the two halves of the synchronisation test, \<open>copy_sync_test\<close> and \<open>paste_sync_test\<close>. A
  system call goes through the C library and the kernel's table (\<open>lab1/kernel/syscall_64.tbl\<close>) to the
  entry points of \<open>Os_Kboard\<close>. A program returns its exit code, the text it prints and the new state, the
  kboard with the user memory; a local variable whose address is passed to the kernel is an address of
  that memory. Calls are taken as atomic here: \<open>Os_Kboard_Conc\<close> shows that they are linearizable, and
  \<open>Sync_Programs\<close> runs the test without that assumption.
\<close>

section \<open>The library\<close>

text \<open>The rows 335 to 337 of the table; other numbers are answered with \<open>-ENOSYS\<close>.\<close>

definition kernel_call ::
    "'lk spin_ops \<Rightarrow> 'm copy_out \<Rightarrow> nat \<Rightarrow> clong \<Rightarrow> 'lk kb \<times> 'm \<Rightarrow> (clong \<times> 'lk kb \<times> 'm) result" where
  "kernel_call L ctu nr arg = (\<lambda>(s, m).
     if nr = 335 then rbind (sys_kb_enqueue L arg s) (\<lambda>(r, s). Inr (r, s, m))
     else if nr = 336 then sys_kb_dequeue L ctu arg (s, m)
     else if nr = 337 then rbind (sys_kb_init L s) (\<lambda>(r, s). Inr (r, s, m))
     else Inr (- 38, s, m))"

text \<open>\<open>syscall\<close> of the C library returns -1 where the kernel returned an error number (-4095 to -1).\<close>

definition libc_ret :: "clong \<Rightarrow> clong" where
  "libc_ret r = (if - 4095 \<le> sint r \<and> sint r < 0 then - 1 else r)"

definition syscall ::
    "'lk spin_ops \<Rightarrow> 'm copy_out \<Rightarrow> nat \<Rightarrow> clong \<Rightarrow> 'lk kb \<times> 'm \<Rightarrow> (clong \<times> 'lk kb \<times> 'm) result" where
  "syscall L ctu nr arg sm = rbind (kernel_call L ctu nr arg sm) (\<lambda>(r, sm). Inr (libc_ret r, sm))"

definition kboard_copy :: "'lk spin_ops \<Rightarrow> 'm copy_out \<Rightarrow> cint \<Rightarrow> 'lk kb \<times> 'm \<Rightarrow> (clong \<times> 'lk kb \<times> 'm) result" where
  "kboard_copy L ctu clip sm = syscall L ctu 335 (scast clip) sm"

definition kboard_paste :: "'lk spin_ops \<Rightarrow> 'm copy_out \<Rightarrow> uaddr \<Rightarrow> 'lk kb \<times> 'm \<Rightarrow> (cint \<times> 'lk kb \<times> 'm) result" where
  "kboard_paste L ctu clip sm = rbind (syscall L ctu 336 clip sm) (\<lambda>(r, sm). Inr (ucast r, sm))"

definition kboard_init :: "'lk spin_ops \<Rightarrow> 'm copy_out \<Rightarrow> 'lk kb \<times> 'm \<Rightarrow> ('lk kb \<times> 'm) result" where
  "kboard_init L ctu sm = rbind (syscall L ctu 337 0 sm) (\<lambda>(r, sm). Inr sm)"

section \<open>The programs\<close>

text \<open>
  \<open>atoi\<close> of the C library: white space, a sign, digits; 0 if there are none. (A number that does not fit
  is undefined in C; here it wraps.)
\<close>

definition is_space :: "char \<Rightarrow> bool" where
  "is_space c \<longleftrightarrow> c = CHR '' '' \<or> 9 \<le> (of_char c :: nat) \<and> (of_char c :: nat) \<le> 13"

definition atoi :: "string \<Rightarrow> cint" where
  "atoi s =
     (let s = dropWhile is_space s;
          sign = (s \<noteq> [] \<and> (hd s = CHR ''-'' \<or> hd s = CHR ''+''));
          v = int (digits_value (takeWhile is_digit (if sign then tl s else s)))
      in word_of_int (if sign \<and> hd s = CHR ''-'' then - v else v))"

definition copy_main ::
    "'lk spin_ops \<Rightarrow> 'm copy_out \<Rightarrow> string list \<Rightarrow> 'lk kb \<times> 'm \<Rightarrow> (cint \<times> string \<times> 'lk kb \<times> 'm) result" where
  "copy_main L ctu argv sm =
     (if length argv < 2 then Inr (- 1, ''Insert value for copy to clip board'' @ newline, sm)
      else
        let userInput = atoi (argv ! 1) in
        rbind (kboard_copy L ctu userInput sm) (\<lambda>(r, sm).
          let copyResult = ucast r :: cint in
          if copyResult \<noteq> 0 then Inr (- 1, ''Copy failed, KBoard is full or invalid clip'' @ newline, sm)
          else Inr (0, ''Copy success, value: '' @ quoted (fmt_d userInput) @ newline, sm)))"

definition paste_main ::
    "'lk spin_ops \<Rightarrow> 'm copy_out \<Rightarrow> ('m \<Rightarrow> uaddr \<Rightarrow> cint) \<Rightarrow> uaddr \<Rightarrow> 'lk kb \<times> 'm \<Rightarrow>
     (cint \<times> string \<times> 'lk kb \<times> 'm) result" where
  "paste_main L ctu load clipBoardValue sm =
     rbind (kboard_paste L ctu clipBoardValue sm) (\<lambda>(pasteResult, s, m).
       if pasteResult \<noteq> 0 then Inr (- 1, ''Paste failed, KBoard is empty'' @ newline, s, m)
       else if load m clipBoardValue <s 0 then
         Inr (- 1, ''Paste failed, Invalid value received, value: '' @ quoted (fmt_d (load m clipBoardValue)) @ newline, s, m)
       else Inr (0, ''Paste success, value: '' @ quoted (fmt_d (load m clipBoardValue)) @ newline, s, m))"

definition init_main :: "'lk spin_ops \<Rightarrow> 'm copy_out \<Rightarrow> 'lk kb \<times> 'm \<Rightarrow> (cint \<times> 'lk kb \<times> 'm) result" where
  "init_main L ctu sm = rbind (kboard_init L ctu sm) (\<lambda>sm. Inr (0, sm))"

section \<open>The synchronisation test\<close>

text \<open>
  The local variables of the two test programs, the kboard and the memory of the pasting program.
  \<open>test_fault\<close> holds the message the pasting program printed before it left its loop.
\<close>

record ('lk, 'm) sync_test =
  test_kb :: "'lk kb"
  test_mem :: 'm
  test_value :: cint
  test_expect :: cint
  test_iteration :: cint
  test_fault :: "string option"

definition copy_sync_iter :: "'lk spin_ops \<Rightarrow> 'm copy_out \<Rightarrow> ('lk, 'm) sync_test \<Rightarrow> ('lk, 'm) sync_test result" where
  "copy_sync_iter L ctu c =
     rbind (kboard_copy L ctu (test_value c) (test_kb c, test_mem c)) (\<lambda>(r, s, m).
       let c = c\<lparr>test_kb := s, test_mem := m\<rparr> in
       if r \<noteq> 0 then Inr c else Inr (c\<lparr>test_value := test_value c + 1\<rparr>))"

definition paste_sync_iter ::
    "'lk spin_ops \<Rightarrow> 'm copy_out \<Rightarrow> ('m \<Rightarrow> uaddr \<Rightarrow> cint) \<Rightarrow> uaddr \<Rightarrow> ('lk, 'm) sync_test \<Rightarrow> ('lk, 'm) sync_test result" where
  "paste_sync_iter L ctu load a c =
     (let c = c\<lparr>test_iteration := test_iteration c + 1\<rparr> in
      rbind (kboard_paste L ctu a (test_kb c, test_mem c)) (\<lambda>(r, s, m).
        let c = c\<lparr>test_kb := s, test_mem := m\<rparr> in
        if r \<noteq> 0 then Inr c
        else if load m a \<noteq> test_expect c then
          Inr (c\<lparr>test_fault := Some (''Validation fault, clipBoard: '' @ quoted (fmt_d (load m a)) @ '', expect: '' @
            quoted (fmt_d (test_expect c)) @ '', iteration: '' @ quoted (fmt_d (test_iteration c)) @ newline)\<rparr>)
        else Inr (c\<lparr>test_expect := test_expect c + 1\<rparr>)))"

text \<open>A step of the two programs together: an iteration of one of their loops.\<close>

definition sync_test_step ::
    "'lk spin_ops \<Rightarrow> 'm copy_out \<Rightarrow> ('m \<Rightarrow> uaddr \<Rightarrow> cint) \<Rightarrow> uaddr \<Rightarrow> bool \<Rightarrow>
     ('lk, 'm) sync_test \<Rightarrow> ('lk, 'm) sync_test option" where
  "sync_test_step L ctu load a copying c =
     (if copying then (case copy_sync_iter L ctu c of Inl _ \<Rightarrow> None | Inr c' \<Rightarrow> Some c')
      else if test_fault c = None then (case paste_sync_iter L ctu load a c of Inl _ \<Rightarrow> None | Inr c' \<Rightarrow> Some c')
      else None)"

definition sync_test_start :: "'lk kb \<Rightarrow> 'm \<Rightarrow> ('lk, 'm) sync_test" where
  "sync_test_start s m = \<lparr>test_kb = s, test_mem = m, test_value = 0, test_expect = 0, test_iteration = 0, test_fault = None\<rparr>"

section \<open>Lemmas\<close>

lemma arg_cast [simp]: "ucast (scast (x :: cint) :: clong) = x"
  by (rule bit_word_eqI) (simp add: bit_simps)

lemma ucast_minus_one [simp]: "(ucast (- 1 :: clong) :: cint) = - 1"
  by (rule bit_word_eqI) (simp add: bit_simps)

lemma libc_ret_simps [simp]: "libc_ret 0 = 0" "libc_ret (- 1) = - 1" "libc_ret (- 2) = - 1"
  by (simp_all add: libc_ret_def)

lemma kboard_copy_eq:
  "kboard_copy L ctu x (s, m) = rbind (do_sys_kb_enqueue L x s) (\<lambda>(r, s'). Inr (libc_ret r, s', m))"
  by (cases "do_sys_kb_enqueue L x s")
    (auto simp: kboard_copy_def syscall_def kernel_call_def sys_kb_enqueue_def split: prod.splits)

lemma kboard_paste_eq:
  "kboard_paste L ctu a (s, m) = rbind (do_sys_kb_dequeue L ctu a (s, m)) (\<lambda>(r, s', m'). Inr (ucast (libc_ret r), s', m'))"
  by (cases "do_sys_kb_dequeue L ctu a (s, m)")
    (auto simp: kboard_paste_def syscall_def kernel_call_def sys_kb_dequeue_def split: prod.splits)

context kb_env
begin

text \<open>The library on an unlocked well-formed kboard.\<close>

lemma copy_negative: "x <s 0 \<Longrightarrow> kboard_copy L ctu x (s, m) = Inr (- 1, s, m)"
  by (simp add: kboard_copy_eq do_sys_kb_enqueue_def)

lemma copy_nonneg:
  assumes "kb_wf s" and "\<not> held (Lock s)" and "\<not> x <s 0"
  shows "\<exists>s'. kboard_copy L ctu x (s, m) = Inr (if length (kb_contents s) < 5 then 0 else - 1, s', m) \<and>
    kb_wf s' \<and> \<not> held (Lock s') \<and>
    kb_contents s' = (if length (kb_contents s) < 5 then kb_contents s @ [x] else kb_contents s)"
proof (cases "length (kb_contents s) < 5")
  case True
  then show ?thesis
    using enqueue_room [OF assms True] kb_push(2,3) [OF assms(1) True assms(3)] by (auto simp: kboard_copy_eq)
next
  case False
  then have "length (kb_contents s) = 5"
    using assms(1) by (simp add: kb_wf_def ring_inv_def kb_length_contents)
  then show ?thesis
    using enqueue_full [OF assms] assms(1) by (auto simp: kboard_copy_eq)
qed

lemma paste_any:
  assumes "kb_wf s" and "\<not> held (Lock s)"
  shows "\<exists>s' m'. kboard_paste L ctu a (s, m) = Inr (if kb_contents s = [] then - 1 else 0, s', m') \<and>
    kb_wf s' \<and> \<not> held (Lock s') \<and> kb_contents s' = tl (kb_contents s) \<and>
    (kb_contents s \<noteq> [] \<longrightarrow> load m' a = hd (kb_contents s) \<and> \<not> load m' a <s 0)"
proof (cases "kb_contents s = []")
  case True
  then show ?thesis
    using dequeue_empty [OF assms True, of ctu a m] assms(1) by (auto simp: kboard_paste_eq)
next
  case False
  obtain m' where m': "ctu a (hd (kb_contents s)) m = (0, m')"
    using writable [of "hd (kb_contents s)" m] by (metis prod.collapse)
  have "\<not> hd (kb_contents s) <s 0"
    using assms(1) False by (cases "kb_contents s") (auto simp: kb_wf_def)
  then show ?thesis
    using dequeue_some [of s ctu a m, OF assms False m'] copied [OF m'] kb_pop(3,4) [OF assms(1) False] False
    by (auto simp: kboard_paste_eq)
qed

end

lemma atoi_fmt_d: "\<not> v <s 0 \<Longrightarrow> atoi (fmt_d v) = v"
proof -
  assume v: "\<not> v <s 0"
  let ?s = "show_nat (unat v)"
  have s: "?s \<noteq> []" "list_all is_digit ?s" "digits_value ?s = unat v"
    using show_nat_digits [of "unat v"] by simp_all
  then have hd: "is_digit (hd ?s)"
    by (cases ?s) auto
  have "\<not> is_space c" if "is_digit c" for c
    using that by (auto simp: is_digit_def is_space_def)
  with hd have drop: "dropWhile is_space ?s = ?s"
    using s(1) by (cases ?s) auto
  have "hd ?s \<noteq> CHR ''-''" "hd ?s \<noteq> CHR ''+''"
    using hd by (auto simp: is_digit_def)
  moreover have take: "takeWhile is_digit ?s = ?s"
    using s(2) by (simp add: list_all_iff takeWhile_eq_all_conv)
  ultimately show ?thesis
    using s v by (simp add: atoi_def fmt_d_nonneg Let_def drop take)
qed

text \<open>The queue between the two test programs: the numbers from the expected one to the last one copied.\<close>

definition test_inv :: "('lk \<Rightarrow> bool) \<Rightarrow> ('lk, 'm) sync_test \<Rightarrow> bool" where
  "test_inv held c \<longleftrightarrow> kb_wf (test_kb c) \<and> \<not> held (Lock (test_kb c)) \<and> test_fault c = None \<and>
     kb_contents (test_kb c) = map (\<lambda>i. test_expect c + of_nat i) [0..<length (kb_contents (test_kb c))] \<and>
     test_value c = test_expect c + of_nat (length (kb_contents (test_kb c)))"

lemma count_up_Cons: "map (\<lambda>i. (e :: cint) + of_nat i) [0..<Suc k] = e # map (\<lambda>i. (e + 1) + of_nat i) [0..<k]"
  by (simp add: upt_conv_Cons map_Suc_upt [symmetric] add.assoc del: upt_Suc)

context kb_env
begin

lemma copy_sync_inv:
  assumes inv: "test_inv held c"
  shows "\<exists>c'. copy_sync_iter L ctu c = Inr c' \<and> test_inv held c'"
proof (cases "test_value c <s 0")
  case True
  then show ?thesis
    using inv copy_negative [OF True, of "test_kb c" "test_mem c"] by (simp add: copy_sync_iter_def test_inv_def)
next
  case False
  have i: "kb_wf (test_kb c)" "\<not> held (Lock (test_kb c))"
    using inv by (simp_all add: test_inv_def)
  from copy_nonneg [OF i False, of "test_mem c"] obtain s' where
    s': "kboard_copy L ctu (test_value c) (test_kb c, test_mem c) =
      Inr (if length (kb_contents (test_kb c)) < 5 then 0 else - 1, s', test_mem c)"
    "kb_wf s'" "\<not> held (Lock s')"
    "kb_contents s' = (if length (kb_contents (test_kb c)) < 5 then kb_contents (test_kb c) @ [test_value c] else kb_contents (test_kb c))"
    by blast
  show ?thesis
    using inv s' by (auto simp: copy_sync_iter_def test_inv_def)
qed

lemma paste_sync_inv:
  assumes inv: "test_inv held c"
  shows "\<exists>c'. paste_sync_iter L ctu load a c = Inr c' \<and> test_inv held c'"
proof -
  have i: "kb_wf (test_kb c)" "\<not> held (Lock (test_kb c))"
    using inv by (simp_all add: test_inv_def)
  from paste_any [OF i, of "test_mem c"] obtain s' m' where
    s': "kboard_paste L ctu a (test_kb c, test_mem c) = Inr (if kb_contents (test_kb c) = [] then - 1 else 0, s', m')"
    "kb_wf s'" "\<not> held (Lock s')" "kb_contents s' = tl (kb_contents (test_kb c))"
    "kb_contents (test_kb c) \<noteq> [] \<longrightarrow> load m' a = hd (kb_contents (test_kb c))"
    by blast
  show ?thesis
  proof (cases "kb_contents (test_kb c)")
    case Nil
    then show ?thesis
      using inv s' by (auto simp: paste_sync_iter_def test_inv_def Let_def)
  next
    case (Cons x q)
    then have "x # q = map (\<lambda>i. test_expect c + of_nat i) [0..<Suc (length q)]"
      using inv by (simp add: test_inv_def)
    then have "x = test_expect c" "q = map (\<lambda>i. (test_expect c + 1) + of_nat i) [0..<length q]"
      unfolding count_up_Cons by simp_all
    moreover have "test_value c = (test_expect c + 1) + of_nat (length q)" "test_fault c = None"
      using inv Cons by (simp_all add: test_inv_def)
    ultimately show ?thesis
      using s' Cons by (simp add: paste_sync_iter_def Let_def) (simp add: test_inv_def)
  qed
qed

lemma test_inv_reach:
  assumes "kb_wf s" and "\<not> held (Lock s)" and "kb_contents s = []"
    and "reach (sync_test_step L ctu load a) (sync_test_start s m) c"
  shows "test_inv held c"
  using assms(4)
proof (induction rule: reach_invariant)
  case start
  then show ?case
    using assms(1-3) by (simp add: test_inv_def sync_test_start_def)
next
  case (step copying c c')
  then show ?case
    using copy_sync_inv [OF step.IH] paste_sync_inv [OF step.IH]
    by (auto simp: sync_test_step_def split: if_splits)
qed

end

section \<open>Properties\<close>

text \<open>
  The program \<open>copy\<close> on every path: without an argument it says so; with a number that is negative or
  a full kboard it reports failure and the queue stays; otherwise it reports success and the number
  is the last one of the queue.
\<close>

lemma copy_program:
  assumes "kb_env L held ctu load a" and "kb_wf s" and "\<not> held (Lock s)"
  shows "\<exists>code out s'. copy_main L ctu argv (s, m) = Inr (code, out, s', m) \<and> kb_wf s' \<and> \<not> held (Lock s') \<and>
    (if length argv < 2 then
       code = - 1 \<and> out = ''Insert value for copy to clip board'' @ newline \<and> s' = s
     else if atoi (argv ! 1) <s 0 \<or> length (kb_contents s) = 5 then
       code = - 1 \<and> out = ''Copy failed, KBoard is full or invalid clip'' @ newline \<and> kb_contents s' = kb_contents s
     else code = 0 \<and> out = ''Copy success, value: '' @ quoted (fmt_d (atoi (argv ! 1))) @ newline \<and>
       kb_contents s' = kb_contents s @ [atoi (argv ! 1)])"
proof -
  have full: "length (kb_contents s) < 5 \<longleftrightarrow> length (kb_contents s) \<noteq> 5"
    using assms(2) by (auto simp: kb_wf_def ring_inv_def kb_length_contents)
  show ?thesis
  proof (cases "length argv < 2 \<or> atoi (argv ! 1) <s 0")
    case True
    then show ?thesis
      using assms(2,3) kb_env.copy_negative [OF assms(1), of "atoi (argv ! 1)" s m] by (auto simp: copy_main_def)
  next
    case False
    then show ?thesis
      using kb_env.copy_nonneg [OF assms, of "atoi (argv ! 1)" m] full by (auto simp: copy_main_def)
  qed
qed

lemma kb_boot_env: "kb_wf (kb_boot False)" "\<not> Lock (kb_boot False)" "kb_contents (kb_boot False) = []"
  using kb_boot_wf [of False] by (simp_all add: kb_boot_def)

lemma copy_program_witness:
  "\<exists>s'. copy_main tas_lock (flat_copy_out [16]) [''copy'', ''-3''] (kb_boot False, \<lambda>_. 0) =
      Inr (- 1, ''Copy failed, KBoard is full or invalid clip'' @ newline, s', \<lambda>_. 0) \<and> kb_contents s' = []"
proof -
  have "atoi ''-3'' <s 0"
    by (simp add: atoi_def is_space_def is_digit_def digits_value_def word_sless_alt)
  then show ?thesis
    using copy_program [OF flat_kb.kb_env_axioms [of 16] kb_boot_env(1,2), where argv = "[''copy'', ''-3'']" and m = "\<lambda>_. 0"]
      kb_boot_env(3) by auto
qed

text \<open>
  The program \<open>paste\<close> on every path: on an empty kboard it reports that, otherwise it prints the oldest
  item and removes it. Its message about an invalid value is never printed on a well-formed kboard.
\<close>

lemma paste_program:
  assumes "kb_env L held ctu load a" and "kb_wf s" and "\<not> held (Lock s)"
  shows "\<exists>code out s' m'. paste_main L ctu load a (s, m) = Inr (code, out, s', m') \<and> kb_wf s' \<and> \<not> held (Lock s') \<and>
    (case kb_contents s of
       [] \<Rightarrow> code = - 1 \<and> out = ''Paste failed, KBoard is empty'' @ newline \<and> kb_contents s' = []
     | x # q \<Rightarrow> code = 0 \<and> out = ''Paste success, value: '' @ quoted (fmt_d x) @ newline \<and> kb_contents s' = q)"
  using kb_env.paste_any [OF assms, of m] by (cases "kb_contents s") (auto simp: paste_main_def)

text \<open>
  C18: What \<open>copy\<close> is given, \<open>paste\<close> prints: after \<open>init\<close>, from whatever state, \<open>copy\<close> with the decimal notation
  of a non-negative \<open>int\<close> followed by \<open>paste\<close> prints that number and leaves the kboard empty.
\<close>

theorem copy_paste_roundtrip:
  assumes "kb_env L held ctu load a" and "length (Ring s) = 5" and "\<not> v <s 0" and "2 \<le> length argv" and "argv ! 1 = fmt_d v"
  shows "\<exists>s1 s2 s3 m'. init_main L ctu (s, m) = Inr (0, s1, m) \<and>
    copy_main L ctu argv (s1, m) = Inr (0, ''Copy success, value: '' @ quoted (fmt_d v) @ newline, s2, m) \<and>
    paste_main L ctu load a (s2, m) = Inr (0, ''Paste success, value: '' @ quoted (fmt_d v) @ newline, s3, m') \<and> kb_contents s3 = []"
proof -
  obtain l where init: "do_sys_kb_init L s = Inr (0, \<lparr>Lock = l, Ring = replicate 5 INIT_VALUE, Count = 0, CurrentIndex = 0\<rparr>)"
    and l: "\<not> held l"
    using kernel_spinlock.init_all [OF _ assms(2)] assms(1) by (auto simp: kb_env_def kb_caller_def)
  let ?s1 = "\<lparr>Lock = l, Ring = replicate 5 INIT_VALUE, Count = 0, CurrentIndex = 0\<rparr>"
  have 1: "init_main L ctu (s, m) = Inr (0, ?s1, m)"
    using init by (simp add: init_main_def kboard_init_def syscall_def kernel_call_def sys_kb_init_def)
  have s1: "kb_wf ?s1" "\<not> held (Lock ?s1)" "kb_contents ?s1 = []"
    using kb_initial_wf(1,3) [of l] l by simp_all
  have "atoi (argv ! 1) = v"
    using atoi_fmt_d [OF assms(3)] assms(5) by simp
  then obtain s2 where 2: "kboard_copy L ctu v (?s1, m) = Inr (0, s2, m)" "kb_wf s2" "\<not> held (Lock s2)" "kb_contents s2 = [v]"
    and "copy_main L ctu argv (?s1, m) = Inr (0, ''Copy success, value: '' @ quoted (fmt_d v) @ newline, s2, m)"
    using kb_env.copy_nonneg [OF assms(1) s1(1,2) assms(3), of m] s1(3) assms(4) by (auto simp: copy_main_def)
  then show ?thesis
    using kb_env.paste_any [OF assms(1) 2(2,3), of m] 1 2(4) by (auto simp: paste_main_def)
qed

theorem copy_paste_roundtrip_witness:
  "\<exists>s2 s3 m'. paste_main tas_lock (flat_copy_out [16]) flat_load 16 (s2, \<lambda>_. 0) =
      Inr (0, ''Paste success, value: '' @ quoted (fmt_d 2147483647) @ newline, s3, m')"
  using copy_paste_roundtrip [OF flat_kb.kb_env_axioms [of 16], of "kb_boot True" 2147483647 "[[], fmt_d 2147483647]" "\<lambda>_. 0"]
  by (auto simp: kb_boot_def word_sless_alt)

text \<open>
  The synchronisation test never finds a fault: with \<open>copy_sync_test\<close> and \<open>paste_sync_test\<close> alone on an empty
  kboard, in any order of their iterations and for ever, the number pasted is always the number
  expected, and neither program is ever blocked. This covers the time after \<open>2^31\<close> copies too, when
  the number to copy has become negative and is refused.
\<close>

lemma sync_test_no_fault:
  assumes "kb_env L held ctu load a" and "kb_wf s" and "\<not> held (Lock s)" and "kb_contents s = []"
    and "reach (sync_test_step L ctu load a) (sync_test_start s m) c"
  shows "test_fault c = None \<and> (\<exists>c'. sync_test_step L ctu load a copying c = Some c')"
proof -
  have inv: "test_inv held c"
    using kb_env.test_inv_reach [OF assms] .
  then show ?thesis
    using kb_env.copy_sync_inv [OF assms(1) inv] kb_env.paste_sync_inv [OF assms(1) inv]
    by (auto simp: sync_test_step_def test_inv_def)
qed

lemma sync_test_no_fault_witness:
  "\<exists>c. reach (sync_test_step tas_lock (flat_copy_out [16]) flat_load 16) (sync_test_start (kb_boot False) (\<lambda>_. 0)) c \<and>
    test_expect c = 1 \<and> test_fault c = None"
proof -
  let ?f = "sync_test_step tas_lock (flat_copy_out [16]) flat_load 16" and ?c = "sync_test_start (kb_boot False) (\<lambda>_. 0)"
  have "\<exists>c. exec ?f [True, False] ?c = Some c \<and> test_expect c = 1"
    by (simp add: sync_test_step_def sync_test_start_def copy_sync_iter_def paste_sync_iter_def kboard_copy_eq kboard_paste_eq
        do_sys_kb_enqueue_def do_sys_kb_dequeue_def kb_boot_def kb_defs tas_lock_def flat_copy_out_def flat_load_def c_eval)
  then obtain c where r: "reach ?f ?c c" and e: "test_expect c = 1"
    by (elim exE conjE) (rule that [OF exec_reach])
  show ?thesis
    using sync_test_no_fault [OF flat_kb.kb_env_axioms [of 16] kb_boot_env r] r e by blast
qed

end
