(* ===== verification/Sync_Programs.thy ===== *)
theory Sync_Programs
  imports Kboard_User Os_Kboard_Conc
begin

text \<open>
  The synchronisation test of \<open>lab1/user\<close> without the assumption that system calls are atomic: \<open>copy_sync_test\<close> and
  \<open>paste_sync_test\<close> are two processes of \<open>Os_Kboard_Conc\<close>, and the scheduler may switch between them at every statement of a
  system call. Process 0 copies, process 1 pastes. The proof needs of the kernel only its history (\<open>kb_linearizable\<close>): what
  was pasted is a beginning of what was copied.
\<close>

section \<open>The two programs on the concurrent kernel\<close>

text \<open>
  \<open>copy_call\<close> and \<open>paste_call\<close>: \<open>None\<close> while the program is in its own code; in a system call \<open>Some r\<close>, where \<open>r\<close> is its result as
  soon as the call has one, and \<open>None\<close> until then or if the copy to user memory has failed. The other fields are the
  variables of the programs, and the message of \<open>paste_sync_test\<close>, after which it stops.
\<close>

record 'lk progs =
  kern :: "'lk ksys"
  copy_call :: "cint qres option option"
  paste_call :: "cint qres option option"
  copy_value :: cint
  paste_expect :: cint
  paste_iteration :: cint
  paste_fault :: "string option"

datatype pchoice = CopyCall | CopyReturn | PasteCall | PasteReturn | Kernel nat bool

text \<open>The result a statement of a call has just determined, from the entry it adds to the history.\<close>

definition noted :: "(cint qop \<times> cint qres) list \<Rightarrow> cint qres option option \<Rightarrow> cint qres option option" where
  "noted l r = (case l of [] \<Rightarrow> r | e # _ \<Rightarrow> Some (Some (snd e)))"

text \<open>The loop body of \<open>paste_sync_test\<close> behind a successful \<open>kboard_paste\<close>.\<close>

definition paste_check :: "cint \<Rightarrow> 'lk progs \<Rightarrow> 'lk progs" where
  "paste_check v c =
     (if v \<noteq> paste_expect c then
        c\<lparr>paste_fault := Some (''Validation fault, clipBoard: '' @ quoted (fmt_d v) @ '', expect: '' @
          quoted (fmt_d (paste_expect c)) @ '', iteration: '' @ quoted (fmt_d (paste_iteration c)) @ newline)\<rparr>
      else c\<lparr>paste_expect := paste_expect c + 1\<rparr>)"

text \<open>
  The loops of the programs, cut at their system calls. A negative number is refused by \<open>kb_enqueue\<close> before it touches
  the kboard, and the loop continues. A call returns to its program when its process is idle again; any result but
  \<open>Accepted\<close>, or \<open>Got\<close>, is a return value other than 0.
\<close>

fun progs_step :: "'lk spin_ops \<Rightarrow> pchoice \<Rightarrow> 'lk progs \<Rightarrow> 'lk progs option" where
  "progs_step L CopyCall c =
     (if copy_call c \<noteq> None then None
      else if copy_value c <s 0 then Some c
      else map_option (\<lambda>k. c\<lparr>kern := k, copy_call := Some None\<rparr>) (ksys_step L (KStart 0 (JEnq (copy_value c))) (kern c)))"
| "progs_step L CopyReturn c =
     (case copy_call c of None \<Rightarrow> None
      | Some r \<Rightarrow> if stmts (kern c) ! 0 \<noteq> KIdle then None
          else Some (c\<lparr>copy_call := None, copy_value := (if r = Some Accepted then copy_value c + 1 else copy_value c)\<rparr>))"
| "progs_step L PasteCall c =
     (if paste_call c \<noteq> None \<or> paste_fault c \<noteq> None then None
      else map_option (\<lambda>k. c\<lparr>kern := k, paste_call := Some None, paste_iteration := paste_iteration c + 1\<rparr>)
        (ksys_step L (KStart 1 JDeq) (kern c)))"
| "progs_step L PasteReturn c =
     (case paste_call c of None \<Rightarrow> None
      | Some r \<Rightarrow> if stmts (kern c) ! 1 \<noteq> KIdle then None
          else Some ((case r of Some (Got v) \<Rightarrow> paste_check v | _ \<Rightarrow> id) (c\<lparr>paste_call := None\<rparr>)))"
| "progs_step L (Kernel t ok) c =
     (case ksys_step L (KSched t ok) (kern c) of None \<Rightarrow> None
      | Some k \<Rightarrow>
          let l = drop (length (klog (kern c))) (klog k)
          in Some (c\<lparr>kern := k, copy_call := (if t = 0 then noted l (copy_call c) else copy_call c),
               paste_call := (if t = 1 then noted l (paste_call c) else paste_call c)\<rparr>))"

definition progs_start :: "'lk spin_ops \<Rightarrow> 'lk progs" where
  "progs_start L = \<lparr>kern = ksys_start L 2, copy_call = None, paste_call = None, copy_value = 0, paste_expect = 0,
     paste_iteration = 0, paste_fault = None\<rparr>"

section \<open>The invariant\<close>

text \<open>Where the processes are, by the state of their calls.\<close>

fun copy_at :: "cint \<Rightarrow> cint qres option option \<Rightarrow> kstmt \<Rightarrow> bool" where
  "copy_at v None b \<longleftrightarrow> b = KIdle"
| "copy_at v (Some None) b \<longleftrightarrow> b \<in> {ELock v, ETest v, EPut v, EInc v}"
| "copy_at v (Some (Some r)) b \<longleftrightarrow> b \<in> {KUnlock, KIdle} \<and> r \<in> {Accepted, Rejected}"

fun paste_at :: "cint qres option option \<Rightarrow> kstmt \<Rightarrow> bool" where
  "paste_at None b \<longleftrightarrow> b = KIdle"
| "paste_at (Some None) b \<longleftrightarrow> b \<in> {DLock, DTest, DCopy, KUnlock, KIdle} \<or> (\<exists>v. b \<in> {DClear v, DDec v, DAdvance v})"
| "paste_at (Some (Some r)) b \<longleftrightarrow> b \<in> {KUnlock, KIdle} \<and> (r = Nothing \<or> (\<exists>v. r = Got v))"

definition log_accepted :: "(cint qop \<times> cint qres) list \<Rightarrow> cint list" where
  "log_accepted log = accepted (map fst log) (map snd log)"

definition log_received :: "(cint qop \<times> cint qres) list \<Rightarrow> cint list" where
  "log_received log = received (map snd log)"

text \<open>What was accepted is 0, 1, 2, ..., and the programs' counters are where they should be.\<close>

definition copies_ok :: "cint list \<Rightarrow> cint \<Rightarrow> cint qres option option \<Rightarrow> bool" where
  "copies_ok xs v call \<longleftrightarrow> xs = map of_nat [0..<length xs] \<and>
     of_nat (length xs) = (if call = Some (Some Accepted) then v + 1 else v)"

definition pastes_ok :: "cint list \<Rightarrow> cint \<Rightarrow> cint qres option option \<Rightarrow> bool" where
  "pastes_ok ys e call \<longleftrightarrow>
     (case call of Some (Some (Got v)) \<Rightarrow> \<exists>vs. ys = vs @ [v] \<and> e = of_nat (length vs) | _ \<Rightarrow> e = of_nat (length ys))"

lemma log_snoc:
  "log_accepted (log @ [(x, r)]) = log_accepted log @ (case x of Enq y \<Rightarrow> if r = Accepted then [y] else [] | Deq \<Rightarrow> [])"
  "log_received (log @ [(x, r)]) = log_received log @ (case r of Got v \<Rightarrow> [v] | _ \<Rightarrow> [])"
  by (simp_all add: log_accepted_def log_received_def accepted_snoc received_snoc)


text \<open>A statement of a process keeps its part of the invariant and leaves the other part alone.\<close>

lemma copy_stmt:
  assumes "copy_at v call b" and "kstmt_step L ok b s = Inr (b', s', l)" and "copies_ok (log_accepted log) v call"
  shows "copy_at v (noted l call) b' \<and> copies_ok (log_accepted (log @ l)) v (noted l call) \<and> log_received (log @ l) = log_received log"
proof (cases "(v, call, b)" rule: copy_at.cases)
  case (2 v b)
  then show ?thesis
    using assms by (auto simp: noted_def copies_ok_def log_snoc rbind_Inr split: if_splits)
qed (use assms in \<open>auto simp: noted_def\<close>)

lemma paste_stmt:
  assumes "paste_at call b" and "kstmt_step L ok b s = Inr (b', s', l)" and "pastes_ok (log_received log) e call"
  shows "paste_at (noted l call) b' \<and> pastes_ok (log_received (log @ l)) e (noted l call) \<and> log_accepted (log @ l) = log_accepted log"
proof (cases "(call, b)" rule: paste_at.cases)
  case (2 b)
  then show ?thesis
    using assms by (auto simp: noted_def pastes_ok_def log_snoc rbind_Inr split: if_splits)
qed (use assms in \<open>auto simp: noted_def\<close>)

definition progs_inv :: "'lk spin_ops \<Rightarrow> 'lk progs \<Rightarrow> bool" where
  "progs_inv L c \<longleftrightarrow> reach (steady_step L) (ksys_start L 2) (kern c) \<and> paste_fault c = None \<and>
     copy_at (copy_value c) (copy_call c) (stmts (kern c) ! 0) \<and> paste_at (paste_call c) (stmts (kern c) ! 1) \<and>
     copies_ok (log_accepted (klog (kern c))) (copy_value c) (copy_call c) \<and> pastes_ok (log_received (klog (kern c))) (paste_expect c) (paste_call c)"

context kernel_spinlock
begin

lemma progs_kernel:
  assumes inv: "progs_inv L c" and step: "progs_step L (Kernel t ok) c = Some c'"
  shows "progs_inv L c'"
proof -
  let ?k = "kern c"
  have r: "reach (steady_step L) (ksys_start L 2) ?k"
    using inv by (simp add: progs_inv_def)
  obtain k' where k': "ksys_step L (KSched t ok) ?k = Some k'"
    using step by (auto split: option.splits)
  have r': "reach (steady_step L) (ksys_start L 2) k'"
    using reach.step [OF r, of "KSched t ok"] k' by (simp add: steady_step_def)
  from k' obtain b s l where b: "t < length (stmts ?k)" "kstmt_step L ok (stmts ?k ! t) (kboard_of ?k) = Inr (b, s, l)"
    and eq: "k' = \<lparr>kboard_of = s, stmts = (stmts ?k)[t := b], klog = klog ?k @ l\<rparr>"
    by (rule ksched_cases)
  have len: "length (stmts ?k) = 2"
    by (rule kreach_length [OF r])
  have c': "c' = c\<lparr>kern := k', copy_call := (if t = 0 then noted l (copy_call c) else copy_call c),
      paste_call := (if t = 1 then noted l (paste_call c) else paste_call c)\<rparr>"
    using step k' eq by (simp del: ksys_step.simps)
  consider "t = 0" | "t = 1"
    using b(1) len by linarith
  then show ?thesis
  proof cases
    case 1
    then show ?thesis
      using inv r' eq b c' len copy_stmt [of "copy_value c" "copy_call c" "stmts ?k ! 0" L ok "kboard_of ?k" b s l "klog ?k"]
      by (simp add: progs_inv_def)
  next
    case 2
    then show ?thesis
      using inv r' eq b c' len paste_stmt [of "paste_call c" "stmts ?k ! 1" L ok "kboard_of ?k" b s l "klog ?k" "paste_expect c"]
      by (simp add: progs_inv_def)
  qed
qed


lemma progs_start_call:
  assumes inv: "progs_inv L c" and k: "ksys_step L (KStart t j) (kern c) = Some k'" and j: "j \<noteq> JInit"
  shows "reach (steady_step L) (ksys_start L 2) k' \<and> klog k' = klog (kern c) \<and> stmts k' = (stmts (kern c))[t := kfirst j] \<and>
    length (stmts (kern c)) = 2"
proof -
  have r: "reach (steady_step L) (ksys_start L 2) (kern c)"
    using inv by (simp add: progs_inv_def)
  moreover have "steady_step L (KStart t j) (kern c) = Some k'"
    using k j by (cases j) (simp_all add: steady_step_def)
  ultimately have "reach (steady_step L) (ksys_start L 2) k'"
    by (rule reach.step)
  then show ?thesis
    using k kreach_length [OF r] by (auto split: if_splits)
qed

text \<open>What was received is counted up from 0, because it is a prefix of what was accepted.\<close>

lemma progs_received:
  assumes inv: "progs_inv L c"
  shows "log_received (klog (kern c)) = map of_nat [0..<length (log_received (klog (kern c)))]"
proof -
  let ?ys = "log_received (klog (kern c))" and ?xs = "log_accepted (klog (kern c))"
  have "kinv held (kern c)"
    using inv kinv_reach [of 2 "kern c"] by (simp add: progs_inv_def)
  then obtain q where q: "?xs = ?ys @ q"
    using bq_run_fifo kinv_queue by (fastforce simp: log_accepted_def log_received_def)
  have "?xs = map of_nat [0..<length ?xs]"
    using inv by (simp add: progs_inv_def copies_ok_def)
  then have "take (length ?ys) ?xs = map of_nat (take (length ?ys) [0..<length ?xs])"
    by (metis take_map)
  then show ?thesis
    using q by (simp add: take_upt)
qed

lemma progs_paste_return:
  assumes inv: "progs_inv L c" and call: "paste_call c = Some r" "stmts (kern c) ! 1 = KIdle"
  shows "progs_inv L ((case r of Some (Got v) \<Rightarrow> paste_check v | _ \<Rightarrow> id) (c\<lparr>paste_call := None\<rparr>))"
proof (cases "\<exists>v. r = Some (Got v)")
  case True
  then obtain v vs where v: "r = Some (Got v)" "log_received (klog (kern c)) = vs @ [v]" "paste_expect c = of_nat (length vs)"
    using inv call(1) by (auto simp: progs_inv_def pastes_ok_def)
  then have "v = of_nat (length vs)"
    using progs_received [OF inv] by simp
  then show ?thesis
    using inv call(2) v by (simp add: progs_inv_def paste_check_def pastes_ok_def)
next
  case False
  then have "(case r of Some (Got v) \<Rightarrow> paste_check v | _ \<Rightarrow> id) = id"
    by (auto split: option.splits qres.splits)
  then show ?thesis
    using False inv call by (auto simp: progs_inv_def pastes_ok_def split: option.splits qres.splits)
qed

lemma progs_inv_step:
  assumes inv: "progs_inv L c" and step: "progs_step L x c = Some c'"
  shows "progs_inv L c'"
proof (cases x)
  case CopyCall
  then show ?thesis
    using step inv progs_start_call [OF inv, of 0 "JEnq (copy_value c)"]
    by (auto simp: progs_inv_def copies_ok_def simp del: ksys_step.simps split: if_splits)
next
  case CopyReturn
  then show ?thesis
    using step inv by (auto simp: progs_inv_def copies_ok_def split: if_splits option.splits)
next
  case PasteCall
  then show ?thesis
    using step inv progs_start_call [OF inv, of 1 JDeq]
    by (auto simp: progs_inv_def pastes_ok_def simp del: ksys_step.simps split: if_splits)
next
  case PasteReturn
  then show ?thesis
    using step progs_paste_return [OF inv] by (auto split: if_splits option.splits)
next
  case (Kernel t ok)
  then show ?thesis
    using step progs_kernel [OF inv] by blast
qed

lemma progs_inv_reach:
  assumes "reach (progs_step L) (progs_start L) c"
  shows "progs_inv L c"
  using assms
proof (induction rule: reach_invariant)
  case start
  show ?case
    by (simp add: progs_inv_def progs_start_def reach.start ksys_start_def copies_ok_def pastes_ok_def log_accepted_def log_received_def)
qed (rule progs_inv_step)

lemma progs_go_on:
  assumes inv: "progs_inv L c" and call: "copy_call c \<noteq> None \<or> paste_call c \<noteq> None"
  shows "\<exists>x \<in> {CopyReturn, PasteReturn, Kernel 0 ok, Kernel 1 ok}. \<exists>c'. progs_step L x c = Some c'"
proof (cases "\<exists>t < length (stmts (kern c)). stmts (kern c) ! t \<noteq> KIdle")
  case True
  have "kinv held (kern c)" "length (stmts (kern c)) = 2"
    using inv kinv_reach [of 2 "kern c"] kreach_length [of 2 "kern c"] by (simp_all add: progs_inv_def)
  with True obtain u k where "u < 2" "ksys_step L (KSched u ok) (kern c) = Some k"
    using kinv_goes_on [of "kern c" _ ok] by metis
  moreover from this(1) have "u = 0 \<or> u = 1" by linarith
  ultimately show ?thesis
    by (auto simp: Let_def simp del: ksys_step.simps)
next
  case False
  then have "stmts (kern c) ! 0 = KIdle" "stmts (kern c) ! 1 = KIdle"
    using inv kreach_length [of 2 "kern c"] by (auto simp: progs_inv_def)
  then show ?thesis
    using call by auto
qed

end

section \<open>Properties\<close>

text \<open>
  C17: The synchronisation test on the concurrent kernel: with \<open>copy_sync_test\<close> and \<open>paste_sync_test\<close> running together from
  boot, switched at any statement of their system calls, whichever copies to user memory fail, and for ever, the
  numbers pasted are 0, 1, 2, ... in this order, no fault is reported, and a program inside a system call never keeps both
  from going on.
\<close>

theorem sync_programs_no_fault:
  assumes "kernel_spinlock L held" and "reach (progs_step L) (progs_start L) c"
  shows "paste_fault c = None \<and>
    received (map snd (klog (kern c))) = map of_nat [0..<length (received (map snd (klog (kern c))))] \<and>
    (copy_call c \<noteq> None \<or> paste_call c \<noteq> None \<longrightarrow>
      (\<exists>x \<in> {CopyReturn, PasteReturn, Kernel 0 ok, Kernel 1 ok}. \<exists>c'. progs_step L x c = Some c'))"
proof -
  have inv: "progs_inv L c"
    by (rule kernel_spinlock.progs_inv_reach [OF assms])
  then have "paste_fault c = None"
    by (simp add: progs_inv_def)
  then show ?thesis
    using kernel_spinlock.progs_received [OF assms(1) inv, unfolded log_received_def]
      kernel_spinlock.progs_go_on [OF assms(1) inv] by blast
qed

text \<open>Both programs have called; the copy is done when the paste takes the lock, delivers 0, and returns.\<close>

definition progs_demo :: "pchoice list" where
  "progs_demo = [CopyCall, PasteCall] @ replicate 5 (Kernel 0 True) @ [CopyReturn, CopyCall] @ replicate 7 (Kernel 1 True) @ [PasteReturn]"

lemma progs_demo_run:
  "\<exists>c. exec (progs_step tas_lock) progs_demo (progs_start tas_lock) = Some c \<and>
    paste_expect c = 1 \<and> copy_call c = Some None \<and> klog (kern c) = [(Enq 0, Accepted), (Deq, Got 0)]"
  by (simp add: progs_demo_def progs_start_def ksys_eval noted_def paste_check_def eval_nat_numeral)

theorem sync_programs_no_fault_witness:
  "\<exists>c. reach (progs_step tas_lock) (progs_start tas_lock) c \<and> paste_expect c = 1 \<and> paste_fault c = None \<and>
    (\<exists>x \<in> {CopyReturn, PasteReturn, Kernel 0 True, Kernel 1 True}. \<exists>c'. progs_step tas_lock x c = Some c')"
proof -
  obtain c where r: "reach (progs_step tas_lock) (progs_start tas_lock) c" and e: "paste_expect c = 1" "copy_call c = Some None"
    using progs_demo_run by (blast intro: exec_reach)
  show ?thesis
    using sync_programs_no_fault [OF tas.kernel_spinlock_axioms r, of True] r e by blast
qed

end
