(* ===== verification/User_Processes.thy ===== *)
theory User_Processes
  imports Sync_Programs "HOL-Library.Multiset"
begin

text \<open>
  The programs \<open>copy\<close> and \<open>paste\<close> of \<open>lab1/user\<close> as processes of \<open>Os_Kboard_Conc\<close>: any number of them run together, and the
  scheduler may switch between them at every statement of their system calls. Whatever happens, what the pastes print
  and what is left in the kboard is what the copies have put in, nothing twice and nothing invented.
\<close>

section \<open>The programs as processes\<close>

datatype program = Copy_program "string list" | Paste_program

text \<open>
  A process before its system call, in it, and after it. \<open>r\<close> is the result of the call as soon as there is one; \<open>Exited\<close> has
  the exit code and what the program printed.
\<close>

datatype uproc = Fresh program | Calling program "cint qres option" | Exited program "cint qres option" cint string

record 'lk users =
  ukern :: "'lk ksys"
  procs :: "uproc list"

datatype uchoice = Exec nat | Return nat | UKernel nat bool

text \<open>
  The code of the two programs behind their system call. The call returns 0 if it was accepted, or got an item, and
  otherwise a negative number, of which the C library makes -1.
\<close>

fun prog_exit :: "program \<Rightarrow> cint qres option \<Rightarrow> cint \<times> string" where
  "prog_exit (Copy_program argv) r =
     (if r \<noteq> Some Accepted then (- 1, ''Copy failed, KBoard is full or invalid clip'' @ newline)
      else (0, ''Copy success, value: '' @ quoted (fmt_d (atoi (argv ! 1))) @ newline))"
| "prog_exit Paste_program r =
     (case r of
        Some (Got v) \<Rightarrow>
          if v <s 0 then (- 1, ''Paste failed, Invalid value received, value: '' @ quoted (fmt_d v) @ newline)
          else (0, ''Paste success, value: '' @ quoted (fmt_d v) @ newline)
      | _ \<Rightarrow> (- 1, ''Paste failed, KBoard is empty'' @ newline))"

definition exited :: "program \<Rightarrow> cint qres option \<Rightarrow> uproc" where
  "exited p r = Exited p r (fst (prog_exit p r)) (snd (prog_exit p r))"

fun note_call :: "(cint qop \<times> cint qres) list \<Rightarrow> uproc \<Rightarrow> uproc" where
  "note_call (e # l) (Calling p r) = Calling p (Some (snd e))"
| "note_call l q = q"

text \<open>
  The code of the two programs up to their system call. A negative number is refused by \<open>kb_enqueue\<close> before it touches the
  kboard.
\<close>

fun users_step :: "'lk spin_ops \<Rightarrow> uchoice \<Rightarrow> 'lk users \<Rightarrow> 'lk users option" where
  "users_step L (Exec t) c =
     (if t < length (procs c) then
        case procs c ! t of
          Fresh (Copy_program argv) \<Rightarrow>
            if length argv < 2 then
              Some (c\<lparr>procs := (procs c)[t := Exited (Copy_program argv) None (- 1)
                (''Insert value for copy to clip board'' @ newline)]\<rparr>)
            else if atoi (argv ! 1) <s 0 then Some (c\<lparr>procs := (procs c)[t := exited (Copy_program argv) None]\<rparr>)
            else map_option (\<lambda>k. c\<lparr>ukern := k, procs := (procs c)[t := Calling (Copy_program argv) None]\<rparr>)
              (ksys_step L (KStart t (JEnq (atoi (argv ! 1)))) (ukern c))
        | Fresh Paste_program \<Rightarrow>
            map_option (\<lambda>k. c\<lparr>ukern := k, procs := (procs c)[t := Calling Paste_program None]\<rparr>)
              (ksys_step L (KStart t JDeq) (ukern c))
        | _ \<Rightarrow> None
      else None)"
| "users_step L (Return t) c =
     (if t < length (procs c) then
        case procs c ! t of
          Calling p r \<Rightarrow> if stmts (ukern c) ! t = KIdle then Some (c\<lparr>procs := (procs c)[t := exited p r]\<rparr>) else None
        | _ \<Rightarrow> None
      else None)"
| "users_step L (UKernel t ok) c =
     (case ksys_step L (KSched t ok) (ukern c) of None \<Rightarrow> None
      | Some k \<Rightarrow> Some (c\<lparr>ukern := k,
          procs := (procs c)[t := note_call (drop (length (klog (ukern c))) (klog k)) (procs c ! t)]\<rparr>))"

definition users_start :: "'lk spin_ops \<Rightarrow> program list \<Rightarrow> 'lk users" where
  "users_start L ps = \<lparr>ukern = ksys_start L (length ps), procs = map Fresh ps\<rparr>"

text \<open>The values that the processes have copied into the kboard, and pasted from it.\<close>

fun copied_by :: "uproc \<Rightarrow> cint multiset" where
  "copied_by (Calling (Copy_program argv) r) = (if r = Some Accepted then {#atoi (argv ! 1)#} else {#})"
| "copied_by (Exited (Copy_program argv) r ret out) = (if r = Some Accepted then {#atoi (argv ! 1)#} else {#})"
| "copied_by q = {#}"

fun pasted_by :: "uproc \<Rightarrow> cint multiset" where
  "pasted_by (Calling Paste_program r) = (case r of Some (Got v) \<Rightarrow> {#v#} | _ \<Rightarrow> {#})"
| "pasted_by (Exited Paste_program r ret out) = (case r of Some (Got v) \<Rightarrow> {#v#} | _ \<Rightarrow> {#})"
| "pasted_by q = {#}"

definition copied :: "'lk users \<Rightarrow> cint multiset" where
  "copied c = sum_list (map copied_by (procs c))"

definition pasted :: "'lk users \<Rightarrow> cint multiset" where
  "pasted c = sum_list (map pasted_by (procs c))"

text \<open>The exit of a program is that of its \<open>main\<close> as a function, for the result its system call has.\<close>

lemma kb_rets:
  "do_sys_kb_enqueue L x s = Inr (ret, s') \<Longrightarrow> ret \<in> {0, - 1, - 2}"
  "do_sys_kb_dequeue L ctu a (s, m) = Inr (ret, s', m') \<Longrightarrow> ret \<in> {0, - 1, - 2}"
  by (auto simp: do_sys_kb_enqueue_def do_sys_kb_dequeue_def rbind_Inr Let_def case_prod_beta split: if_splits)

lemma copy_main_exit:
  assumes "\<not> length argv < 2"
  shows "copy_main L ctu argv (s, m) =
    rbind (do_sys_kb_enqueue L (atoi (argv ! 1)) s) (\<lambda>(ret, s').
      case prog_exit (Copy_program argv) (if ret = 0 then Some Accepted else None) of (code, out) \<Rightarrow> Inr (code, out, s', m))"
  using assms kb_rets(1) [of L "atoi (argv ! 1)" s]
  by (cases "do_sys_kb_enqueue L (atoi (argv ! 1)) s") (auto simp: copy_main_def kboard_copy_eq Let_def)

lemma paste_main_exit:
  "paste_main L ctu load a (s, m) =
    rbind (do_sys_kb_dequeue L ctu a (s, m)) (\<lambda>(ret, s', m').
      case prog_exit Paste_program (if ret = 0 then Some (Got (load m' a)) else None) of (code, out) \<Rightarrow> Inr (code, out, s', m'))"
  using kb_rets(2) [of L ctu a s m]
  by (cases "do_sys_kb_dequeue L ctu a (s, m)") (auto simp: paste_main_def kboard_paste_eq)

section \<open>The invariant\<close>

text \<open>What a process that has exited printed.\<close>

fun exit_ok :: "program \<Rightarrow> cint qres option \<Rightarrow> cint \<Rightarrow> string \<Rightarrow> bool" where
  "exit_ok (Copy_program argv) r ret out \<longleftrightarrow>
     (if length argv < 2 then r = None \<and> (ret, out) = (- 1, ''Insert value for copy to clip board'' @ newline)
      else (ret, out) = prog_exit (Copy_program argv) r \<and> (r = Some Accepted \<longrightarrow> \<not> atoi (argv ! 1) <s 0))"
| "exit_ok Paste_program r ret out \<longleftrightarrow> (ret, out) = prog_exit Paste_program r"

fun proc_at :: "uproc \<Rightarrow> kstmt \<Rightarrow> bool" where
  "proc_at (Fresh p) b \<longleftrightarrow> b = KIdle"
| "proc_at (Calling (Copy_program argv) r) b \<longleftrightarrow>
     2 \<le> length argv \<and> \<not> atoi (argv ! 1) <s 0 \<and> copy_at (atoi (argv ! 1)) (Some r) b"
| "proc_at (Calling Paste_program r) b \<longleftrightarrow> paste_at (Some r) b"
| "proc_at (Exited p r ret out) b \<longleftrightarrow> b = KIdle \<and> exit_ok p r ret out"

fun prog_of :: "uproc \<Rightarrow> program" where
  "prog_of (Fresh p) = p"
| "prog_of (Calling p r) = p"
| "prog_of (Exited p r ret out) = p"

definition users_inv :: "'lk spin_ops \<Rightarrow> program list \<Rightarrow> 'lk users \<Rightarrow> bool" where
  "users_inv L ps c \<longleftrightarrow> reach (steady_step L) (ksys_start L (length ps)) (ukern c) \<and> map prog_of (procs c) = ps \<and>
     (\<forall>t < length ps. proc_at (procs c ! t) (stmts (ukern c) ! t)) \<and>
     mset (log_accepted (klog (ukern c))) = copied c \<and> mset (log_received (klog (ukern c))) = pasted c"

lemma sum_list_move:
  fixes g :: "'a \<Rightarrow> 'b multiset"
  assumes "t < length ps" and "g p = g (ps ! t) + m"
  shows "sum_list (map g (ps[t := p])) = sum_list (map g ps) + m"
proof -
  have "sum_list (map g ps) = sum_list (map g (take t ps)) + g (ps ! t) + sum_list (map g (drop (Suc t) ps))"
    by (subst id_take_nth_drop [OF assms(1)]) (simp add: add.assoc)
  then show ?thesis
    using assms by (simp add: upd_conv_take_nth_drop ac_simps)
qed

lemma sum_list_member:
  fixes g :: "'a \<Rightarrow> 'b multiset"
  assumes "p \<in> set ps"
  shows "g p \<subseteq># sum_list (map g ps)"
proof -
  obtain xs ys where "ps = xs @ p # ys"
    using assms by (meson split_list)
  then have "sum_list (map g ps) = g p + (sum_list (map g xs) + sum_list (map g ys))"
    by (simp add: ac_simps)
  then show ?thesis
    by simp
qed

lemma by_exited [simp]:
  "copied_by (exited p r) = copied_by (Calling p r)" "pasted_by (exited p r) = pasted_by (Calling p r)"
  "prog_of (exited p r) = p"
  by (cases p; simp add: exited_def)+

lemma prog_of_note [simp]: "prog_of (note_call l q) = prog_of q"
  by (cases "(l, q)" rule: note_call.cases) simp_all

lemma proc_exits: "proc_at (Calling p r) b \<Longrightarrow> proc_at (exited p r) KIdle"
  by (cases p) (simp_all add: exited_def)

text \<open>A statement of a call.\<close>

lemma proc_stmt:
  assumes "proc_at q b" and "kstmt_step L ok b s = Inr (b', s', l)"
  shows "proc_at (note_call l q) b' \<and> copied_by (note_call l q) = copied_by q + mset (log_accepted l) \<and>
    pasted_by (note_call l q) = pasted_by q + mset (log_received l)"
proof -
  note eval = log_accepted_def log_received_def rbind_Inr
  show ?thesis
  proof (cases "(q, b)" rule: proc_at.cases)
    case (2 argv r b)
    then show ?thesis
      using assms by (cases r) (auto simp: eval split: if_splits)
  next
    case (3 r b)
    then show ?thesis
      using assms by (cases r) (auto simp: eval split: if_splits)
  qed (use assms in auto)
qed

lemma log_append:
  "log_accepted (log @ l) = log_accepted log @ log_accepted l" "log_received (log @ l) = log_received log @ log_received l"
  by (induction l rule: rev_induct) (simp_all add: log_accepted_def log_received_def accepted_snoc received_snoc flip: append_assoc)

context kernel_spinlock
begin

lemma users_length:
  assumes "users_inv L ps c"
  shows "length (procs c) = length ps" and "length (stmts (ukern c)) = length ps"
  using assms kreach_length by (auto simp: users_inv_def)

lemma users_prog:
  assumes "users_inv L ps c" and "t < length ps"
  shows "prog_of (procs c ! t) = ps ! t"
proof -
  have "map prog_of (procs c) = ps"
    using assms(1) by (simp add: users_inv_def)
  then show ?thesis
    using nth_map [of t "procs c" prog_of] assms(2) users_length(1) [OF assms(1)] by simp
qed

text \<open>One process moves: its statement, its state and what it has copied or pasted.\<close>

lemma users_move:
  assumes inv: "users_inv L ps c" and t: "t < length ps" and r: "reach (steady_step L) (ksys_start L (length ps)) k"
    and k: "stmts k = (stmts (ukern c))[t := b]" "klog k = klog (ukern c) @ l"
    and q: "proc_at q b" "prog_of q = prog_of (procs c ! t)"
      "copied_by q = copied_by (procs c ! t) + mset (log_accepted l)" "pasted_by q = pasted_by (procs c ! t) + mset (log_received l)"
  shows "users_inv L ps (c\<lparr>ukern := k, procs := (procs c)[t := q]\<rparr>)"
  unfolding users_inv_def
proof (intro conjI)
  note n = users_length [OF inv]
  have "ps[t := prog_of (procs c ! t)] = ps" and "map prog_of (procs c) = ps"
    using users_prog [OF inv t] inv by (simp_all add: users_inv_def)
  then show "map prog_of (procs (c\<lparr>ukern := k, procs := (procs c)[t := q]\<rparr>)) = ps"
    by (simp add: map_update q(2))
  show "\<forall>u < length ps. proc_at (procs (c\<lparr>ukern := k, procs := (procs c)[t := q]\<rparr>) ! u) (stmts (ukern (c\<lparr>ukern := k, procs := (procs c)[t := q]\<rparr>)) ! u)"
    using inv k(1) q(1) t n by (auto simp: users_inv_def nth_list_update)
  show "mset (log_accepted (klog (ukern (c\<lparr>ukern := k, procs := (procs c)[t := q]\<rparr>)))) = copied (c\<lparr>ukern := k, procs := (procs c)[t := q]\<rparr>)"
    using inv k(2) sum_list_move [of t "procs c" copied_by, OF _ q(3)] t n by (simp add: users_inv_def log_append copied_def)
  show "mset (log_received (klog (ukern (c\<lparr>ukern := k, procs := (procs c)[t := q]\<rparr>)))) = pasted (c\<lparr>ukern := k, procs := (procs c)[t := q]\<rparr>)"
    using inv k(2) sum_list_move [of t "procs c" pasted_by, OF _ q(4)] t n by (simp add: users_inv_def log_append pasted_def)
qed (simp add: r)

text \<open>A process moves in its own code.\<close>

lemma users_own:
  assumes inv: "users_inv L ps c" and t: "t < length ps" "stmts (ukern c) ! t = KIdle"
    and q: "proc_at q KIdle" "prog_of q = prog_of (procs c ! t)" "copied_by q = copied_by (procs c ! t)" "pasted_by q = pasted_by (procs c ! t)"
  shows "users_inv L ps (c\<lparr>procs := (procs c)[t := q]\<rparr>)"
proof -
  have "(stmts (ukern c))[t := KIdle] = stmts (ukern c)"
    using t(2) by (metis list_update_id)
  moreover have "reach (steady_step L) (ksys_start L (length ps)) (ukern c)"
    using inv by (simp add: users_inv_def)
  ultimately show ?thesis
    using users_move [OF inv t(1), of "ukern c" KIdle "[]" q] q by (simp add: log_accepted_def log_received_def)
qed

lemma users_exec:
  assumes inv: "users_inv L ps c" and t: "t < length ps" "procs c ! t = Fresh p" and k: "ksys_step L (KStart t j) (ukern c) = Some k'"
    and j: "p = Paste_program \<and> j = JDeq \<or> (\<exists>argv. p = Copy_program argv \<and> 2 \<le> length argv \<and> j = JEnq (atoi (argv ! 1)))"
  shows "users_inv L ps (c\<lparr>ukern := k', procs := (procs c)[t := Calling p None]\<rparr>)"
proof (rule users_move [OF inv t(1), of _ "kfirst j" "[]"])
  show "reach (steady_step L) (ksys_start L (length ps)) k'"
    using reach.step [of "steady_step L" "ksys_start L (length ps)" "ukern c" "KStart t j"] inv k j
    by (auto simp: users_inv_def steady_step_def simp del: ksys_step.simps)
qed (use k j t(2) in \<open>auto simp: log_accepted_def log_received_def split: if_splits\<close>)

lemma users_kernel:
  assumes inv: "users_inv L ps c" and step: "users_step L (UKernel t ok) c = Some c'"
  obtains k q where "ksys_step L (KSched t ok) (ukern c) = Some k" "c' = c\<lparr>ukern := k, procs := (procs c)[t := note_call q (procs c ! t)]\<rparr>"
    "users_inv L ps c'"
proof -
  obtain k' where k': "ksys_step L (KSched t ok) (ukern c) = Some k'"
    using step by (auto split: option.splits)
  then obtain b s l where b: "t < length (stmts (ukern c))" "kstmt_step L ok (stmts (ukern c) ! t) (kboard_of (ukern c)) = Inr (b, s, l)"
    and eq: "k' = \<lparr>kboard_of = s, stmts = (stmts (ukern c))[t := b], klog = klog (ukern c) @ l\<rparr>"
    by (rule ksched_cases)
  have t: "t < length ps"
    using users_length(2) [OF inv] b(1) by simp
  have "reach (steady_step L) (ksys_start L (length ps)) (ukern c)" and at: "proc_at (procs c ! t) (stmts (ukern c) ! t)"
    using inv t by (simp_all add: users_inv_def)
  then have r: "reach (steady_step L) (ksys_start L (length ps)) k'"
    using reach.step [of "steady_step L" _ "ukern c" "KSched t ok" k'] k' by (simp add: steady_step_def)
  have c': "c' = c\<lparr>ukern := k', procs := (procs c)[t := note_call l (procs c ! t)]\<rparr>"
    using step k' eq by (simp del: ksys_step.simps)
  show thesis
    using that [OF k' c'] users_move [OF inv t r, of b l "note_call l (procs c ! t)"] proc_stmt [OF at b(2)] eq c' by simp
qed

lemma users_inv_step:
  assumes inv: "users_inv L ps c" and step: "users_step L x c = Some c'"
  shows "users_inv L ps c'"
proof -
  note n = users_length(1) [OF inv]
  have at: "proc_at (procs c ! t) (stmts (ukern c) ! t)" if "t < length ps" for t
    using inv that by (simp add: users_inv_def)
  have early: "users_inv L ps (c\<lparr>procs := (procs c)[t := Exited p None ret out]\<rparr>)"
    if "t < length ps" "procs c ! t = Fresh p" "exit_ok p None ret out" for t p ret out
    using users_own [OF inv that(1)] at [OF that(1)] that(2,3) by (cases p) simp_all
  show ?thesis
  proof (cases x)
    case (Exec t)
    then show ?thesis
      using step n users_exec [OF inv] early
      by (auto simp: exited_def simp del: ksys_step.simps split: if_splits uproc.splits program.splits)
  next
    case (Return t)
    then obtain p r where c: "t < length ps" "procs c ! t = Calling p r" "stmts (ukern c) ! t = KIdle"
        "c' = c\<lparr>procs := (procs c)[t := exited p r]\<rparr>"
      using step n by (auto split: if_splits uproc.splits)
    then show ?thesis
      using users_own [OF inv c(1,3), of "exited p r"] proc_exits [of p r] at [OF c(1)] by simp
  next
    case (UKernel t ok)
    then show ?thesis
      using step users_kernel [OF inv] by blast
  qed
qed

lemma users_inv_reach:
  assumes "reach (users_step L) (users_start L ps) c"
  shows "users_inv L ps c"
  using assms
proof (induction rule: reach_invariant)
  case start
  have "copied (users_start L ps) = {#}" "pasted (users_start L ps) = {#}"
    by (simp_all add: users_start_def copied_def pasted_def comp_def)
  moreover have "map (prog_of \<circ> Fresh) ps = ps"
    by (simp add: comp_def)
  ultimately show ?case
    by (simp add: users_inv_def users_start_def reach.start ksys_start_def log_accepted_def log_received_def)
qed (rule users_inv_step)

lemma users_kinv: "users_inv L ps c \<Longrightarrow> kinv held (ukern c)"
  by (simp add: users_inv_def) (blast intro: kinv_reach)

text \<open>The values of the processes against the queue.\<close>

lemma users_conserve:
  assumes inv: "users_inv L ps c"
  shows "pasted c \<subseteq># copied c"
    and "cnt holds_lock (stmts (ukern c)) = 0 \<Longrightarrow> copied c = pasted c + mset (kb_contents (kboard_of (ukern c)))"
proof -
  have "kinv held (ukern c)"
    by (rule users_kinv [OF inv])
  then obtain q where run: "run_ops (bq_step 5) (map fst (klog (ukern c))) [] = (map snd (klog (ukern c)), q)"
    and q: "cnt holds_lock (stmts (ukern c)) = 0 \<longrightarrow> kb_contents (kboard_of (ukern c)) = q"
    using kinv_queue by blast
  have "log_accepted (klog (ukern c)) = log_received (klog (ukern c)) @ q"
    using bq_run_fifo [OF run] by (simp add: log_accepted_def log_received_def)
  then have "mset (log_accepted (klog (ukern c))) = mset (log_received (klog (ukern c))) + mset q"
    by simp
  moreover have "mset (log_accepted (klog (ukern c))) = copied c" "mset (log_received (klog (ukern c))) = pasted c"
    using inv by (simp_all add: users_inv_def)
  ultimately have "copied c = pasted c + mset q"
    by simp
  then show "pasted c \<subseteq># copied c" and "cnt holds_lock (stmts (ukern c)) = 0 \<Longrightarrow> copied c = pasted c + mset (kb_contents (kboard_of (ukern c)))"
    using q by simp_all
qed


text \<open>Every value copied is one that \<open>kb_enqueue\<close> accepts.\<close>

lemma users_copied:
  assumes inv: "users_inv L ps c" and v: "v \<in># copied c"
  shows "\<not> v <s 0"
proof -
  obtain t where t: "t < length (procs c)" "v \<in># copied_by (procs c ! t)"
    using v by (auto simp: copied_def in_set_conv_nth)
  then have "proc_at (procs c ! t) (stmts (ukern c) ! t)"
    using inv users_length(1) [OF inv] by (simp add: users_inv_def)
  then show ?thesis
    using t(2) by (cases "procs c ! t" rule: copied_by.cases) (auto split: if_splits)
qed

lemma users_pasted:
  assumes inv: "users_inv L ps c" and t: "t < length ps" and q: "procs c ! t = Exited Paste_program (Some (Got v)) ret out"
  shows "v \<in># copied c"
proof -
  have "pasted_by (procs c ! t) \<subseteq># pasted c"
    using t users_length(1) [OF inv] by (auto simp: pasted_def intro: sum_list_member)
  then show ?thesis
    using users_conserve(1) [OF inv] q by (auto dest: mset_subset_eqD)
qed

end

section \<open>Completion\<close>

text \<open>The statements the processes have left, at most.\<close>

definition own_left :: "uproc \<Rightarrow> nat" where
  "own_left q = (case q of Fresh _ \<Rightarrow> 9 | Calling _ _ \<Rightarrow> 1 | Exited _ _ _ _ \<Rightarrow> 0)"

definition users_work :: "'lk users \<Rightarrow> nat" where
  "users_work c = sum_list (map own_left (procs c)) + sum_list (map kleft (stmts (ukern c)))"

lemma own_left_note [simp]: "own_left (note_call l q) = own_left q"
  by (cases "(l, q)" rule: note_call.cases) (simp_all add: own_left_def)

lemma sum_list_nat_move:
  fixes g :: "'a \<Rightarrow> nat"
  assumes "t < length ps"
  shows "sum_list (map g (ps[t := p])) + g (ps ! t) = sum_list (map g ps) + g p"
  using member_le_sum_list [of "g (ps ! t)" "map g ps"] assms sum_list_update [of t "map g ps" "g p"] by (simp add: map_update)

context kernel_spinlock
begin

lemma users_work_step:
  assumes inv: "users_inv L ps c" and step: "users_step L x c = Some c'"
  shows "users_work c' < users_work c"
proof (cases x)
  case (Exec t)
  then have t: "t < length (procs c)"
    using step by (simp split: if_splits)
  have work: "sum_list (map kleft (stmts k)) \<le> 7 + sum_list (map kleft (stmts (ukern c)))"
    if "ksys_step L (KStart t j) (ukern c) = Some k" for j k
  proof -
    have "t < length (stmts (ukern c))" "stmts k = (stmts (ukern c))[t := kfirst j]"
      using that by (auto split: if_splits)
    then show ?thesis
      using sum_list_nat_move [of t "stmts (ukern c)" kleft "kfirst j"] kleft_le [of "kfirst j"] by simp
  qed
  obtain p where p: "procs c ! t = Fresh p"
    using step Exec t by (auto split: uproc.splits)
  have "(\<exists>r ret out. c' = c\<lparr>procs := (procs c)[t := Exited p r ret out]\<rparr>) \<or>
      (\<exists>j k. ksys_step L (KStart t j) (ukern c) = Some k \<and> c' = c\<lparr>ukern := k, procs := (procs c)[t := Calling p None]\<rparr>)"
    using step Exec t p by (cases p) (auto simp: exited_def simp del: ksys_step.simps split: if_splits)
  moreover have move: "sum_list (map own_left ((procs c)[t := q])) + 9 = sum_list (map own_left (procs c)) + own_left q" for q
    using sum_list_nat_move [OF t, of own_left q] p by (simp add: own_left_def)
  ultimately show ?thesis
  proof (elim disjE exE conjE)
    fix r ret out
    assume "c' = c\<lparr>procs := (procs c)[t := Exited p r ret out]\<rparr>"
    then show ?thesis
      using move [of "Exited p r ret out"] by (simp add: users_work_def own_left_def)
  next
    fix j k
    assume "ksys_step L (KStart t j) (ukern c) = Some k" "c' = c\<lparr>ukern := k, procs := (procs c)[t := Calling p None]\<rparr>"
    then show ?thesis
      using move [of "Calling p None"] work [of j k] by (simp add: users_work_def own_left_def del: ksys_step.simps)
  qed
next
  case (Return t)
  then obtain p r where t: "t < length (procs c)" "procs c ! t = Calling p r" "c' = c\<lparr>procs := (procs c)[t := exited p r]\<rparr>"
    using step by (auto split: if_splits uproc.splits)
  then show ?thesis
    using sum_list_nat_move [OF t(1), of own_left "exited p r"] by (simp add: users_work_def own_left_def exited_def)
next
  case (UKernel t ok)
  then obtain k l where k: "ksys_step L (KSched t ok) (ukern c) = Some k"
    "c' = c\<lparr>ukern := k, procs := (procs c)[t := note_call l (procs c ! t)]\<rparr>"
    using step users_kernel [OF inv] by metis
  moreover have "t < length (procs c)"
    using k(1) users_length [OF inv] by (auto split: if_splits)
  ultimately show ?thesis
    using kwork_step(3) [OF users_kinv [OF inv] k(1)] sum_list_nat_move [of t "procs c" own_left "note_call l (procs c ! t)"]
    by (simp add: users_work_def)
qed

text \<open>Some process can go on, unless all have exited.\<close>

lemma users_go_on:
  assumes inv: "users_inv L ps c" and t: "t < length ps" "\<And>p r ret out. procs c ! t \<noteq> Exited p r ret out"
  shows "\<exists>x c'. users_step L x c = Some c'"
proof -
  note n = users_length [OF inv]
  have at: "proc_at (procs c ! t) (stmts (ukern c) ! t)"
    using inv t(1) by (simp add: users_inv_def)
  show ?thesis
  proof (cases "stmts (ukern c) ! t = KIdle")
    case True
    then have "(\<exists>c'. users_step L (Exec t) c = Some c') \<or> (\<exists>c'. users_step L (Return t) c = Some c')"
      using at t n by (auto split: uproc.splits program.splits)
    then show ?thesis by blast
  next
    case False
    then obtain u k where "ksys_step L (KSched u True) (ukern c) = Some k"
      using kinv_goes_on [OF users_kinv [OF inv], of t True] t(1) n by auto
    then have "\<exists>c'. users_step L (UKernel u True) c = Some c'"
      by (simp del: ksys_step.simps)
    then show ?thesis by blast
  qed
qed

lemma users_complete:
  assumes "exec (users_step L) xs (users_start L ps) = Some c"
  shows "length xs \<le> 9 * length ps"
proof -
  have "users_inv L ps (users_start L ps)"
    by (rule users_inv_reach [OF reach.start])
  then have "users_inv L ps c \<and> length xs + users_work c \<le> users_work (users_start L ps)"
    using exec_measure [of "users_inv L ps" "users_step L" users_work, OF _ _ assms] users_inv_step users_work_step by blast
  moreover have "users_work (users_start L ps) = 9 * length ps"
    by (simp add: users_work_def users_start_def ksys_start_def own_left_def comp_def sum_list_replicate map_replicate_const)
  ultimately show ?thesis
    by simp
qed

end

section \<open>Properties\<close>

text \<open>
  What a program that has exited should have returned and printed, by what it has copied into the kboard or pasted
  from it.
\<close>

fun reports :: "'lk users \<Rightarrow> uproc \<Rightarrow> bool" where
  "reports c (Exited (Copy_program argv) r ret out) \<longleftrightarrow>
     (ret, out) =
       (if length argv < 2 then (- 1, ''Insert value for copy to clip board'' @ newline)
        else if copied_by (Exited (Copy_program argv) r ret out) = {#atoi (argv ! 1)#} then
          (0, ''Copy success, value: '' @ quoted (fmt_d (atoi (argv ! 1))) @ newline)
        else (- 1, ''Copy failed, KBoard is full or invalid clip'' @ newline))"
| "reports c (Exited Paste_program r ret out) \<longleftrightarrow>
     (\<exists>v. pasted_by (Exited Paste_program r ret out) = {#v#} \<and> v \<in># copied c \<and>
        (ret, out) = (0, ''Paste success, value: '' @ quoted (fmt_d v) @ newline)) \<or>
     pasted_by (Exited Paste_program r ret out) = {#} \<and> (ret, out) = (- 1, ''Paste failed, KBoard is empty'' @ newline)"
| "reports c q \<longleftrightarrow> True"

context kernel_spinlock
begin

lemma users_reports:
  assumes inv: "users_inv L ps c" and t: "t < length ps"
  shows "reports c (procs c ! t)"
proof -
  have at: "proc_at (procs c ! t) (stmts (ukern c) ! t)"
    using inv t by (simp add: users_inv_def)
  show ?thesis
  proof (cases "(c, procs c ! t)" rule: reports.cases)
    case (1 c' argv r ret out)
    then show ?thesis using at by (auto split: if_splits)
  next
    case (2 c' r ret out)
    then show ?thesis
      using at users_copied [OF inv] users_pasted [OF inv t, of _ ret out] by (auto split: option.splits qres.splits)
  qed (use at in auto)
qed

end

text \<open>
  C5: Any number of \<open>copy\<close> and \<open>paste\<close> programs, run together from boot and switched at any statement of their system calls,
  whichever copies to user memory fail. What a program returns and prints is right: a \<open>copy\<close> reports success exactly if its
  number went into the kboard, a \<open>paste\<close> prints only a number that a \<open>copy\<close> has put there, and never the message about an
  invalid value. No number is lost, duplicated or invented: whenever no process is inside the kernel's critical
  section, the numbers copied are those pasted and those still in the kboard. And all programs end: a run has at most 9 steps
  per program, and as long as a program has not exited some program can go on.
\<close>

theorem copy_paste_processes:
  assumes "kernel_spinlock L held" and "exec (users_step L) xs (users_start L ps) = Some c"
  shows "(\<forall>t < length ps. prog_of (procs c ! t) = ps ! t \<and> reports c (procs c ! t)) \<and>
    pasted c \<subseteq># copied c \<and>
    (cnt holds_lock (stmts (ukern c)) = 0 \<longrightarrow> copied c = pasted c + mset (kb_contents (kboard_of (ukern c)))) \<and>
    length xs \<le> 9 * length ps \<and>
    ((\<exists>t < length ps. \<forall>p r ret out. procs c ! t \<noteq> Exited p r ret out) \<longrightarrow> (\<exists>x c'. users_step L x c = Some c'))"
proof -
  note in_kernel = kernel_spinlock.users_prog [OF assms(1)] kernel_spinlock.users_reports [OF assms(1)]
    kernel_spinlock.users_conserve [OF assms(1)] kernel_spinlock.users_go_on [OF assms(1)]
  have inv: "users_inv L ps c"
    by (rule kernel_spinlock.users_inv_reach [OF assms(1) exec_reach [OF assms(2)]])
  then show ?thesis
    using in_kernel [OF inv] kernel_spinlock.users_complete [OF assms] by blast
qed

definition users_demo :: "uchoice list" where
  "users_demo = [Exec 0, Exec 1, UKernel 0 True, UKernel 0 True, UKernel 0 True, UKernel 0 True, UKernel 0 True, UKernel 1 True,
     UKernel 1 True, UKernel 1 True, UKernel 1 True, UKernel 1 True, UKernel 1 True, UKernel 1 True, Return 1, Return 0]"

lemma users_demo_run:
  "\<exists>k. exec (users_step tas_lock) users_demo (users_start tas_lock [Copy_program [''copy'', ''7''], Paste_program]) =
     Some \<lparr>ukern = k, procs = [exited (Copy_program [''copy'', ''7'']) (Some Accepted), exited Paste_program (Some (Got 7))]\<rparr>"
  by (simp add: users_demo_def users_start_def ksys_eval atoi_def is_space_def is_digit_def digits_value_def word_sless_alt)

theorem copy_paste_processes_witness:
  "\<exists>k ret out. exec (users_step tas_lock) users_demo (users_start tas_lock [Copy_program [''copy'', ''7''], Paste_program]) =
     Some \<lparr>ukern = k, procs = [exited (Copy_program [''copy'', ''7'']) (Some Accepted), Exited Paste_program (Some (Got 7)) ret out]\<rparr> \<and>
     out = ''Paste success, value: '' @ quoted (fmt_d 7) @ newline"
proof -
  obtain k where k: "exec (users_step tas_lock) users_demo (users_start tas_lock [Copy_program [''copy'', ''7''], Paste_program]) =
     Some \<lparr>ukern = k, procs = [exited (Copy_program [''copy'', ''7'']) (Some Accepted), exited Paste_program (Some (Got 7))]\<rparr>"
    using users_demo_run by blast
  from copy_paste_processes [OF tas.kernel_spinlock_axioms k, THEN conjunct1, THEN spec, of 1] show ?thesis
    using k by (simp add: exited_def)
qed

end
