(* ===== verification/Kernel_Stubs.thy ===== *)
theory Kernel_Stubs
  imports Kboard_Module
begin

text \<open>
  The functions that \<open>lab1/kernel/syscalls.h\<close> defines for the rest of the kernel, besides the macros (\<open>Syscall_Entry\<close>): the
  check of the address limit on the way back to user mode, and the stubs through which kernel code calls file system
  operations. The operations themselves, and the constants of other headers, are parameters; they get the state of
  the kernel and return it changed. The C conversions are written out: an \<open>int\<close> result becomes a \<open>long\<close> with its sign, and
  the \<open>unsigned long\<close> length of \<open>ksys_ftruncate\<close> becomes a signed \<open>loff_t\<close>.
\<close>

section \<open>The address limit\<close>

text \<open>
  \<open>fscheck\<close> is \<open>None\<close> where \<open>TIF_FSCHECK\<close> is not defined, else how the flag is read and cleared. \<open>check_corruption\<close> is
  \<open>CHECK_DATA_CORRUPTION\<close>, which may log and which returns its condition.
\<close>

record 'w limit_ops =
  fscheck :: "(('w \<Rightarrow> bool) \<times> ('w \<Rightarrow> 'w)) option"
  fs_is_user :: "'w \<Rightarrow> bool"
  check_corruption :: "bool \<Rightarrow> 'w \<Rightarrow> bool \<times> 'w"
  kill_current :: "'w \<Rightarrow> 'w"

definition addr_limit_user_check :: "'w limit_ops \<Rightarrow> 'w \<Rightarrow> 'w" where
  "addr_limit_user_check A w =
     (case fscheck A of
        Some (test_flag, clear_flag) \<Rightarrow>
          if \<not> test_flag w then w
          else (case check_corruption A (\<not> fs_is_user A w) w of (bad, w) \<Rightarrow> clear_flag (if bad then kill_current A w else w))
      | None \<Rightarrow> (case check_corruption A (\<not> fs_is_user A w) w of (bad, w) \<Rightarrow> if bad then kill_current A w else w))"

section \<open>The stubs\<close>

type_synonym umode = "16 word"

record ('fn, 'fs, 'w) fs_ops =
  AT_FDCWD :: cint
  AT_SYMLINK_NOFOLLOW :: cint
  O_LARGEFILE :: cint
  force_o_largefile :: bool
  getname :: "uaddr \<Rightarrow> 'w \<Rightarrow> 'fn \<times> 'w"
  current_files :: "'w \<Rightarrow> 'fs"
  do_unlinkat :: "cint \<Rightarrow> 'fn \<Rightarrow> 'w \<Rightarrow> clong \<times> 'w"
  do_rmdir :: "cint \<Rightarrow> uaddr \<Rightarrow> 'w \<Rightarrow> clong \<times> 'w"
  do_mkdirat :: "cint \<Rightarrow> uaddr \<Rightarrow> umode \<Rightarrow> 'w \<Rightarrow> clong \<times> 'w"
  do_symlinkat :: "uaddr \<Rightarrow> cint \<Rightarrow> uaddr \<Rightarrow> 'w \<Rightarrow> clong \<times> 'w"
  do_mknodat :: "cint \<Rightarrow> uaddr \<Rightarrow> umode \<Rightarrow> cint \<Rightarrow> 'w \<Rightarrow> clong \<times> 'w"
  do_linkat :: "cint \<Rightarrow> uaddr \<Rightarrow> cint \<Rightarrow> uaddr \<Rightarrow> cint \<Rightarrow> 'w \<Rightarrow> cint \<times> 'w"
  do_fchmodat :: "cint \<Rightarrow> uaddr \<Rightarrow> umode \<Rightarrow> 'w \<Rightarrow> cint \<times> 'w"
  do_faccessat :: "cint \<Rightarrow> uaddr \<Rightarrow> cint \<Rightarrow> 'w \<Rightarrow> clong \<times> 'w"
  do_fchownat :: "cint \<Rightarrow> uaddr \<Rightarrow> cint \<Rightarrow> cint \<Rightarrow> cint \<Rightarrow> 'w \<Rightarrow> cint \<times> 'w"
  do_sys_ftruncate :: "cint \<Rightarrow> clong \<Rightarrow> cint \<Rightarrow> 'w \<Rightarrow> clong \<times> 'w"
  close_fd :: "'fs \<Rightarrow> cint \<Rightarrow> 'w \<Rightarrow> cint \<times> 'w"
  do_sys_open :: "cint \<Rightarrow> uaddr \<Rightarrow> cint \<Rightarrow> umode \<Rightarrow> 'w \<Rightarrow> clong \<times> 'w"
  do_sys_truncate :: "uaddr \<Rightarrow> clong \<Rightarrow> 'w \<Rightarrow> clong \<times> 'w"

text \<open>An \<open>int\<close> result returned as a \<open>long\<close>.\<close>

definition int_to_long :: "cint \<times> 'w \<Rightarrow> clong \<times> 'w" where
  "int_to_long = map_prod scast id"

definition ksys_fadvise64_64 :: "cint \<Rightarrow> clong \<Rightarrow> clong \<Rightarrow> cint \<Rightarrow> 'w \<Rightarrow> cint \<times> 'w" where
  "ksys_fadvise64_64 fd offset len advice w = (- EINVAL, w)"

definition ksys_unlink :: "('fn, 'fs, 'w) fs_ops \<Rightarrow> uaddr \<Rightarrow> 'w \<Rightarrow> clong \<times> 'w" where
  "ksys_unlink F pathname w = (case getname F pathname w of (name, w) \<Rightarrow> do_unlinkat F (AT_FDCWD F) name w)"

definition ksys_rmdir :: "('fn, 'fs, 'w) fs_ops \<Rightarrow> uaddr \<Rightarrow> 'w \<Rightarrow> clong \<times> 'w" where
  "ksys_rmdir F pathname w = do_rmdir F (AT_FDCWD F) pathname w"

definition ksys_mkdir :: "('fn, 'fs, 'w) fs_ops \<Rightarrow> uaddr \<Rightarrow> umode \<Rightarrow> 'w \<Rightarrow> clong \<times> 'w" where
  "ksys_mkdir F pathname mode w = do_mkdirat F (AT_FDCWD F) pathname mode w"

definition ksys_symlink :: "('fn, 'fs, 'w) fs_ops \<Rightarrow> uaddr \<Rightarrow> uaddr \<Rightarrow> 'w \<Rightarrow> clong \<times> 'w" where
  "ksys_symlink F oldname newname w = do_symlinkat F oldname (AT_FDCWD F) newname w"

definition ksys_mknod :: "('fn, 'fs, 'w) fs_ops \<Rightarrow> uaddr \<Rightarrow> umode \<Rightarrow> cint \<Rightarrow> 'w \<Rightarrow> clong \<times> 'w" where
  "ksys_mknod F filename mode dev w = do_mknodat F (AT_FDCWD F) filename mode dev w"

definition ksys_link :: "('fn, 'fs, 'w) fs_ops \<Rightarrow> uaddr \<Rightarrow> uaddr \<Rightarrow> 'w \<Rightarrow> clong \<times> 'w" where
  "ksys_link F oldname newname w = int_to_long (do_linkat F (AT_FDCWD F) oldname (AT_FDCWD F) newname 0 w)"

definition ksys_chmod :: "('fn, 'fs, 'w) fs_ops \<Rightarrow> uaddr \<Rightarrow> umode \<Rightarrow> 'w \<Rightarrow> cint \<times> 'w" where
  "ksys_chmod F filename mode w = do_fchmodat F (AT_FDCWD F) filename mode w"

definition ksys_access :: "('fn, 'fs, 'w) fs_ops \<Rightarrow> uaddr \<Rightarrow> cint \<Rightarrow> 'w \<Rightarrow> clong \<times> 'w" where
  "ksys_access F filename mode w = do_faccessat F (AT_FDCWD F) filename mode w"

definition ksys_chown :: "('fn, 'fs, 'w) fs_ops \<Rightarrow> uaddr \<Rightarrow> cint \<Rightarrow> cint \<Rightarrow> 'w \<Rightarrow> clong \<times> 'w" where
  "ksys_chown F filename user group0 w = int_to_long (do_fchownat F (AT_FDCWD F) filename user group0 0 w)"

definition ksys_lchown :: "('fn, 'fs, 'w) fs_ops \<Rightarrow> uaddr \<Rightarrow> cint \<Rightarrow> cint \<Rightarrow> 'w \<Rightarrow> clong \<times> 'w" where
  "ksys_lchown F filename user group0 w =
     int_to_long (do_fchownat F (AT_FDCWD F) filename user group0 (AT_SYMLINK_NOFOLLOW F) w)"

text \<open>The length is unsigned here and signed there; the bits are the same.\<close>

definition ksys_ftruncate :: "('fn, 'fs, 'w) fs_ops \<Rightarrow> cint \<Rightarrow> clong \<Rightarrow> 'w \<Rightarrow> clong \<times> 'w" where
  "ksys_ftruncate F fd length0 w = do_sys_ftruncate F fd (word_of_int (uint length0)) 1 w"

definition ksys_close :: "('fn, 'fs, 'w) fs_ops \<Rightarrow> cint \<Rightarrow> 'w \<Rightarrow> cint \<times> 'w" where
  "ksys_close F fd w = close_fd F (current_files F w) fd w"

definition ksys_open :: "('fn, 'fs, 'w) fs_ops \<Rightarrow> uaddr \<Rightarrow> cint \<Rightarrow> umode \<Rightarrow> 'w \<Rightarrow> clong \<times> 'w" where
  "ksys_open F filename flags mode w =
     (let flags = (if force_o_largefile F then or flags (O_LARGEFILE F) else flags)
      in do_sys_open F (AT_FDCWD F) filename flags mode w)"

definition ksys_truncate :: "('fn, 'fs, 'w) fs_ops \<Rightarrow> uaddr \<Rightarrow> clong \<Rightarrow> 'w \<Rightarrow> clong \<times> 'w" where
  "ksys_truncate F pathname length0 w = do_sys_truncate F pathname length0 w"

section \<open>Lemmas\<close>

text \<open>
  The process is killed exactly if the limit is not that of user mode, unless the flag says that there is nothing to
  check; afterwards the flag is clear.
\<close>

lemma addr_limit_check:
  assumes "\<And>b w. fst (check_corruption A b w) = b" and "\<And>b w. snd (check_corruption A b w) = w"
  shows "addr_limit_user_check A w =
    (case fscheck A of
       None \<Rightarrow> if fs_is_user A w then w else kill_current A w
     | Some (test_flag, clear_flag) \<Rightarrow>
         if test_flag w then clear_flag (if fs_is_user A w then w else kill_current A w) else w)"
  using assms by (auto simp: addr_limit_user_check_def case_prod_beta split: option.splits)

text \<open>The error numbers of the operations survive the conversion of their results.\<close>

lemma sint_int_to_long [simp]: "sint (fst (int_to_long r)) = sint (fst r)" "snd (int_to_long r) = snd r"
  by (simp_all add: int_to_long_def sint_up_scast is_up)

lemma stubs_keep_errors:
  "sint (fst (ksys_link F oldname newname w)) = sint (fst (do_linkat F (AT_FDCWD F) oldname (AT_FDCWD F) newname 0 w))"
  "sint (fst (ksys_chown F filename user group0 w)) = sint (fst (do_fchownat F (AT_FDCWD F) filename user group0 0 w))"
  "sint (fst (ksys_lchown F filename user group0 w)) =
     sint (fst (do_fchownat F (AT_FDCWD F) filename user group0 (AT_SYMLINK_NOFOLLOW F) w))"
  by (simp_all add: ksys_link_def ksys_chown_def ksys_lchown_def)

text \<open>A length of \<open>2^63\<close> bytes or more reaches \<open>do_sys_ftruncate\<close> as a negative number, any other as itself.\<close>

lemma ftruncate_length:
  "\<exists>len'. ksys_ftruncate F fd len w = do_sys_ftruncate F fd len' 1 w \<and>
     sint len' = (if unat len < 2 ^ 63 then int (unat len) else int (unat len) - 2 ^ 64)"
proof -
  let ?u = "uint len"
  have u: "?u = int (unat len)" "?u < 2 ^ 64" "0 \<le> ?u"
    using unsigned_less [of len, where 'a = int] by simp_all
  have "sint len = (if ?u < 2 ^ 63 then ?u else ?u - 2 ^ 64)"
  proof (cases "?u < 2 ^ 63")
    case True
    then show ?thesis
      using order_trans [OF _ u(3), of "- 9223372036854775808"] by (simp add: sint_uint signed_take_bit_int_eq_self_iff)
  next
    case False
    have "sint len = signed_take_bit 63 (?u - 2 ^ 64)"
      by (simp add: sint_uint signed_take_bit_eq_iff_take_bit_eq take_bit_eq_mod)
    then show ?thesis
      using False u(2) signed_take_bit_int_eq_self [of 63 "?u - 2 ^ 64"] by simp
  qed
  moreover have "?u < 2 ^ 63 \<longleftrightarrow> unat len < 2 ^ 63"
    unfolding u(1) by (metis of_nat_less_iff of_nat_numeral of_nat_power)
  ultimately show ?thesis
    by (intro exI [of _ len]) (simp add: ksys_ftruncate_def)
qed

text \<open>\<open>ksys_open\<close> adds \<open>O_LARGEFILE\<close> where the kernel asks for it and passes every other flag on.\<close>

lemma open_flags:
  "\<exists>flags'. ksys_open F name flags mode w = do_sys_open F (AT_FDCWD F) name flags' mode w \<and>
     (\<forall>i. bit flags' i \<longleftrightarrow> bit flags i \<or> force_o_largefile F \<and> bit (O_LARGEFILE F) i)"
  by (intro exI [of _ "if force_o_largefile F then or flags (O_LARGEFILE F) else flags"]) (auto simp: ksys_open_def bit_simps)

end
