(* ===== verification/Syscall_Entry.thy ===== *)
theory Syscall_Entry
  imports Os_Kboard "HOL-Library.Monad_Syntax"
begin

text \<open>
  The macros of \<open>lab1/kernel/syscalls.h\<close> that make the entry point of a system call, and the three entry points
  \<open>os_kboard.c\<close> makes with them. An entry point gets the registers as numbers; \<open>None\<close> stands for a use of the macros that
  does not compile. Widths are those of x86-64.

  \<open>SYSCALL_METADATA\<close>, which describes a call to the tracer where one is configured, defines objects of its own and is
  modelled apart from the entry points; \<open>ALLOW_ERROR_INJECTION\<close>, \<open>__PROTECT\<close> and the diagnostics have no effect on the result. On x86-64 the kernel may replace
  \<open>__SYSCALL_DEFINEx\<close> and \<open>SYSCALL_DEFINE0\<close> by those of \<open>asm/syscall_wrapper.h\<close>, which is not part of the sources; what is
  modelled is the definition of this header.
\<close>

section \<open>Types and conversions\<close>

text \<open>The integer types of C, and the value a conversion to them has.\<close>

datatype c_width = W_char | W_short | W_int | W_long | W_llong | W_int128

datatype c_type = Signed c_width | Unsigned c_width | Pointer

fun width_size :: "c_width \<Rightarrow> nat" where
  "width_size W_char = 1"
| "width_size W_short = 2"
| "width_size W_int = 4"
| "width_size W_long = 8"
| "width_size W_llong = 8"
| "width_size W_int128 = 16"

fun size_of :: "c_type \<Rightarrow> nat" where
  "size_of (Signed w) = width_size w"
| "size_of (Unsigned w) = width_size w"
| "size_of Pointer = 8"

fun conv :: "c_type \<Rightarrow> int \<Rightarrow> int" where
  "conv (Signed w) v = signed_take_bit (8 * width_size w - 1) v"
| "conv (Unsigned w) v = take_bit (8 * width_size w) v"
| "conv Pointer v = take_bit 64 v"

text \<open>The values of a type.\<close>

fun in_range :: "c_type \<Rightarrow> int \<Rightarrow> bool" where
  "in_range (Signed w) v \<longleftrightarrow> - (2 ^ (8 * width_size w - 1)) \<le> v \<and> v < 2 ^ (8 * width_size w - 1)"
| "in_range (Unsigned w) v \<longleftrightarrow> 0 \<le> v \<and> v < 2 ^ (8 * width_size w)"
| "in_range Pointer v \<longleftrightarrow> 0 \<le> v \<and> v < 2 ^ 64"

section \<open>The macros\<close>

text \<open>
  \<open>__TYPE_IS_LL\<close>; the type \<open>__SC_LONG\<close> gives a parameter; the cast \<open>__SC_CAST\<close>; and the check \<open>__SC_TEST\<close>, which stops the
  compilation for a type that is wider than a register.
\<close>

definition TYPE_IS_LL :: "c_type \<Rightarrow> bool" where
  "TYPE_IS_LL t \<longleftrightarrow> t = Signed W_llong \<or> t = Unsigned W_llong"

definition SC_LONG :: "c_type \<Rightarrow> c_type" where
  "SC_LONG t = (if TYPE_IS_LL t then Signed W_llong else Signed W_long)"

definition SC_CAST :: "c_type \<Rightarrow> int \<Rightarrow> int" where
  "SC_CAST t a = conv t a"

definition SC_TEST :: "c_type \<Rightarrow> bool" where
  "SC_TEST t \<longleftrightarrow> \<not> (\<not> TYPE_IS_LL t \<and> size_of (Signed W_long) < size_of t)"

text \<open>\<open>__MAP0\<close> to \<open>__MAP6\<close>, and \<open>__MAP\<close>, which selects one of them by its number.\<close>

fun MAPn :: "nat \<Rightarrow> ('t \<Rightarrow> 'a \<Rightarrow> 'b) \<Rightarrow> ('t \<times> 'a) list \<Rightarrow> 'b list option" where
  "MAPn 0 m args = Some []"
| "MAPn (Suc n) m [] = None"
| "MAPn (Suc n) m ((t, a) # args) = map_option (Cons (m t a)) (MAPn n m args)"

definition MAP_args :: "nat \<Rightarrow> ('t \<Rightarrow> 'a \<Rightarrow> 'b) \<Rightarrow> ('t \<times> 'a) list \<Rightarrow> 'b list option" where
  "MAP_args n m args = (if n \<le> 6 then MAPn n m args else None)"

text \<open>
  \<open>__SYSCALL_DEFINEx\<close>: the function \<open>__se_sys\<close> it defines, which takes parameters of the types \<open>__SC_LONG\<close>, checks the
  declared types, and passes the parameters, cast to them, to the function \<open>__do_sys\<close> with the body.
\<close>

definition se_sys :: "nat \<Rightarrow> c_type list \<Rightarrow> (int list \<Rightarrow> 'r) \<Rightarrow> int list \<Rightarrow> 'r option" where
  "se_sys x ts do_sys regs = do {
     params \<leftarrow> MAP_args x (\<lambda>t. conv (SC_LONG t)) (zip ts regs);
     args \<leftarrow> MAP_args x SC_CAST (zip ts params);
     tests \<leftarrow> MAP_args x (\<lambda>t a. SC_TEST t) (zip ts params);
     if list_all id tests then Some (do_sys args) else None }"

definition SYSCALL_DEFINEx :: "nat \<Rightarrow> c_type list \<Rightarrow> (int list \<Rightarrow> 'r) \<Rightarrow> int list \<Rightarrow> 'r option" where
  "SYSCALL_DEFINEx x ts do_sys = se_sys x ts do_sys"

definition SYSCALL_DEFINE1 :: "c_type \<Rightarrow> (int \<Rightarrow> 'r) \<Rightarrow> int list \<Rightarrow> 'r option" where
  "SYSCALL_DEFINE1 t do_sys = SYSCALL_DEFINEx 1 [t] (\<lambda>args. do_sys (hd args))"

definition SYSCALL_DEFINE0 :: "'r \<Rightarrow> int list \<Rightarrow> 'r option" where
  "SYSCALL_DEFINE0 sys regs = Some sys"

section \<open>The description of a call\<close>

text \<open>
  What the macros tell the tracer of the kernel about a call, if it is configured (\<open>CONFIG_FTRACE_SYSCALLS\<close>). An object
  the macros define is referred to by its name. Stringification gives the types and the names of the parameters as
  they are written.
\<close>

datatype event_class = Event_class_syscall_enter | Event_class_syscall_exit | Other_event_class

datatype print_funcs = Enter_syscall_print_funcs | Exit_syscall_print_funcs | Other_print_funcs

record trace_event_call =
  tp_class :: event_class
  tp_name :: string
  tp_funcs :: print_funcs
  tp_data :: string
  tp_cap_any :: bool

record syscall_metadata =
  meta_name :: string
  syscall_nr :: int
  nb_args :: nat
  arg_types :: "string list option"
  arg_names :: "string list option"
  enter_event :: string
  exit_event :: string

definition SYSCALL_TRACE_ENTER_EVENT :: "string \<Rightarrow> trace_event_call" where
  "SYSCALL_TRACE_ENTER_EVENT sname = \<lparr>tp_class = Event_class_syscall_enter, tp_name = ''sys_enter'' @ sname,
     tp_funcs = Enter_syscall_print_funcs, tp_data = ''__syscall_meta_'' @ sname, tp_cap_any = True\<rparr>"

definition SYSCALL_TRACE_EXIT_EVENT :: "string \<Rightarrow> trace_event_call" where
  "SYSCALL_TRACE_EXIT_EVENT sname = \<lparr>tp_class = Event_class_syscall_exit, tp_name = ''sys_exit'' @ sname,
     tp_funcs = Exit_syscall_print_funcs, tp_data = ''__syscall_meta_'' @ sname, tp_cap_any = True\<rparr>"

text \<open>The objects \<open>SYSCALL_METADATA\<close> defines: the description and the two events, by name.\<close>

definition SYSCALL_METADATA ::
    "string \<Rightarrow> nat \<Rightarrow> (string \<times> string) list \<Rightarrow> ((string \<times> syscall_metadata) \<times> (string \<times> trace_event_call) list) option" where
  "SYSCALL_METADATA sname nb decls = do {
     types \<leftarrow> MAP_args nb (\<lambda>t a. t) decls;
     args \<leftarrow> MAP_args nb (\<lambda>t a. a) decls;
     Some ((''__syscall_meta_'' @ sname,
         \<lparr>meta_name = ''sys'' @ sname, syscall_nr = - 1, nb_args = nb,
          arg_types = (if nb = 0 then None else Some types), arg_names = (if nb = 0 then None else Some args),
          enter_event = ''event_enter_'' @ sname, exit_event = ''event_exit_'' @ sname\<rparr>),
       [(''event_enter_'' @ sname, SYSCALL_TRACE_ENTER_EVENT sname), (''event_exit_'' @ sname, SYSCALL_TRACE_EXIT_EVENT sname)]) }"

definition is_syscall_trace_event :: "trace_event_call \<Rightarrow> bool" where
  "is_syscall_trace_event tp_event \<longleftrightarrow> tp_class tp_event = Event_class_syscall_enter \<or> tp_class tp_event = Event_class_syscall_exit"

section \<open>Lemmas\<close>

lemma width_pos: "0 < width_size w"
  by (cases w) simp_all

lemma conv_range: "in_range t (conv t v)"
  using take_bit_int_less_exp [of 64 v] by (cases t) (simp_all add: signed_take_bit_int_greater_eq_minus_exp signed_take_bit_int_less_exp)

lemma conv_in_range: "in_range t v \<Longrightarrow> conv t v = v"
  by (cases t) (simp_all add: signed_take_bit_int_eq_self take_bit_int_eq_self)

lemma conv_bits: "take_bit (8 * size_of t) (conv t v) = take_bit (8 * size_of t) v"
  using width_pos by (cases t) (auto simp: take_bit_signed_take_bit)

text \<open>The detour over \<open>long\<close> loses nothing of an argument whose type passes the test.\<close>

lemma cast_after_long: "SC_TEST t \<Longrightarrow> SC_CAST t (conv (SC_LONG t) v) = conv t v"
proof -
  have "SC_LONG t = Signed W_llong \<or> SC_LONG t = Signed W_long"
    by (simp add: SC_LONG_def)
  moreover assume "SC_TEST t"
  then have "size_of t \<le> 8"
    by (cases t) (auto simp: SC_TEST_def TYPE_IS_LL_def)
  ultimately show ?thesis
    by (cases t) (auto simp: SC_CAST_def signed_take_bit_signed_take_bit take_bit_signed_take_bit min_def)
qed

lemma MAPn_all: "MAPn (length args) m args = Some (map (\<lambda>(t, a). m t a) args)"
  by (induction args) auto

lemma map2_params: "map2 f ts (map2 g ts regs) = map2 (\<lambda>t a. f t (g t a)) ts regs"
  by (induction ts regs rule: list_induct2') simp_all

lemma map2_first: "length ts = length regs \<Longrightarrow> map2 (\<lambda>t a. f t) ts regs = map f ts"
  by (induction ts regs rule: list_induct2) simp_all

lemma se_sys_entry:
  assumes "length ts = x" and "length regs = x" and "x \<le> 6"
  shows "se_sys x ts do_sys regs = (if list_all SC_TEST ts then Some (do_sys (map2 conv ts regs)) else None)"
proof -
  have map: "MAP_args x m (zip ts as) = Some (map2 m ts as)" if "length as = x" for m and as :: "int list"
    using MAPn_all [of "zip ts as" m] assms that by (simp add: MAP_args_def)
  have "map2 (\<lambda>t a. SC_CAST t (conv (SC_LONG t) a)) ts regs = map2 conv ts regs" if "list_all SC_TEST ts"
    using that cast_after_long by (auto simp: list_all_iff dest: set_zip_leftD)
  note cast = this
  have "list_all id (map SC_TEST ts) = list_all SC_TEST ts"
    by (simp add: list_all_iff)
  then show ?thesis
    using assms cast by (cases "list_all SC_TEST ts") (simp_all add: se_sys_def map map2_params map2_first cast del: map_eq_conv)
qed

lemma word_conv_int: "word_of_int (conv (Signed W_int) (uint (r :: clong))) = (ucast r :: cint)"
proof -
  have "(ucast r :: cint) = word_of_int (uint r)"
    by (rule ucast_eq)
  also have "\<dots> = word_of_int (conv (Signed W_int) (uint r))"
    unfolding word_of_int_eq_iff by (simp add: take_bit_signed_take_bit)
  finally show ?thesis ..
qed

lemma word_conv_pointer: "word_of_int (conv Pointer (uint (r :: clong))) = r"
proof -
  have "take_bit 64 (uint r) = uint r"
    using uint_lt2p [of r] by (simp add: take_bit_int_eq_self)
  then show ?thesis
    by simp
qed

text \<open>
  The description of a call is consistent: it has as many types and names as arguments, the events it names are
  defined with it, are events of system calls, and point back to it.
\<close>

lemma metadata_consistent:
  assumes "length decls = nb" and "nb \<le> 6"
  shows "\<exists>name meta events. SYSCALL_METADATA sname nb decls = Some ((name, meta), events) \<and>
    meta_name meta = ''sys'' @ sname \<and> nb_args meta = nb \<and>
    (nb \<noteq> 0 \<longrightarrow> arg_types meta = Some (map fst decls) \<and> arg_names meta = Some (map snd decls)) \<and>
    (\<forall>e \<in> {enter_event meta, exit_event meta}. \<exists>tp. map_of events e = Some tp \<and> is_syscall_trace_event tp \<and> tp_data tp = name)"
proof -
  have "MAP_args nb (\<lambda>t a. t) decls = Some (map fst decls)" "MAP_args nb (\<lambda>t a. a) decls = Some (map snd decls)"
    using MAPn_all [of decls] assms by (auto simp: MAP_args_def case_prod_unfold)
  then show ?thesis
    by (simp add: SYSCALL_METADATA_def is_syscall_trace_event_def SYSCALL_TRACE_ENTER_EVENT_def SYSCALL_TRACE_EXIT_EVENT_def)
qed

section \<open>Properties\<close>

text \<open>
  C19: What \<open>SYSCALL_DEFINEx\<close> is for: whatever the registers hold, the body of a system call gets arguments that are values
  of their declared types, with the bits of the registers in the width of the type; a register that holds a value of
  the type arrives unchanged. (Up to six arguments, of types that pass the test.)
\<close>

theorem syscall_arguments_typed:
  assumes "length ts = x" and "length regs = x" and "x \<le> 6" and "list_all SC_TEST ts"
  shows "\<exists>args. SYSCALL_DEFINEx x ts do_sys regs = Some (do_sys args) \<and> list_all2 in_range ts args \<and>
    (\<forall>i < x. take_bit (8 * size_of (ts ! i)) (args ! i) = take_bit (8 * size_of (ts ! i)) (regs ! i) \<and>
      (in_range (ts ! i) (regs ! i) \<longrightarrow> args ! i = regs ! i))"
  using assms se_sys_entry [OF assms(1-3), of do_sys]
  by (intro exI [of _ "map2 conv ts regs"])
    (auto simp: SYSCALL_DEFINEx_def conv_range conv_in_range conv_bits list_all2_conv_all_nth)

theorem syscall_arguments_typed_witness:
  "\<exists>args. SYSCALL_DEFINEx 2 [Signed W_int, Unsigned W_short] id [4294967295, 65543] = Some args \<and>
    list_all2 in_range [Signed W_int, Unsigned W_short] args"
  using syscall_arguments_typed [of "[Signed W_int, Unsigned W_short]" 2 "[4294967295, 65543]" id]
  by (auto simp: SC_TEST_def TYPE_IS_LL_def)

text \<open>
  The entry points of the kboard. \<open>SYSCALL_DEFINE1(kb_enqueue, int, item)\<close>, \<open>SYSCALL_DEFINE1(kb_dequeue, int __user *,
  user_buf)\<close> and \<open>SYSCALL_DEFINE0(kb_init)\<close> compile, and the functions they define are the entry points used in the
  rest of the development: \<open>kb_enqueue\<close> gets the low half of its register as an \<open>int\<close>, so that its check for a negative
  item sees the sign of the \<open>int\<close> and not of the register.
\<close>

lemma kb_entry_points:
  "SYSCALL_DEFINE1 (Signed W_int) (\<lambda>item. do_sys_kb_enqueue L (word_of_int item) s) [uint r] = Some (sys_kb_enqueue L r s) \<and>
   SYSCALL_DEFINE1 Pointer (\<lambda>user_buf. do_sys_kb_dequeue L ctu (word_of_int user_buf) (s, m)) [uint r] =
     Some (sys_kb_dequeue L ctu r (s, m)) \<and>
   SYSCALL_DEFINE0 (do_sys_kb_init L s) [] = Some (sys_kb_init L s)"
proof -
  have pass: "SC_TEST (Signed W_int)" "SC_TEST Pointer"
    by (simp_all add: SC_TEST_def)
  show ?thesis
    by (simp add: SYSCALL_DEFINE1_def SYSCALL_DEFINEx_def SYSCALL_DEFINE0_def se_sys_entry pass word_conv_int word_conv_pointer
      sys_kb_enqueue_def sys_kb_dequeue_def sys_kb_init_def del: conv.simps)
qed

end
