(* ===== verification/Proc_Fs.thy ===== *)
theory Proc_Fs
  imports Kboard_Conc
begin

text \<open>
  Loading and unloading of the module (\<open>lab2/KboardModule.c\<close>): \<open>KboardModuleInit\<close>, \<open>KboardModuleExit\<close>,
  \<open>InitializeProc\<close>, \<open>DestroyProc\<close>, the four \<open>file_operations\<close> and the \<open>Open\<close> functions.

  The proc file system is not part of the sources: its functions are a parameter \<open>F\<close> (\<open>procfs\<close> in \<open>Kernel_Api\<close>), and what the
  module relies on is the contract \<open>proc_filesystem\<close> there. Its state \<open>w\<close> is passed from call to call; \<open>node w\<close> are its live entries.
\<close>

section \<open>File operations\<close>

datatype handler =
    KboardWriter_Open_fn | KboardWriter_Write_fn | KboardReader_Open_fn | KboardCounter_Open_fn | KboardDumper_Open_fn
  | Seq_read | Seq_lseek | Seq_release

record file_operations =
  fop_open :: handler
  fop_write :: "handler option"
  fop_read :: handler
  fop_llseek :: handler
  fop_release :: handler

definition KBOARD_WRITER_FILE_OPERATIONS :: file_operations where
  "KBOARD_WRITER_FILE_OPERATIONS = \<lparr>fop_open = KboardWriter_Open_fn, fop_write = Some KboardWriter_Write_fn,
     fop_read = Seq_read, fop_llseek = Seq_lseek, fop_release = Seq_release\<rparr>"

definition KBOARD_READER_FILE_OPERATIONS :: file_operations where
  "KBOARD_READER_FILE_OPERATIONS = \<lparr>fop_open = KboardReader_Open_fn, fop_write = None,
     fop_read = Seq_read, fop_llseek = Seq_lseek, fop_release = Seq_release\<rparr>"

definition KBOARD_COUNTER_FILE_OPERATIONS :: file_operations where
  "KBOARD_COUNTER_FILE_OPERATIONS = \<lparr>fop_open = KboardCounter_Open_fn, fop_write = None,
     fop_read = Seq_read, fop_llseek = Seq_lseek, fop_release = Seq_release\<rparr>"

definition KBOARD_DUMPER_FILE_OPERATIONS :: file_operations where
  "KBOARD_DUMPER_FILE_OPERATIONS = \<lparr>fop_open = KboardDumper_Open_fn, fop_write = None,
     fop_read = Seq_read, fop_llseek = Seq_lseek, fop_release = Seq_release\<rparr>"

text \<open>
  The \<open>Open\<close> functions. \<open>single_open\<close> of the kernel returns a code and leaves the function that \<open>seq_read\<close> will call in
  the file. The random bytes of the reader are an argument.
\<close>

type_synonym 'y show_fn = "'y kboard \<Rightarrow> (cint \<times> string \<times> 'y kboard) result"
type_synonym 'y opener = "'y show_fn \<Rightarrow> cint \<times> 'y show_fn option"

definition KboardWriter_Open :: "'y opener \<Rightarrow> 'y cs_methods \<Rightarrow> cint \<times> 'y show_fn option" where
  "KboardWriter_Open single_open M = single_open (KboardWriter_Show M)"

definition KboardReader_Open :: "'y opener \<Rightarrow> 'y cs_methods \<Rightarrow> cint \<Rightarrow> cint \<times> 'y show_fn option" where
  "KboardReader_Open single_open M rnd = single_open (KboardReader_Show M rnd)"

definition KboardCounter_Open :: "'y opener \<Rightarrow> cint \<times> 'y show_fn option" where
  "KboardCounter_Open single_open = single_open KboardCounter_Show"

definition KboardDumper_Open :: "'y opener \<Rightarrow> cint \<times> 'y show_fn option" where
  "KboardDumper_Open single_open = single_open KboardDumper_Show"

text \<open>The call of a function through a pointer in \<open>file_operations\<close>; only the \<open>Open\<close> functions open.\<close>

fun call_open :: "'y opener \<Rightarrow> 'y cs_methods \<Rightarrow> cint \<Rightarrow> handler \<Rightarrow> (cint \<times> 'y show_fn option) option" where
  "call_open so M rnd KboardWriter_Open_fn = Some (KboardWriter_Open so M)"
| "call_open so M rnd KboardReader_Open_fn = Some (KboardReader_Open so M rnd)"
| "call_open so M rnd KboardCounter_Open_fn = Some (KboardCounter_Open so)"
| "call_open so M rnd KboardDumper_Open_fn = Some (KboardDumper_Open so)"
| "call_open so M rnd _ = None"

text \<open>The \<open>write\<close> functions, with what \<open>KboardWriter_Write\<close> uses of the kernel; only that one writes.\<close>

type_synonym ('m, 'y) write_fn = "string \<Rightarrow> string \<Rightarrow> 'm \<Rightarrow> uaddr \<Rightarrow> clong \<Rightarrow> 'y kboard \<Rightarrow> (clong \<times> 'y kboard) result"

fun call_write :: "'y cs_methods \<Rightarrow> 'm copy_in \<Rightarrow> (string \<Rightarrow> cint option) \<Rightarrow> handler \<Rightarrow> ('m, 'y) write_fn option" where
  "call_write M cfu sscanf_d KboardWriter_Write_fn = Some (KboardWriter_Write M cfu sscanf_d)"
| "call_write M cfu sscanf_d _ = None"

section \<open>Entries in the proc file system\<close>

definition KBOARD_DIRECTORY :: string where "KBOARD_DIRECTORY = ''kboard''"
definition KBOARD_WRITER :: string where "KBOARD_WRITER = ''writer''"
definition KBOARD_READER :: string where "KBOARD_READER = ''reader''"
definition KBOARD_COUNTER :: string where "KBOARD_COUNTER = ''count''"
definition KBOARD_DUMPER :: string where "KBOARD_DUMPER = ''dump''"

text \<open>\<open>ParentDirectory\<close> is never assigned.\<close>

definition ParentDirectory :: entry where
  "ParentDirectory = None"

record proc_globals =
  KboardProcDirectory :: entry
  KboardProcWriter :: entry
  KboardProcReader :: entry
  KboardProcCounter :: entry
  KboardProcDumper :: entry

definition proc_null :: proc_globals where
  "proc_null = \<lparr>KboardProcDirectory = None, KboardProcWriter = None, KboardProcReader = None,
     KboardProcCounter = None, KboardProcDumper = None\<rparr>"

definition InitializeProc :: "(file_operations, 'w) procfs \<Rightarrow> proc_globals \<Rightarrow> 'w \<Rightarrow> cint \<times> proc_globals \<times> 'w" where
  "InitializeProc F g w =
     (case proc_mkdir F KBOARD_DIRECTORY ParentDirectory w of (e, w) \<Rightarrow>
      let g = g\<lparr>KboardProcDirectory := e\<rparr> in
      if KboardProcDirectory g = None then (- 1, g, w)
      else
      case proc_create F KBOARD_WRITER 0 (KboardProcDirectory g) KBOARD_WRITER_FILE_OPERATIONS w of (e, w) \<Rightarrow>
      let g = g\<lparr>KboardProcWriter := e\<rparr> in
      if KboardProcWriter g = None then (- 1, g, remove_proc_entry F KBOARD_DIRECTORY ParentDirectory w)
      else
      case proc_create F KBOARD_READER 0 (KboardProcDirectory g) KBOARD_READER_FILE_OPERATIONS w of (e, w) \<Rightarrow>
      let g = g\<lparr>KboardProcReader := e\<rparr> in
      if KboardProcReader g = None then (- 1, g, remove_proc_entry F KBOARD_DIRECTORY ParentDirectory w)
      else
      case proc_create F KBOARD_COUNTER 0 (KboardProcDirectory g) KBOARD_COUNTER_FILE_OPERATIONS w of (e, w) \<Rightarrow>
      let g = g\<lparr>KboardProcCounter := e\<rparr> in
      if KboardProcCounter g = None then (- 1, g, remove_proc_entry F KBOARD_DIRECTORY ParentDirectory w)
      else
      case proc_create F KBOARD_DUMPER 0 (KboardProcDirectory g) KBOARD_DUMPER_FILE_OPERATIONS w of (e, w) \<Rightarrow>
      let g = g\<lparr>KboardProcDumper := e\<rparr> in
      if KboardProcDumper g = None then (- 1, g, remove_proc_entry F KBOARD_DIRECTORY ParentDirectory w)
      else (0, g, w))"


section \<open>The module\<close>

definition InitializeSyncSolution :: "'sm sem_ops \<Rightarrow> 'sm sync1 kboard \<Rightarrow> 'sm sync1 kboard" where
  "InitializeSyncSolution K s = s\<lparr>Sync := InitializeSyncSolution1 K\<rparr>"

definition KboardModuleInit ::
    "'sm sem_ops \<Rightarrow> (file_operations, 'w) procfs \<Rightarrow> 'sm sync1 kboard \<Rightarrow> proc_globals \<Rightarrow> 'w \<Rightarrow>
     (cint \<times> 'sm sync1 kboard \<times> proc_globals \<times> 'w) result" where
  "KboardModuleInit K F s g w =
     rbind (InitializeKboard s) (\<lambda>s.
       let s = InitializeSyncSolution K s in
       case InitializeProc F g w of (ret, g, w) \<Rightarrow> Inr (ret, s, g, w))"


lemmas proc_names = KBOARD_DIRECTORY_def KBOARD_WRITER_def KBOARD_READER_def KBOARD_COUNTER_def KBOARD_DUMPER_def

section \<open>Lemmas\<close>

text \<open>The kboard after \<open>InitializeKboard\<close> and \<open>InitializeSyncSolution\<close>.\<close>

lemma module_board:
  assumes "length (RingBuffer s) = 5"
  shows "\<exists>s'. InitializeKboard s = Inr s' \<and> InitializeSyncSolution K s' =
    board (conc_start (sol1 K) (InitializeSyncSolution1 K) n)"
  using km_init [OF assms] by (simp add: InitializeSyncSolution_def conc_start_def)

text \<open>The result of \<open>InitializeProc\<close>.\<close>

definition all_created :: "proc_globals \<Rightarrow> bool" where
  "all_created g \<longleftrightarrow> KboardProcDirectory g \<noteq> None \<and> KboardProcWriter g \<noteq> None \<and> KboardProcReader g \<noteq> None \<and>
     KboardProcCounter g \<noteq> None \<and> KboardProcDumper g \<noteq> None"

lemma InitializeProc_ret:
  assumes "InitializeProc F proc_null w = (ret, g, w')"
  shows "ret = (if all_created g then 0 else - 1)"
  using assms by (auto simp: InitializeProc_def all_created_def proc_null_def Let_def split: prod.splits if_splits)

text \<open>The live entries of the module: the directory \<open>d\<close> and four files in it.\<close>

definition module_nodes :: "nat \<Rightarrow> nat \<Rightarrow> nat \<Rightarrow> nat \<Rightarrow> nat \<Rightarrow> file_operations nodes \<Rightarrow> file_operations nodes" where
  "module_nodes d p1 p2 p3 p4 es = es(d \<mapsto> (KBOARD_DIRECTORY, None, None),
     p1 \<mapsto> (KBOARD_WRITER, Some d, Some KBOARD_WRITER_FILE_OPERATIONS),
     p2 \<mapsto> (KBOARD_READER, Some d, Some KBOARD_READER_FILE_OPERATIONS),
     p3 \<mapsto> (KBOARD_COUNTER, Some d, Some KBOARD_COUNTER_FILE_OPERATIONS),
     p4 \<mapsto> (KBOARD_DUMPER, Some d, Some KBOARD_DUMPER_FILE_OPERATIONS))"

context proc_filesystem
begin

text \<open>A file in a live directory: the creation fails and nothing changes, or the file is there.\<close>

lemma create_in_dir:
  assumes "proc_create F n mode (Some d) f w = (e, w')" and "node w d = Some (m, k, None)"
  obtains (null) "e = None" "node w' = node w"
  | (created) p where "e = Some p" "node w p = None" "p \<noteq> d" "node w' = (node w)(p \<mapsto> (n, Some d, Some f))" "node w' d = Some (m, k, None)"
proof (cases e)
  case None
  then show ?thesis
    using create_null [of n mode "Some d" f w w'] assms null by (simp add: live_dir_def)
next
  case (Some p)
  then have *: "node w p = None" "node w' = (node w)(p \<mapsto> (n, Some d, Some f))"
    using create_some [of n mode "Some d" f w p w'] assms by (simp_all add: live_dir_def)
  then have "p \<noteq> d"
    using assms(2) by auto
  with * Some assms(2) show ?thesis
    by (intro created) simp_all
qed

end
locale module_procfs = proc_filesystem F node
  for F :: "(file_operations, 'w) procfs" and node
begin

text \<open>What \<open>InitializeProc\<close> leaves when it returns 0.\<close>

lemma initialized:
  assumes "InitializeProc F g w = (0, g', w')"
  shows "\<exists>d p1 p2 p3 p4. g' = \<lparr>KboardProcDirectory = Some d, KboardProcWriter = Some p1, KboardProcReader = Some p2,
      KboardProcCounter = Some p3, KboardProcDumper = Some p4\<rparr> \<and> distinct [d, p1, p2, p3, p4] \<and>
    free_name (node w) KBOARD_DIRECTORY None \<and> node w' = module_nodes d p1 p2 p3 p4 (node w)"
proof -
  obtain e w0 where "proc_mkdir F KBOARD_DIRECTORY ParentDirectory w = (e, w0)"
    by fastforce
  then obtain d where mk: "proc_mkdir F KBOARD_DIRECTORY None w = (Some d, w0)"
    using assms by (cases e) (auto simp: InitializeProc_def ParentDirectory_def)
  then have free: "free_name (node w) KBOARD_DIRECTORY None" and n0: "node w0 = (node w)(d \<mapsto> (KBOARD_DIRECTORY, None, None))"
    using mkdir_some [of KBOARD_DIRECTORY None w d w0] by (simp_all add: live_dir_def)
  obtain e1 w1 e2 w2 e3 w3 e4 w4 where
    c: "proc_create F KBOARD_WRITER 0 (Some d) KBOARD_WRITER_FILE_OPERATIONS w0 = (e1, w1)"
      "proc_create F KBOARD_READER 0 (Some d) KBOARD_READER_FILE_OPERATIONS w1 = (e2, w2)"
      "proc_create F KBOARD_COUNTER 0 (Some d) KBOARD_COUNTER_FILE_OPERATIONS w2 = (e3, w3)"
      "proc_create F KBOARD_DUMPER 0 (Some d) KBOARD_DUMPER_FILE_OPERATIONS w3 = (e4, w4)"
    by (meson surj_pair)
  with assms mk have e: "e1 \<noteq> None" "e2 \<noteq> None" "e3 \<noteq> None" "e4 \<noteq> None"
    and g': "w' = w4" "g' = \<lparr>KboardProcDirectory = Some d, KboardProcWriter = e1, KboardProcReader = e2, KboardProcCounter = e3, KboardProcDumper = e4\<rparr>"
    by (auto simp: InitializeProc_def ParentDirectory_def Let_def split: if_splits)
  have d0: "node w0 d = Some (KBOARD_DIRECTORY, None, None)"
    by (simp add: n0)
  obtain p1 where p1: "e1 = Some p1" "p1 \<noteq> d" "node w1 = (node w0)(p1 \<mapsto> (KBOARD_WRITER, Some d, Some KBOARD_WRITER_FILE_OPERATIONS))"
    and d1: "node w1 d = Some (KBOARD_DIRECTORY, None, None)"
    using create_in_dir [OF c(1) d0] e by metis
  obtain p2 where p2: "e2 = Some p2" "node w1 p2 = None" "p2 \<noteq> d" "node w2 = (node w1)(p2 \<mapsto> (KBOARD_READER, Some d, Some KBOARD_READER_FILE_OPERATIONS))"
    and d2: "node w2 d = Some (KBOARD_DIRECTORY, None, None)"
    using create_in_dir [OF c(2) d1] e by metis
  obtain p3 where p3: "e3 = Some p3" "node w2 p3 = None" "p3 \<noteq> d" "node w3 = (node w2)(p3 \<mapsto> (KBOARD_COUNTER, Some d, Some KBOARD_COUNTER_FILE_OPERATIONS))"
    and d3: "node w3 d = Some (KBOARD_DIRECTORY, None, None)"
    using create_in_dir [OF c(3) d2] e by metis
  obtain p4 where p4: "e4 = Some p4" "node w3 p4 = None" "p4 \<noteq> d" "node w4 = (node w3)(p4 \<mapsto> (KBOARD_DUMPER, Some d, Some KBOARD_DUMPER_FILE_OPERATIONS))"
    using create_in_dir [OF c(4) d3] e by metis
  have "distinct [d, p1, p2, p3, p4]"
    using p1(2) p2(2,3) p3(2,3) p4(2,3) unfolding p1(3) p2(4) p3(4) by (auto split: if_splits)
  then show ?thesis
    using free g' p1(1) p2(1) p3(1) p4(1,4) p1(3) p2(4) p3(4) n0 by (simp add: module_nodes_def)
qed

lemma create_keeps:
  assumes "proc_create F n mode (Some d) f w = (e, w')" and "node w d = Some (m, k, None)" and "node w q = Some x"
  shows "node w' q = Some x"
  using create_in_dir [OF assms(1,2)] assms(3) by (metis fun_upd_other option.distinct(1))

text \<open>
  Failure of a creation. If the directory or the first file cannot be created, \<open>InitializeProc\<close> undoes
  its work and leaves nothing behind. If a later file cannot be created, it calls \<open>remove_proc_entry\<close> on
  a directory that still has files in it, which that call is not for.
\<close>

lemma init_failure:
  assumes "InitializeProc F proc_null w = (- 1, g, w')"
    and whole: "\<forall>q m p k. node w q = Some (m, Some p, k) \<longrightarrow> node w p \<noteq> None"
  shows "if KboardProcWriter g = None then node w' = node w
    else \<exists>w1 d p. w' = remove_proc_entry F KBOARD_DIRECTORY ParentDirectory w1 \<and> KboardProcWriter g = Some p \<and>
      node w1 d = Some (KBOARD_DIRECTORY, None, None) \<and> node w1 p = Some (KBOARD_WRITER, Some d, Some KBOARD_WRITER_FILE_OPERATIONS)"
proof -
  obtain e w0 where mk: "proc_mkdir F KBOARD_DIRECTORY ParentDirectory w = (e, w0)"
    by fastforce
  show ?thesis
  proof (cases e)
    case None
    then show ?thesis
      using assms mk mkdir_null [of KBOARD_DIRECTORY ParentDirectory w w0]
      by (auto simp: InitializeProc_def ParentDirectory_def live_dir_def proc_null_def)
  next
    case (Some d)
    have n0: "node w d = None" "free_name (node w) KBOARD_DIRECTORY None" "node w0 = (node w)(d \<mapsto> (KBOARD_DIRECTORY, None, None))"
      using mkdir_some [of KBOARD_DIRECTORY None w d w0] mk Some by (simp_all add: live_dir_def ParentDirectory_def)
    obtain e1 w1 e2 w2 e3 w3 e4 w4 where
      c: "proc_create F KBOARD_WRITER 0 (Some d) KBOARD_WRITER_FILE_OPERATIONS w0 = (e1, w1)"
        "proc_create F KBOARD_READER 0 (Some d) KBOARD_READER_FILE_OPERATIONS w1 = (e2, w2)"
        "proc_create F KBOARD_COUNTER 0 (Some d) KBOARD_COUNTER_FILE_OPERATIONS w2 = (e3, w3)"
        "proc_create F KBOARD_DUMPER 0 (Some d) KBOARD_DUMPER_FILE_OPERATIONS w3 = (e4, w4)"
      by (meson surj_pair)
    have dir: "node w0 d = Some (KBOARD_DIRECTORY, None, None)"
      by (simp add: n0)
    show ?thesis
    proof (cases e1)
      case None
      have n1: "node w1 = (node w)(d \<mapsto> (KBOARD_DIRECTORY, None, None))"
        by (rule create_in_dir [OF c(1) dir]; simp add: None n0(3))
      have "\<forall>q m k. node w1 q \<noteq> Some (m, Some d, k)"
      proof (intro allI notI)
        fix q m k
        assume "node w1 q = Some (m, Some d, k)"
        then have "node w q = Some (m, Some d, k)"
          by (simp add: n1 split: if_splits)
        with whole n0(1) show False by blast
      qed
      then have "node (remove_proc_entry F KBOARD_DIRECTORY None w1) = node w"
        using entry_removed [of w1 d KBOARD_DIRECTORY None None] n0(1,2) by (simp add: n1 fun_upd_idem)
      then show ?thesis
        using None Some assms mk c(1) by (auto simp: InitializeProc_def ParentDirectory_def)
    next
      case (Some p)
      have d1: "node w1 d = Some (KBOARD_DIRECTORY, None, None)"
        and p1: "node w1 p = Some (KBOARD_WRITER, Some d, Some KBOARD_WRITER_FILE_OPERATIONS)"
        by (rule create_in_dir [OF c(1) dir]; simp add: Some)+
      have d2: "node w2 d = Some (KBOARD_DIRECTORY, None, None)" and p2: "node w2 p = node w1 p"
        using create_keeps [OF c(2) d1] d1 p1 by simp_all
      have d3: "node w3 d = Some (KBOARD_DIRECTORY, None, None)" and p3: "node w3 p = node w1 p"
        using create_keeps [OF c(3) d2] d2 p1 p2 by simp_all
      have d4: "node w4 d = Some (KBOARD_DIRECTORY, None, None)" and p4: "node w4 p = node w1 p"
        using create_keeps [OF c(4) d3] d3 p1 p3 by simp_all
      have "KboardProcWriter g = Some p" "w' \<in> remove_proc_entry F KBOARD_DIRECTORY ParentDirectory ` {w2, w3, w4}"
        using assms(1) mk c Some \<open>e = Some d\<close> by (auto simp: InitializeProc_def Let_def split: if_splits)
      then show ?thesis
        using p1 p2 p3 p4 d2 d3 d4 by auto
    qed
  qed
qed

end

interpretation table_module: module_procfs table_procfs "\<lambda>es. es"
  by unfold_locales

text \<open>
  The entry at \<open>p\<close> is the file \<open>name\<close> of the directory \<open>d\<close>; if it can be opened then reading it runs the given \<open>Show\<close> function, and
  writing it runs the given function, if there is one, or is not possible.
\<close>

definition serves ::
    "'y opener \<Rightarrow> 'y cs_methods \<Rightarrow> 'm copy_in \<Rightarrow> (string \<Rightarrow> cint option) \<Rightarrow> cint \<Rightarrow> file_operations nodes \<Rightarrow> entry \<Rightarrow> nat \<Rightarrow> string \<Rightarrow>
     'y show_fn \<Rightarrow> ('m, 'y) write_fn option \<Rightarrow> bool" where
  "serves so M cfu scan rnd es p d name reads writes \<longleftrightarrow>
     (case p of None \<Rightarrow> False | Some q \<Rightarrow>
      (case es q of Some (n, e, Some f) \<Rightarrow> n = name \<and> e = Some d \<and> fop_read f = Seq_read \<and> fop_llseek f = Seq_lseek \<and> fop_release f = Seq_release \<and>
         (case call_open so M rnd (fop_open f) of None \<Rightarrow> False | Some (ret, g) \<Rightarrow> ret = 0 \<longrightarrow> g = Some reads) \<and>
         (case writes of None \<Rightarrow> fop_write f = None | Some wr \<Rightarrow> Option.bind (fop_write f) (call_write M cfu scan) = Some wr)
       | _ \<Rightarrow> False))"

lemma module_serves:
  assumes "seq_files so" and "distinct [d, p1, p2, p3, p4]"
  shows "serves so M cfu scan rnd (module_nodes d p1 p2 p3 p4 es) (Some p1) d ''writer'' (KboardWriter_Show M) (Some (KboardWriter_Write M cfu scan))"
    and "serves so M cfu scan rnd (module_nodes d p1 p2 p3 p4 es) (Some p2) d ''reader'' (KboardReader_Show M rnd) None"
    and "serves so M cfu scan rnd (module_nodes d p1 p2 p3 p4 es) (Some p3) d ''count'' KboardCounter_Show None"
    and "serves so M cfu scan rnd (module_nodes d p1 p2 p3 p4 es) (Some p4) d ''dump'' KboardDumper_Show None"
  using assms(2) seq_files.opened [OF assms(1)]
  by (auto simp: serves_def module_nodes_def proc_names KboardWriter_Open_def KboardReader_Open_def KboardCounter_Open_def KboardDumper_Open_def
      KBOARD_WRITER_FILE_OPERATIONS_def KBOARD_READER_FILE_OPERATIONS_def KBOARD_COUNTER_FILE_OPERATIONS_def KBOARD_DUMPER_FILE_OPERATIONS_def)

section \<open>Properties\<close>

text \<open>
  C21: Loading the module. The kboard is empty and its synchronisation variables are initialised, whatever
  the memory held before. The result is 0 if all five entries could be created (no pointer is \<open>NULL\<close>), and -1 otherwise. If it is 0 then,
  over any proc file system that keeps its contract, \<open>/proc/kboard\<close> is a live directory and the files \<open>writer\<close>, \<open>reader\<close>, \<open>count\<close> and
  \<open>dump\<close> are live entries in it; reading each of them, once \<open>single_open\<close> has succeeded, runs its own \<open>Show\<close> function, writing
  \<open>writer\<close> runs \<open>KboardWriter_Write\<close>, and the others cannot be written.
\<close>

theorem module_init_correct:
  assumes "length (RingBuffer s) = 5" and "seq_files so" and "proc_filesystem F node"
  shows "\<exists>ret s' g w'. KboardModuleInit K F s proc_null w = Inr (ret, s', g, w') \<and>
    s' = board (conc_start (sol1 K) (InitializeSyncSolution1 K) n) \<and> km_wf s' \<and> km_contents s' = [] \<and>
    ret = (if all_created g then 0 else - 1) \<and>
    (ret = 0 \<longrightarrow> (\<exists>d. KboardProcDirectory g = Some d \<and> node w' d = Some (''kboard'', None, None) \<and>
      serves so M cfu scan rnd (node w') (KboardProcWriter g) d ''writer'' (KboardWriter_Show M) (Some (KboardWriter_Write M cfu scan)) \<and>
      serves so M cfu scan rnd (node w') (KboardProcReader g) d ''reader'' (KboardReader_Show M rnd) None \<and>
      serves so M cfu scan rnd (node w') (KboardProcCounter g) d ''count'' KboardCounter_Show None \<and>
      serves so M cfu scan rnd (node w') (KboardProcDumper g) d ''dump'' KboardDumper_Show None))"
proof -
  obtain s' where s': "InitializeKboard s = Inr s'"
    "InitializeSyncSolution K s' = board (conc_start (sol1 K) (InitializeSyncSolution1 K) n)"
    using module_board [OF assms(1)] by blast
  obtain ret g w' where p: "InitializeProc F proc_null w = (ret, g, w')"
    by (cases "InitializeProc F proc_null w")
  have "\<exists>d. KboardProcDirectory g = Some d \<and> node w' d = Some (''kboard'', None, None) \<and>
      serves so M cfu scan rnd (node w') (KboardProcWriter g) d ''writer'' (KboardWriter_Show M) (Some (KboardWriter_Write M cfu scan)) \<and>
      serves so M cfu scan rnd (node w') (KboardProcReader g) d ''reader'' (KboardReader_Show M rnd) None \<and>
      serves so M cfu scan rnd (node w') (KboardProcCounter g) d ''count'' KboardCounter_Show None \<and>
      serves so M cfu scan rnd (node w') (KboardProcDumper g) d ''dump'' KboardDumper_Show None" if ret: "ret = 0"
  proof -
    obtain d p1 p2 p3 p4 where g: "g = \<lparr>KboardProcDirectory = Some d, KboardProcWriter = Some p1, KboardProcReader = Some p2,
        KboardProcCounter = Some p3, KboardProcDumper = Some p4\<rparr>" and di: "distinct [d, p1, p2, p3, p4]"
      and w': "node w' = module_nodes d p1 p2 p3 p4 (node w)"
      using module_procfs.initialized [OF module_procfs.intro [OF assms(3)] p [unfolded ret]] by blast
    show ?thesis
      using module_serves [OF assms(2) di, where M = M and cfu = cfu and scan = scan and rnd = rnd and es = "node w"] di
      by (intro exI [of _ d]) (simp add: g w' module_nodes_def proc_names)
  qed
  then show ?thesis
    using s' p InitializeProc_ret [OF p] by (simp add: KboardModuleInit_def Let_def conc_start_def km_initial)
qed

text \<open>An empty proc file system, and uninitialised memory.\<close>

definition no_entries :: "file_operations nodes" where
  "no_entries = (\<lambda>_. None)"

lemma demo_proc:
  "\<exists>g w. InitializeProc table_procfs proc_null no_entries = (0, g, w)"
  by (simp add: InitializeProc_def ParentDirectory_def table_procfs_def add_entry_def free_name_def no_entries_def proc_names proc_null_def)

theorem module_init_correct_witness:
  "\<exists>s' g w d. KboardModuleInit counting_sem table_procfs (km_fresh\<lparr>RingBuffer := [0, 1, 2, 3, 4], RingBufferCount := 9\<rparr>) proc_null no_entries =
      Inr (0, s', g, w) \<and> km_contents s' = [] \<and>
    serves always_opens (methods1 counting_sem) text_copy_in scan_dec 0 w (KboardProcWriter g) d ''writer''
      (KboardWriter_Show (methods1 counting_sem)) (Some (KboardWriter_Write (methods1 counting_sem) text_copy_in scan_dec))"
proof -
  let ?s = "km_fresh\<lparr>RingBuffer := [0, 1, 2, 3, 4], RingBufferCount := 9\<rparr>"
  have len: "length (RingBuffer ?s) = 5"
    by simp
  obtain ret s' g w where i: "KboardModuleInit counting_sem table_procfs ?s proc_null no_entries = Inr (ret, s', g, w)"
    "km_contents s' = []"
    and f: "ret = 0 \<longrightarrow> (\<exists>d. serves always_opens (methods1 counting_sem) text_copy_in scan_dec 0 w (KboardProcWriter g) d ''writer''
      (KboardWriter_Show (methods1 counting_sem)) (Some (KboardWriter_Write (methods1 counting_sem) text_copy_in scan_dec)))"
    using module_init_correct [OF len opens.seq_files_axioms table.proc_filesystem_axioms, where K = counting_sem and w = no_entries and
      M = "methods1 counting_sem" and cfu = text_copy_in and scan = scan_dec and rnd = 0 and n = 1] by blast
  have "ret = 0"
    using i(1) demo_proc by (auto simp: KboardModuleInit_def Let_def rbind_Inr)
  with i f show ?thesis by blast
qed



end
