(* ===== verification/Kboard_Progress.thy ===== *)
theory Kboard_Progress
  imports Kboard_Conc
begin

text \<open>
  Completion of the concurrent handlers of \<open>lab2/KboardModule.c\<close>. The locale \<open>rw_progress\<close> extends the contract
  \<open>rw_exclusion\<close> by what is needed for it: every position of a solution belongs to a phase of a visit, every
  statement lowers a rank, and there is no deadlock. Then a thread's phase agrees with what it is doing in its
  handler (\<open>phases_reach\<close>), every statement lowers the work left (\<open>work_sched\<close>), and a system in which nobody can go on
  has no call left (\<open>conc_stuck\<close>). Solutions 1 and 2 have such phases and ranks, whatever the semaphores are.
\<close>

section \<open>Phases and ranks\<close>

text \<open>Where a thread is in its visit; the flag is true for a reader.\<close>

datatype phase = Outside | Entry bool | Critical bool | Exit bool

locale rw_progress = rw_exclusion P s0 n for P :: "('p, 's) sync_ops" and s0 n +
  fixes phase :: "'p \<Rightarrow> phase" and rank :: "'p \<Rightarrow> nat" and longest :: nat
  assumes phase_places: "phase p = Outside \<longleftrightarrow> p = pos_idle P" "phase p = Critical False \<longleftrightarrow> p = pos_in_writer P"
      "phase p = Critical True \<longleftrightarrow> p = pos_in_reader P"
    and phase_calls: "phase (pos_enter_writer P) = Entry False" "phase (pos_enter_reader P) = Entry True"
      "phase (pos_leave_writer P) = Exit False" "phase (pos_leave_reader P) = Exit True"
    and phase_entry: "pstep P p s = Some (q, s') \<Longrightarrow> phase p = Entry k \<Longrightarrow> phase q = Entry k \<or> phase q = Critical k"
    and phase_exit: "pstep P p s = Some (q, s') \<Longrightarrow> phase p = Exit k \<Longrightarrow> phase q = Exit k \<or> phase q = Outside"
    and rank_step: "pstep P p s = Some (q, s') \<Longrightarrow> rank q < rank p"
    and rank_leave: "rank (pos_leave_writer P) < rank (pos_in_writer P)" "rank (pos_leave_reader P) < rank (pos_in_reader P)"
    and rank_le: "rank p \<le> longest"
    and live: "reach (rw_step P) (rw_start P s0 n) c \<Longrightarrow> \<not> rw_deadlock P c"

section \<open>Work left\<close>

fun stmts_left :: "stmt \<Rightarrow> nat" where
  "stmts_left PLoad = 7"
| "stmts_left (PStore _) = 6"
| "stmts_left PTest = 5"
| "stmts_left PTake = 4"
| "stmts_left (PClear _) = 3"
| "stmts_left (PDec _) = 2"
| "stmts_left (PAdvance _) = 1"
| "stmts_left (CLoad _) = 5"
| "stmts_left (CStore _ _) = 4"
| "stmts_left (CTest _) = 3"
| "stmts_left (CPut _) = 2"
| "stmts_left (CInc _) = 1"
| "stmts_left (RLoad _) = 3"
| "stmts_left (RStore _ _) = 2"
| "stmts_left (RSlot _) = 1"

fun act_left :: "act \<Rightarrow> nat" where
  "act_left NoJob = 0"
| "act_left (Entering b) = 2 + stmts_left b"
| "act_left (Body b) = 1 + stmts_left b"
| "act_left (Leaving r) = 1"

lemma body_step_left: "body_step b s = Inr (Inl b', s') \<Longrightarrow> stmts_left b' < stmts_left b"
  by (cases b) (auto simp: rbind_Inr split: if_splits)

lemma stmts_left_le: "stmts_left b \<le> 7"
  by (cases b) simp_all

lemma act_left_le: "act_left a \<le> 9"
  using stmts_left_le [of "case a of Entering b \<Rightarrow> b | Body b \<Rightarrow> b"] by (cases a) simp_all

lemma body_step_kind: "body_step b s = Inr (Inl b', s') \<Longrightarrow> is_reader b' = is_reader b"
  by (cases b) (auto simp: rbind_Inr split: if_splits)

definition work :: "('p \<Rightarrow> nat) \<Rightarrow> ('p, 'y) conc \<Rightarrow> nat" where
  "work rank c = sum_list (map2 (\<lambda>p a. rank p + act_left a) (pos c) (acts c))"

text \<open>The phase a thread is in, by its activity.\<close>

fun act_phase :: "act \<Rightarrow> phase set" where
  "act_phase NoJob = {Outside}"
| "act_phase (Entering b) = {Entry (is_reader b), Critical (is_reader b)}"
| "act_phase (Body b) = {Critical (is_reader b)}"
| "act_phase (Leaving r) = {Exit True, Exit False, Outside}"

definition phases_ok :: "('p \<Rightarrow> phase) \<Rightarrow> ('p, 'y) conc \<Rightarrow> bool" where
  "phases_ok phase c \<longleftrightarrow> list_all2 (\<lambda>p a. phase p \<in> act_phase a) (pos c) (acts c)"

text \<open>A step of one thread that lowers its rank or its activity lowers the work.\<close>

lemma work_less:
  assumes "t < length (pos c)" and "length (acts c) = length (pos c)"
    and "rank p + act_left a < rank (pos c ! t) + act_left (acts c ! t)"
  shows "work rank (c\<lparr>pos := (pos c)[t := p], acts := (acts c)[t := a]\<rparr>) < work rank c"
proof -
  let ?f = "\<lambda>p a. rank p + act_left a"
  have "map2 ?f ((pos c)[t := p]) ((acts c)[t := a]) = (map2 ?f (pos c) (acts c))[t := ?f p a]"
    by (simp add: map_update zip_update)
  then show ?thesis
    using sum_list_less [of t "map2 ?f (pos c) (acts c)" "?f p a"] assms by (simp add: work_def)
qed

lemma work_le:
  assumes "\<And>p. rank p \<le> m" and "length (acts c) = length (pos c)"
  shows "work rank c \<le> (m + 9) * length (pos c)"
proof -
  have "sum_list (map2 (\<lambda>p a. rank p + act_left a) ps as) \<le> (m + 9) * length ps" if "length as = length ps" for ps as
    using that
  proof (induction as ps rule: list_induct2)
    case (Cons a as p ps)
    then show ?case
      using assms(1) [of p] act_left_le [of a] by simp
  qed simp
  then show ?thesis
    using assms(2) by (simp add: work_def)
qed

context rw_progress
begin

lemma phase_in: "phase p = Critical (is_reader b) \<longleftrightarrow> p = in_pos P b"
  using phase_places(2,3) [of p] by (cases "is_reader b") (simp_all add: in_pos_def)

lemma phase_of_calls: "phase (enter_pos P b) = Entry (is_reader b)" "phase (leave_pos P b) = Exit (is_reader b)"
  using phase_calls by (cases "is_reader b"; simp add: enter_pos_def leave_pos_def)+

lemma rank_of_leave: "rank (leave_pos P b) < rank (in_pos P b)"
  using rank_leave by (simp add: leave_pos_def in_pos_def)

lemma phases_update:
  assumes "phases_ok phase c" and "phase p \<in> act_phase a"
  shows "list_all2 (\<lambda>p a. phase p \<in> act_phase a) ((pos c)[t := p]) ((acts c)[t := a])"
  using assms by (simp add: phases_ok_def list_all2_update_cong)

lemma phases_thread: "phases_ok phase c \<Longrightarrow> t < length (pos c) \<Longrightarrow> phase (pos c ! t) \<in> act_phase (acts c ! t)"
  by (auto simp: phases_ok_def dest: list_all2_nthD)

lemma phases_act:
  "phases_ok phase c \<Longrightarrow> phase (pos c ! t) \<in> act_phase a \<Longrightarrow> list_all2 (\<lambda>p a. phase p \<in> act_phase a) (pos c) ((acts c)[t := a])"
  using phases_update [of c "pos c ! t" a t] by simp

lemma phases_sched:
  assumes ok: "phases_ok phase c" and step: "conc_step P (Sched t) c = Some c'"
  shows "phases_ok phase c'"
  using step
proof (cases rule: conc_sched_cases)
  case (enter b)
  then show ?thesis
    using phases_act [OF ok, of t "Body b"] phase_in by (simp add: phases_ok_def)
next
  case (sync p y)
  have old: "phase (pos c ! t) \<in> act_phase (acts c ! t)"
    using phases_thread [OF ok sync(1)] .
  have "phase p \<in> act_phase (acts c ! t)"
    using sync(2) old phase_in phase_places(1) phase_entry [OF sync(3)] phase_exit [OF sync(3)] by fastforce
  then show ?thesis
    using phases_update [OF ok, of p "acts c ! t" t] sync(4) by (simp add: phases_ok_def)
next
  case (body b b' s)
  then have "phase (pos c ! t) \<in> act_phase (Body b')"
    using phases_thread [OF ok body(1)] body_step_kind [OF body(3)] by simp
  then show ?thesis
    using phases_act [OF ok, of t "Body b'"] body(4) by (simp add: phases_ok_def)
next
  case (finish b r s)
  then show ?thesis
    using phases_update [OF ok, of "leave_pos P b" "Leaving r" t] phase_of_calls by (cases "is_reader b") (simp_all add: phases_ok_def)
next
  case (idle r)
  then show ?thesis
    using phases_act [OF ok, of t NoJob] phase_places(1) by (simp add: phases_ok_def)
qed

lemma phases_reach:
  assumes "reach (conc_step P) (conc_start P s0 n) c"
  shows "phases_ok phase c"
  using assms
proof (induction rule: reach_invariant)
  case start
  have "phase (pos_idle P) = Outside"
    using phase_places(1) by simp
  then show ?case
    by (simp add: phases_ok_def conc_start_def list_all2_conv_all_nth)
next
  case (step x c c')
  show ?case
  proof (cases x)
    case (Start t j)
    then show ?thesis
      using step.hyps(2) phases_update [OF step.IH, of "enter_pos P (first_stmt j)" "Entering (first_stmt j)" t] phase_of_calls
      by (auto simp: phases_ok_def split: if_splits)
  next
    case (Sched t)
    then show ?thesis
      using phases_sched [OF step.IH] step.hyps(2) by simp
  qed
qed

lemma work_sched:
  assumes ok: "phases_ok phase c" and step: "conc_step P (Sched t) c = Some c'"
  shows "work rank c' < work rank c"
proof -
  have len: "length (acts c) = length (pos c)"
    using ok by (simp add: phases_ok_def list_all2_lengthD)
  note less = work_less [of t c rank, OF _ len]
  have less_act: "act_left a < act_left (acts c ! t) \<Longrightarrow> t < length (pos c) \<Longrightarrow> work rank (c\<lparr>acts := (acts c)[t := a]\<rparr>) < work rank c" for a
    using less [of "pos c ! t" a] by (simp add: work_def)
  show ?thesis
    using step
  proof (cases rule: conc_sched_cases)
    case (enter b)
    then show ?thesis
      using less_act [of "Body b"] by (simp add: work_def)
  next
    case (sync p y)
    then show ?thesis
      using less [of p "acts c ! t"] rank_step [OF sync(3)] by (simp add: work_def)
  next
    case (body b b' s)
    then show ?thesis
      using less_act [of "Body b'"] body_step_left [OF body(3)] by (simp add: work_def)
  next
    case (finish b r s)
    then show ?thesis
      using less [of "leave_pos P b" "Leaving r"] rank_of_leave [of b] phases_thread [OF ok finish(1)] phase_in [of "pos c ! t" b]
      by (simp add: work_def)
  next
    case (idle r)
    then show ?thesis
      using less_act [of NoJob] by (simp add: work_def)
  qed
qed


text \<open>A thread that cannot execute a statement is idle, or waits inside a synchronisation method.\<close>

lemma conc_waiting:
  assumes r: "reach (conc_step P) (conc_start P s0 n) c" and t: "t < n" and none: "conc_step P (Sched t) c = None"
  shows "acts c ! t = NoJob \<and> pos c ! t = pos_idle P \<or>
    pos c ! t \<notin> {pos_idle P, pos_in_writer P, pos_in_reader P} \<and> pstep P (pos c ! t) (Sync (board c)) = None"
proof -
  note len = conc_length(1) [OF r]
  have ph: "phase (pos c ! t) \<in> act_phase (acts c ! t)"
    using phases_thread [OF phases_reach [OF r]] t len by simp
  have at: "pos c ! t \<notin> {pos_idle P, pos_in_writer P, pos_in_reader P}"
    if "phase (pos c ! t) = Entry k \<or> phase (pos c ! t) = Exit k" for k
    using phase_places [of "pos c ! t"] that by auto
  show ?thesis
  proof (cases "acts c ! t")
    case NoJob
    then show ?thesis
      using ph phase_places(1) by simp
  next
    case (Entering b)
    then show ?thesis
      using none t len ph at phase_in by (auto simp: sync_stmt_def split: if_splits option.splits)
  next
    case (Body b)
    then show ?thesis
      using conc_no_fault [OF r t] none by auto
  next
    case (Leaving q)
    then show ?thesis
      using none t len ph at phase_places(1) by (auto simp: sync_stmt_def split: if_splits option.splits)
  qed
qed

lemma conc_stuck:
  assumes r: "reach (conc_step P) (conc_start P s0 n) c" and none: "\<And>t. t < n \<Longrightarrow> conc_step P (Sched t) c = None"
  shows "acts c = replicate n NoJob"
proof (rule nth_equalityI)
  note len = conc_length [OF r]
  then show "length (acts c) = length (replicate n NoJob)"
    by simp
  have "\<not> rw_deadlock P (Sync (board c), pos c)"
    using live conc_inv_reach [OF r] by (simp add: conc_inv_def)
  then have idle: "pos c ! t \<in> {pos_idle P, pos_in_writer P, pos_in_reader P}" if "t < n" for t
    using that len(1) conc_waiting [OF r _ none] apart waits_idle by (force simp: rw_deadlock_def)
  show "acts c ! t = replicate n NoJob ! t" if "t < length (acts c)" for t
    using that len(2) conc_waiting [OF r _ none] idle by force
qed

text \<open>
  From any reachable state, and if nobody calls any more, every schedule comes to its end, and at its end
  every call has returned.
\<close>

lemma conc_completes:
  assumes r: "reach (conc_step P) (conc_start P s0 n) c" and run: "exec (\<lambda>t. conc_step P (Sched t)) ts c = Some c'"
  shows "length ts \<le> (longest + 9) * n \<and>
    (acts c' = replicate n NoJob \<or> (\<exists>t < n. \<exists>c''. conc_step P (Sched t) c' = Some c''))"
proof -
  have r': "reach (conc_step P) (conc_start P s0 n) c'" and len: "length ts + work rank c' \<le> work rank c"
  proof -
    let ?I = "reach (conc_step P) (conc_start P s0 n)"
    have "?I d' \<and> work rank d' < work rank d" if "?I d" "conc_step P (Sched t) d = Some d'" for t d d'
      using reach.step [OF that] work_sched [OF phases_reach [OF that(1)] that(2)] by simp
    then have "?I c' \<and> length ts + work rank c' \<le> work rank c"
      by (rule exec_measure [where I = ?I, OF _ r run])
    then show "?I c'" "length ts + work rank c' \<le> work rank c"
      by simp_all
  qed
  have "work rank c \<le> (longest + 9) * n"
    using work_le [of rank longest c] rank_le conc_length [OF r] by simp
  moreover have "acts c' = replicate n NoJob" if "\<not> (\<exists>t < n. \<exists>c''. conc_step P (Sched t) c' = Some c'')"
    using conc_stuck [OF r'] that by (metis not_Some_eq)
  ultimately show ?thesis
    using len by (intro conjI) (linarith, blast)
qed

end

section \<open>Solutions 1 and 2\<close>

fun phase1 :: "pc1 \<Rightarrow> phase" where
  "phase1 Idle1 = Outside"
| "phase1 EW1_down_Writer = Entry False"
| "phase1 InW1 = Critical False"
| "phase1 LW1_up_Writer = Exit False"
| "phase1 InR1 = Critical True"
| "phase1 p = (if p \<in> {ER1_down_Mutex, ER1_inc, ER1_if, ER1_down_Writer, ER1_up_Mutex} then Entry True else Exit True)"

fun rank1 :: "pc1 \<Rightarrow> nat" where
  "rank1 Idle1 = 0"
| "rank1 EW1_down_Writer = 3" | "rank1 InW1 = 2" | "rank1 LW1_up_Writer = 1"
| "rank1 ER1_down_Mutex = 11" | "rank1 ER1_inc = 10" | "rank1 ER1_if = 9" | "rank1 ER1_down_Writer = 8"
| "rank1 ER1_up_Mutex = 7" | "rank1 InR1 = 6"
| "rank1 LR1_down_Mutex = 5" | "rank1 LR1_dec = 4" | "rank1 LR1_if = 3" | "rank1 LR1_up_Writer = 2" | "rank1 LR1_up_Mutex = 1"

sublocale rw_threads \<subseteq> p1: rw_progress "sol1 K" "InitializeSyncSolution1 K" n phase1 rank1 11
proof
  show "phase1 p = Outside \<longleftrightarrow> p = pos_idle (sol1 K)" "phase1 p = Critical False \<longleftrightarrow> p = pos_in_writer (sol1 K)"
    "phase1 p = Critical True \<longleftrightarrow> p = pos_in_reader (sol1 K)" "rank1 p \<le> 11" for p
    by (cases p; simp)+
  show "phase1 q = Entry k \<or> phase1 q = Critical k" if "pstep (sol1 K) p s = Some (q, s')" "phase1 p = Entry k" for p q s s' k
    using that by (cases p) auto
  show "phase1 q = Exit k \<or> phase1 q = Outside" if "pstep (sol1 K) p s = Some (q, s')" "phase1 p = Exit k" for p q s s' k
    using that by (cases p) auto
  show "rank1 q < rank1 p" if "pstep (sol1 K) p s = Some (q, s')" for p q s s'
    using that by (cases p) auto
  show "\<not> rw_deadlock (sol1 K) c" if "reach (rw_step (sol1 K)) (rw_start (sol1 K) (InitializeSyncSolution1 K) n) c" for c
    using that inv1_no_deadlock [OF inv1_reach [OF n_small]] by (cases c) simp
qed simp_all

fun phase2 :: "pc2 \<Rightarrow> phase" where
  "phase2 Idle2 = Outside"
| "phase2 InW2 = Critical False"
| "phase2 InR2 = Critical True"
| "phase2 p =
     (if p \<in> {EW2_down_WriterMutex, EW2_inc, EW2_if, EW2_down_Reader, EW2_up_WriterMutex, EW2_down_Writer} then Entry False
      else if p \<in> {LW2_up_Writer, LW2_down_WriterMutex, LW2_dec, LW2_if, LW2_up_Reader, LW2_up_WriterMutex} then Exit False
      else if p \<in> {LR2_down_ReaderMutex, LR2_dec, LR2_if, LR2_up_Writer, LR2_up_ReaderMutex} then Exit True
      else Entry True)"

fun rank2 :: "pc2 \<Rightarrow> nat" where
  "rank2 Idle2 = 0"
| "rank2 EW2_down_WriterMutex = 13" | "rank2 EW2_inc = 12" | "rank2 EW2_if = 11" | "rank2 EW2_down_Reader = 10"
| "rank2 EW2_up_WriterMutex = 9" | "rank2 EW2_down_Writer = 8" | "rank2 InW2 = 7"
| "rank2 LW2_up_Writer = 6" | "rank2 LW2_down_WriterMutex = 5" | "rank2 LW2_dec = 4" | "rank2 LW2_if = 3"
| "rank2 LW2_up_Reader = 2" | "rank2 LW2_up_WriterMutex = 1"
| "rank2 ER2_down_Reader = 13" | "rank2 ER2_up_Reader = 12" | "rank2 ER2_down_ReaderMutex = 11" | "rank2 ER2_inc = 10"
| "rank2 ER2_if = 9" | "rank2 ER2_down_Writer = 8" | "rank2 ER2_up_ReaderMutex = 7" | "rank2 InR2 = 6"
| "rank2 LR2_down_ReaderMutex = 5" | "rank2 LR2_dec = 4" | "rank2 LR2_if = 3" | "rank2 LR2_up_Writer = 2"
| "rank2 LR2_up_ReaderMutex = 1"

sublocale rw_threads \<subseteq> p2: rw_progress "sol2 K" "InitializeSyncSolution2 K" n phase2 rank2 13
proof
  show "phase2 p = Outside \<longleftrightarrow> p = pos_idle (sol2 K)" "phase2 p = Critical False \<longleftrightarrow> p = pos_in_writer (sol2 K)"
    "phase2 p = Critical True \<longleftrightarrow> p = pos_in_reader (sol2 K)" "rank2 p \<le> 13" for p
    by (cases p; simp)+
  show "phase2 q = Entry k \<or> phase2 q = Critical k" if "pstep (sol2 K) p s = Some (q, s')" "phase2 p = Entry k" for p q s s' k
    using that by (cases p) auto
  show "phase2 q = Exit k \<or> phase2 q = Outside" if "pstep (sol2 K) p s = Some (q, s')" "phase2 p = Exit k" for p q s s' k
    using that by (cases p) auto
  show "rank2 q < rank2 p" if "pstep (sol2 K) p s = Some (q, s')" for p q s s'
    using that by (cases p) auto
  show "\<not> rw_deadlock (sol2 K) c" if "reach (rw_step (sol2 K)) (rw_start (sol2 K) (InitializeSyncSolution2 K) n) c" for c
    using that inv2_no_deadlock [OF inv2_reach [OF n_small]] by (cases c) simp
qed simp_all


context rw_threads
begin

lemma completes1:
  assumes "reach (conc_step (sol1 K)) (conc_start (sol1 K) (InitializeSyncSolution1 K) n) c"
    and "exec (\<lambda>t. conc_step (sol1 K) (Sched t)) ts c = Some c'"
  shows "length ts \<le> 20 * n \<and>
    (acts c' = replicate n NoJob \<or> (\<exists>t < n. \<exists>c''. conc_step (sol1 K) (Sched t) c' = Some c''))"
  using p1.conc_completes [OF assms] by simp

lemma completes2:
  assumes "reach (conc_step (sol2 K)) (conc_start (sol2 K) (InitializeSyncSolution2 K) n) c"
    and "exec (\<lambda>t. conc_step (sol2 K) (Sched t)) ts c = Some c'"
  shows "length ts \<le> 22 * n \<and>
    (acts c' = replicate n NoJob \<or> (\<exists>t < n. \<exists>c''. conc_step (sol2 K) (Sched t) c' = Some c''))"
  using p2.conc_completes [OF assms] by simp

lemma phases1:
  assumes "reach (conc_step (sol1 K)) (conc_start (sol1 K) (InitializeSyncSolution1 K) n) c" and "t < n"
  shows "phase1 (pos c ! t) \<in> act_phase (acts c ! t)"
  using p1.phases_thread [OF p1.phases_reach [OF assms(1)]] s1.conc_length [OF assms(1)] assms(2) by simp

end

section \<open>Properties\<close>

text \<open>
  C4: Every call of a handler returns. From any reachable state of the module with solution 1, if no further
  call is made, no schedule has more than 20 statements per thread, and as long as a call is not finished, some
  thread can execute its next statement; so every schedule that goes on as long as it can ends with all calls
  finished.
\<close>

theorem module_completes:
  assumes "kernel_semaphore K val" and "n < 2147483648"
    and "reach (conc_step (sol1 K)) (conc_start (sol1 K) (InitializeSyncSolution1 K) n) c"
    and "exec (\<lambda>t. conc_step (sol1 K) (Sched t)) ts c = Some c'"
  shows "length ts \<le> 20 * n \<and>
    (acts c' = replicate n NoJob \<or> (\<exists>t < n. \<exists>c''. conc_step (sol1 K) (Sched t) c' = Some c''))"
  using rw_threadsI [OF assms(1,2)] assms(3,4) by (rule rw_threads.completes1)

theorem module_completes_witness:
  "\<exists>c. reach (conc_step (sol1 counting_sem)) (conc_start (sol1 counting_sem) (InitializeSyncSolution1 counting_sem) 2) c \<and>
    acts c = [Leaving Accepted, Entering PLoad] \<and> (\<exists>t < 2. \<exists>c''. conc_step (sol1 counting_sem) (Sched t) c = Some c'')"
proof -
  obtain c where c: "reach (conc_step (sol1 counting_sem)) (conc_start (sol1 counting_sem) (InitializeSyncSolution1 counting_sem) 2) c"
    and log: "acts c = [Leaving Accepted, Entering PLoad]"
    by (rule conc_demo_reach)
  have "acts c \<noteq> replicate 2 NoJob"
    by (simp add: log numeral_2_eq_2)
  then show ?thesis
    using module_completes [OF counting.kernel_semaphore_axioms _ c, of "[]" c] c log by (intro exI [of _ c]) auto
qed

text \<open>The same for solution 2, with at most 22 statements per thread.\<close>

lemma module2_completes:
  assumes "kernel_semaphore K val" and "n < 2147483648"
    and "reach (conc_step (sol2 K)) (conc_start (sol2 K) (InitializeSyncSolution2 K) n) c"
    and "exec (\<lambda>t. conc_step (sol2 K) (Sched t)) ts c = Some c'"
  shows "length ts \<le> 22 * n \<and>
    (acts c' = replicate n NoJob \<or> (\<exists>t < n. \<exists>c''. conc_step (sol2 K) (Sched t) c' = Some c''))"
  using rw_threadsI [OF assms(1,2)] assms(3,4) by (rule rw_threads.completes2)

text \<open>
  The typestate of a handler. In every reachable state of the module with solution 1, for every thread: one
  that has no call is outside the synchronisation methods; one that executes the body of a writing handler is at
  the place behind \<open>EnterCriticalSection_Writer\<close>, one in the body of the reading handler behind
  \<open>EnterCriticalSection_Reader\<close>; one that enters is in, or just behind, the entry method of its own kind; and one
  that leaves is in a leave method or behind it. So no handler enters as one kind and works or leaves as the other,
  and none touches the kboard outside the two methods.
\<close>

lemma module_phases:
  assumes "kernel_semaphore K val" and "n < 2147483648"
    and "reach (conc_step (sol1 K)) (conc_start (sol1 K) (InitializeSyncSolution1 K) n) c" and "t < n"
  shows "phase1 (pos c ! t) \<in> act_phase (acts c ! t)"
  using rw_threadsI [OF assms(1,2)] assms(3,4) by (rule rw_threads.phases1)

end
