(* ===== verification/Kboard_Dump.thy ===== *)
theory Kboard_Dump
  imports Kboard_Conc
begin

text \<open>
  \<open>KboardDumper_Show\<close> of \<open>lab2/KboardModule.c\<close>, which prints the whole kboard without entering a critical section, run
  by any number of processes together with the handlers of \<open>Kboard_Conc\<close>. Every \<open>seq_printf\<close> is one statement; its
  arguments are read when it is executed. The text of a dump nobody disturbs is that of the function in
  \<open>Kboard_Module\<close> (\<open>dump_alone\<close>). In between, a dump is memory safe and shows only values that belong there
  (\<open>dump_concurrent\<close>), but it is not a snapshot (\<open>dump_torn\<close>). \<open>KboardCounter_Show\<close> has one access, of
  \<open>RingBufferCount\<close>, which \<open>kboard_conc_safe\<close> covers.
\<close>

section \<open>The dumper, statement by statement\<close>

datatype dstmt = DTitle | DRing | DFor cint | DCount | DIndex | DTimes | DSolution | DEnd

fun dump_stmt :: "dstmt \<Rightarrow> 'y kboard \<Rightarrow> (dstmt option \<times> string) result" where
  "dump_stmt DTitle s = Inr (Some DRing, ''====== Kboard Status ======'' @ newline)"
| "dump_stmt DRing s = Inr (Some (DFor 0), ''[RingBuffer]'' @ newline)"
| "dump_stmt (DFor index) s =
     (if index <s RING_BUFFER_SIZE then
        rbind (arr_get (RingBuffer s) index) (\<lambda>v.
          Inr (Some (DFor (index + 1)), ''index: '' @ quoted (fmt_d index) @ '', value: '' @ quoted (fmt_d v) @ newline))
      else Inr (Some DCount, []))"
| "dump_stmt DCount s = Inr (Some DIndex, ''[Count: '' @ quoted (fmt_d (RingBufferCount s)) @ '']'' @ newline)"
| "dump_stmt DIndex s = Inr (Some DTimes, ''[CurrentIndex: '' @ quoted (fmt_d (RingBufferCurrentIndex s)) @ '']'' @ newline)"
| "dump_stmt DTimes s = Inr (Some DSolution, ''[Writer: '' @ quoted (fmt_d (PerformWriter s)) @ '' times, Reader: '' @
     quoted (fmt_d (PerformReader s)) @ '' times]'' @ newline)"
| "dump_stmt DSolution s = Inr (Some DEnd, ''[Synchronization Solution: '' @ quoted (fmt_d SYNC_SOLUTION) @ '']'' @ newline)"
| "dump_stmt DEnd s = Inr (None, ''==========================='' @ newline)"

text \<open>A process that reads \<open>dump\<close>: its next statement (\<open>None\<close>: it has returned) and the text written so far.\<close>

type_synonym dumper = "dstmt option \<times> string"

text \<open>Threads of the handlers and readers of \<open>dump\<close> together.\<close>

datatype dchoice = Module choice | Dump nat

fun dsys_step :: "('p, 'y) sync_ops \<Rightarrow> dchoice \<Rightarrow> ('p, 'y) conc \<times> dumper list \<Rightarrow> (('p, 'y) conc \<times> dumper list) option" where
  "dsys_step P (Module x) (c, ds) = map_option (\<lambda>c'. (c', ds)) (conc_step P x c)"
| "dsys_step P (Dump d) (c, ds) =
     (if d < length ds then
        case ds ! d of
          (None, out) \<Rightarrow> None
        | (Some b, out) \<Rightarrow>
            (case dump_stmt b (board c) of Inl _ \<Rightarrow> None | Inr (b', line) \<Rightarrow> Some (c, ds[d := (b', out @ line)]))
      else None)"

definition dsys_start :: "('p, 'y) sync_ops \<Rightarrow> 'y \<Rightarrow> nat \<Rightarrow> nat \<Rightarrow> ('p, 'y) conc \<times> dumper list" where
  "dsys_start P y n k = (conc_start P y n, replicate k (Some DTitle, []))"

text \<open>A whole dump of a kboard nobody changes.\<close>

fun dump_rank :: "dstmt option \<Rightarrow> nat" where
  "dump_rank None = 0"
| "dump_rank (Some DEnd) = 1"
| "dump_rank (Some DSolution) = 2"
| "dump_rank (Some DTimes) = 3"
| "dump_rank (Some DIndex) = 4"
| "dump_rank (Some DCount) = 5"
| "dump_rank (Some (DFor i)) = 6 + nat (5 - sint i)"
| "dump_rank (Some DRing) = 12"
| "dump_rank (Some DTitle) = 13"

lemma dump_rank_step: "dump_stmt b s = Inr (b', line) \<Longrightarrow> dump_rank b' < dump_rank (Some b)"
  by (cases b) (auto simp: rbind_Inr RING_BUFFER_SIZE_def dest: loop_bound split: if_splits)

declare rbind_cong [fundef_cong]

function dump_run :: "dstmt option \<Rightarrow> 'y kboard \<Rightarrow> string result" where
  "dump_run None s = Inr []"
| "dump_run (Some b) s = rbind (dump_stmt b s) (\<lambda>(b', line). rbind (dump_run b' s) (\<lambda>rest. Inr (line @ rest)))"
  by pat_completeness auto
termination
  by (relation "measure (\<lambda>(b, s). dump_rank b)") (auto dest: dump_rank_step)
declare dump_run.simps(2) [simp del]


section \<open>What a dump shows\<close>

definition dump_head :: "cint list \<Rightarrow> string" where
  "dump_head vs = ''====== Kboard Status ======'' @ newline @ ''[RingBuffer]'' @ newline @
     concat (map2 dump_line [0..<length vs] vs)"

definition dump_counts :: "cint \<Rightarrow> string" where
  "dump_counts count = ''[Count: '' @ quoted (fmt_d count) @ '']'' @ newline"

definition dump_index :: "cint \<Rightarrow> string" where
  "dump_index index = ''[CurrentIndex: '' @ quoted (fmt_d index) @ '']'' @ newline"

definition dump_times :: "cint \<Rightarrow> cint \<Rightarrow> string" where
  "dump_times writers readers = ''[Writer: '' @ quoted (fmt_d writers) @ '' times, Reader: '' @
     quoted (fmt_d readers) @ '' times]'' @ newline"

definition dump_solution :: string where
  "dump_solution = ''[Synchronization Solution: '' @ quoted (fmt_d SYNC_SOLUTION) @ '']'' @ newline"

definition dump_text :: "cint list \<Rightarrow> cint \<Rightarrow> cint \<Rightarrow> cint \<Rightarrow> cint \<Rightarrow> string" where
  "dump_text vs count index writers readers = dump_head vs @ dump_counts count @ dump_index index @
     dump_times writers readers @ dump_solution @ ''==========================='' @ newline"

text \<open>A dump can be read back: its text determines the values it shows.\<close>

lemma dump_lines_inj:
  assumes "length vs = length ws"
  shows "concat (map2 dump_line [k..<k + length vs] vs) @ r = concat (map2 dump_line [k..<k + length ws] ws) @ r' \<longleftrightarrow> vs = ws \<and> r = r'"
  using assms
proof (induction vs ws arbitrary: k rule: list_induct2)
  case (Cons v vs w ws)
  have "[k..<k + length (x # xs)] = k # [Suc k..<Suc k + length xs]" for x and xs :: "cint list"
    by (simp add: upt_rec)
  then show ?case
    using Cons.IH [of "Suc k"] by (auto simp: dump_line_def quoted_inj)
qed simp

lemma dump_text_inj:
  assumes "length vs = length ws"
  shows "dump_text vs count index writers readers = dump_text ws count' index' writers' readers' \<longleftrightarrow>
    vs = ws \<and> count = count' \<and> index = index' \<and> writers = writers' \<and> readers = readers'"
  using dump_lines_inj [OF assms, of 0]
  by (simp add: dump_text_def dump_head_def dump_counts_def dump_index_def dump_times_def quoted_inj assms)

lemma dump_head_snoc: "dump_head (vs @ [v]) = dump_head vs @ dump_line (length vs) v"
  by (simp add: dump_head_def zip_append1)

lemma dump_tail:
  "dump_run (Some DCount) s = Inr (dump_counts (RingBufferCount s) @ dump_index (RingBufferCurrentIndex s) @
     dump_times (PerformWriter s) (PerformReader s) @ dump_solution @ ''==========================='' @ newline)"
  by (simp add: dump_run.simps(2) dump_counts_def dump_index_def dump_times_def dump_solution_def)

lemma dump_alone_for:
  assumes rest: "dump_run (Some DCount) s = Inr rest"
  shows "dump_run (Some (DFor i)) s = rbind (dump_loop (RingBuffer s) i) (\<lambda>slots. Inr (slots @ rest))"
proof (induction "RingBuffer s" i rule: dump_loop.induct)
  case (1 i)
  note unfold = dump_run.simps(2) [of "DFor i"] dump_loop.simps [of "RingBuffer s" i]
  show ?case
  proof (cases "i <s RING_BUFFER_SIZE")
    case True
    show ?thesis
    proof (cases "arr_get (RingBuffer s) i")
      case (Inr v)
      then show ?thesis
        using 1 [OF True] True by (cases "dump_loop (RingBuffer s) (i + 1)") (simp_all add: unfold)
    qed (simp add: unfold True)
  qed (simp add: unfold rest)
qed

lemma dump_alone: "KboardDumper_Show s = rbind (dump_run (Some DTitle) s) (\<lambda>text. Inr (0, text, s))"
  by (cases "dump_loop (RingBuffer s) 0")
    (simp_all add: KboardDumper_Show_def dump_run.simps(2) [of DTitle] dump_run.simps(2) [of DRing] dump_alone_for [OF dump_tail]
      dump_counts_def dump_index_def dump_times_def dump_solution_def)

section \<open>Any interleaving\<close>

text \<open>The items that have been accepted, or have just been stored and are about to be counted.\<close>

definition entered :: "('p, 'y) conc \<Rightarrow> cint set" where
  "entered c = {x. (Enq x, Accepted) \<in> set (clog c) \<or> Body (CInc x) \<in> set (acts c)}"

text \<open>
  What a dump has read so far: the slots, the count, the index and the two counters. \<open>dump_reads\<close> is what a statement
  adds, \<open>dump_upto\<close> the text before a statement, given what was read.
\<close>

type_synonym shown = "cint list \<times> cint \<times> cint \<times> cint \<times> cint"

fun dump_reads :: "dstmt \<Rightarrow> 'y kboard \<Rightarrow> shown \<Rightarrow> shown" where
  "dump_reads (DFor i) s (vs, rest) = (if i <s RING_BUFFER_SIZE then vs @ [RingBuffer s ! unat i] else vs, rest)"
| "dump_reads DCount s (vs, count, rest) = (vs, RingBufferCount s, rest)"
| "dump_reads DIndex s (vs, count, index, rest) = (vs, count, RingBufferCurrentIndex s, rest)"
| "dump_reads DTimes s (vs, count, index, w, r) = (vs, count, index, PerformWriter s, PerformReader s)"
| "dump_reads b s v = v"

fun dump_upto :: "dstmt option \<Rightarrow> shown \<Rightarrow> string" where
  "dump_upto (Some DTitle) v = []"
| "dump_upto (Some DRing) v = ''====== Kboard Status ======'' @ newline"
| "dump_upto (Some (DFor i)) (vs, rest) = dump_head vs"
| "dump_upto (Some DCount) (vs, rest) = dump_head vs"
| "dump_upto (Some DIndex) (vs, count, rest) = dump_head vs @ dump_counts count"
| "dump_upto (Some DTimes) (vs, count, index, rest) = dump_head vs @ dump_counts count @ dump_index index"
| "dump_upto (Some DSolution) (vs, count, index, w, r) = dump_head vs @ dump_counts count @ dump_index index @ dump_times w r"
| "dump_upto (Some DEnd) (vs, count, index, w, r) =
     dump_head vs @ dump_counts count @ dump_index index @ dump_times w r @ dump_solution"
| "dump_upto None (vs, count, index, w, r) = dump_text vs count index w r"

fun slots_read :: "dstmt option \<Rightarrow> nat" where
  "slots_read (Some DTitle) = 0"
| "slots_read (Some DRing) = 0"
| "slots_read (Some (DFor i)) = unat i"
| "slots_read _ = 5"

text \<open>The slots shown hold values of the set \<open>A\<close>, and the numbers are in range.\<close>

fun shown_ok :: "cint set \<Rightarrow> dstmt option \<Rightarrow> shown \<Rightarrow> bool" where
  "shown_ok A b (vs, count, index, w, r) \<longleftrightarrow> set vs \<subseteq> A \<and> length vs = slots_read b \<and> slots_read b \<le> 5 \<and>
     unat count \<le> 5 \<and> unat index < 5"

fun dumper_ok :: "cint set \<Rightarrow> dumper \<Rightarrow> bool" where
  "dumper_ok A (b, out) \<longleftrightarrow> (\<exists>v. shown_ok A b v \<and> out = dump_upto b v)"

lemma dumper_ok_mono: "dumper_ok A d \<Longrightarrow> A \<subseteq> B \<Longrightarrow> dumper_ok B d"
  by (cases d) fastforce

lemma dumper_ok_start: "dumper_ok A (Some DTitle, [])"
  unfolding dumper_ok.simps by (intro exI [of _ "([], 0, 0, 0, 0)"]) simp

lemma dump_stmt_for:
  assumes "length r = 5" and "length vs = unat i" and "i <s RING_BUFFER_SIZE" and "unat i \<le> 5"
  shows "arr_get r i = Inr (r ! unat i)" and "unat (i + 1) = Suc (unat i)" and "unat i < 5"
    and "dump_head (vs @ [v]) = dump_head vs @ ''index: '' @ quoted (fmt_d i) @ '', value: '' @ quoted (fmt_d v) @ newline"
proof -
  show i: "unat i < 5"
    using assms(3,4) by (simp add: sless_small)
  then show "arr_get r i = Inr (r ! unat i)" "unat (i + 1) = Suc (unat i)"
    using assms(1) by (simp_all add: arr_get_small unat_add_small)
  show "dump_head (vs @ [v]) = dump_head vs @ ''index: '' @ quoted (fmt_d i) @ '', value: '' @ quoted (fmt_d v) @ newline"
    using dump_head_snoc [of vs v] assms(2) i by (simp add: dump_line_def fmt_d_nonneg nonneg_iff_small)
qed

text \<open>One statement of a dump, on a ring whose slots hold values of \<open>A\<close>: no fault, and its line shows what it read.\<close>

lemma dump_stmt_reads:
  assumes ok: "shown_ok A (Some b) v" and A: "set (RingBuffer s) \<subseteq> A"
    and ring: "ring_inv 5 (RingBuffer s) (RingBufferCurrentIndex s) (RingBufferCount s)"
  shows "\<exists>b' line. dump_stmt b s = Inr (b', line) \<and> shown_ok A b' (dump_reads b s v) \<and>
    dump_upto b' (dump_reads b s v) = dump_upto (Some b) v @ line"
proof -
  obtain vs count index w r where v: "v = (vs, count, index, w, r)"
    by (cases v)
  have len: "length (RingBuffer s) = 5" "unat (RingBufferCurrentIndex s) < 5" "unat (RingBufferCount s) \<le> 5"
    using ring by (simp_all add: ring_inv_def)
  show ?thesis
  proof (cases b)
    case (DFor i)
    then have vs: "set vs \<subseteq> A" "length vs = unat i" "unat i \<le> 5"
      using ok v by simp_all
    show ?thesis
    proof (cases "i <s RING_BUFFER_SIZE")
      case True
      note line = dump_stmt_for [OF len(1) vs(2) True vs(3)]
      have "RingBuffer s ! unat i \<in> A"
        using A len(1) line(3) by (auto dest: nth_mem)
      then show ?thesis
        using DFor True ok v line by simp
    next
      case False
      then have "unat i = 5"
        using vs(3) by (simp add: sless_small)
      then show ?thesis
        using DFor False ok v by simp
    qed
  qed (use ok v len in \<open>auto simp: dump_head_def dump_counts_def dump_index_def dump_times_def dump_solution_def dump_text_def\<close>)
qed

lemma dump_stmt_ok:
  assumes "dumper_ok A (Some b, out)" and "set (RingBuffer s) \<subseteq> A"
    and "ring_inv 5 (RingBuffer s) (RingBufferCurrentIndex s) (RingBufferCount s)"
  shows "\<exists>b' line. dump_stmt b s = Inr (b', line) \<and> dumper_ok A (b', out @ line)"
proof -
  obtain v where "shown_ok A (Some b) v" "out = dump_upto (Some b) v"
    using assms(1) by auto
  then show ?thesis
    using dump_stmt_reads [OF _ assms(2,3), of b v] by (metis dumper_ok.simps)
qed

text \<open>The slots of the ring hold \<open>-1\<close> or entered items, at every moment and under any synchronisation.\<close>

definition slots_known :: "('p, 'y) conc \<Rightarrow> bool" where
  "slots_known c \<longleftrightarrow> set (RingBuffer (board c)) \<subseteq> insert (- 1) (entered c)"

lemma entered_act: "(\<And>x. acts c ! t \<noteq> Body (CInc x)) \<Longrightarrow> entered c \<subseteq> entered (c\<lparr>acts := (acts c)[t := a]\<rparr>)"
  by (auto simp: entered_def intro: in_set_update)

lemma body_slots:
  assumes "body_step b s = Inr (nxt, s')"
  shows "set (RingBuffer s') \<subseteq> insert (- 1) (set (RingBuffer s)) \<or>
    (\<exists>x. b = CPut x \<and> nxt = Inl (CInc x) \<and> set (RingBuffer s') \<subseteq> insert x (set (RingBuffer s)))"
  using assms by (cases b) (auto simp: rbind_Inr RING_BUFFER_INIT_VALUE_def dest!: arr_set_subset)

lemma sched_entered:
  assumes step: "conc_step P (Sched t) c = Some c'" and len: "length (acts c) = length (pos c)"
  shows "entered c \<subseteq> entered c'" and "slots_known c \<Longrightarrow> slots_known c'"
proof -
  have "entered c \<subseteq> entered c' \<and> (set (RingBuffer (board c')) \<subseteq> insert (- 1) (set (RingBuffer (board c))) \<or>
      (\<exists>x. x \<in> entered c' \<and> set (RingBuffer (board c')) \<subseteq> insert x (set (RingBuffer (board c)))))"
    using step
  proof (cases rule: conc_sched_cases)
    case (body b b' s)
    then have "\<forall>x. b \<noteq> CInc x"
      by auto
    then have "entered c \<subseteq> entered c'"
      using entered_act [of c t "Body b'"] body(2,4) by (simp add: entered_def)
    moreover have "b' = CInc x \<Longrightarrow> x \<in> entered c'" for x
      using body(1,4) len by (simp add: entered_def set_update_memI)
    ultimately show ?thesis
      using body_slots [OF body(3)] body(4) by auto
  next
    case (finish b r s)
    have "Body (CInc x) \<in> set (acts c) \<Longrightarrow> x \<in> entered c'" for x
      using finish(2-4) in_set_update [of "Body (CInc x)" "acts c" t] by (cases "b = CInc x") (auto simp: entered_def)
    moreover have "(Enq x, Accepted) \<in> set (clog c) \<Longrightarrow> x \<in> entered c'" for x
      using finish(4) by (auto simp: entered_def)
    ultimately have "entered c \<subseteq> entered c'"
      by (auto simp: entered_def [of c])
    then show ?thesis
      using body_slots [OF finish(3)] finish(4) by auto
  qed (use entered_act [of c t] in \<open>auto simp: entered_def\<close>)
  then show "entered c \<subseteq> entered c'" "slots_known c \<Longrightarrow> slots_known c'"
    by (auto simp: slots_known_def)
qed


lemma start_entered:
  assumes "conc_step P (Start t j) c = Some c'"
  shows "entered c \<subseteq> entered c'" and "slots_known c \<Longrightarrow> slots_known c'"
proof -
  have "acts c ! t = NoJob" "c' = c\<lparr>pos := (pos c)[t := enter_pos P (first_stmt j)], acts := (acts c)[t := Entering (first_stmt j)]\<rparr>"
    using assms by (auto split: if_splits)
  then have "entered c \<subseteq> entered c' \<and> board c' = board c"
    using entered_act [of c t "Entering (first_stmt j)"] by (simp add: entered_def)
  then show "entered c \<subseteq> entered c'" "slots_known c \<Longrightarrow> slots_known c'"
    by (auto simp: slots_known_def)
qed

text \<open>The invariant of the whole system.\<close>

fun dsys_ok :: "('p, 'y) sync_ops \<Rightarrow> 'y \<Rightarrow> nat \<Rightarrow> nat \<Rightarrow> ('p, 'y) conc \<times> dumper list \<Rightarrow> bool" where
  "dsys_ok P y n k (c, ds) \<longleftrightarrow> reach (conc_step P) (conc_start P y n) c \<and> slots_known c \<and> length ds = k \<and>
     list_all (dumper_ok (insert (- 1) (entered c))) ds"

context rw_exclusion
begin

lemma dsys_module:
  assumes ok: "dsys_ok P s0 n k (c, ds)" and c': "conc_step P x c = Some c'"
  shows "dsys_ok P s0 n k (c', ds)"
proof -
  have r: "reach (conc_step P) (conc_start P s0 n) c" and known: "slots_known c"
    using ok by simp_all
  have "entered c \<subseteq> entered c' \<and> slots_known c'"
    using start_entered [of P] sched_entered [of P] c' known conc_length [OF r] by (cases x) (auto simp del: conc_step.simps)
  then show ?thesis
    using ok reach.step [OF r c'] dumper_ok_mono [of "insert (- 1) (entered c)" _ "insert (- 1) (entered c')"]
    by (auto simp: list_all_iff simp del: dumper_ok.simps)
qed

lemma dsys_dump:
  assumes ok: "dsys_ok P s0 n k (c, ds)" and d: "d < k" "ds ! d = (Some b, out)"
  shows "\<exists>b' line. dump_stmt b (board c) = Inr (b', line) \<and> dsys_ok P s0 n k (c, ds[d := (b', out @ line)])"
proof -
  let ?A = "insert (- 1) (entered c)"
  have "dumper_ok ?A (Some b, out)" "set (RingBuffer (board c)) \<subseteq> ?A"
    using ok d by (auto simp: list_all_length slots_known_def simp del: dumper_ok.simps)
  then obtain b' line where b': "dump_stmt b (board c) = Inr (b', line)" "dumper_ok ?A (b', out @ line)"
    using dump_stmt_ok conc_ring [of c] ok by (metis dsys_ok.simps)
  then have "dsys_ok P s0 n k (c, ds[d := (b', out @ line)])"
    using ok by (auto simp: list_all_length nth_update simp del: dumper_ok.simps)
  with b' show ?thesis by blast
qed

lemma dsys_reach:
  assumes "reach (dsys_step P) (dsys_start P s0 n k) sys"
  shows "dsys_ok P s0 n k sys"
  using assms
proof (induction rule: reach_invariant)
  case start
  show ?case
    using dumper_ok_start by (auto simp: dsys_start_def reach.start slots_known_def conc_start_def RING_BUFFER_INIT_VALUE_def
      list_all_length simp del: dumper_ok.simps)
next
  case (step x sys sys')
  obtain c ds where sys: "sys = (c, ds)"
    by (cases sys)
  show ?case
  proof (cases x)
    case (Module y)
    then show ?thesis
      using step dsys_module [of k c ds y] by (auto simp: sys simp del: dsys_ok.simps)
  next
    case (Dump d)
    then obtain b out where "d < k" "ds ! d = (Some b, out)"
      using step by (auto simp: sys split: if_splits prod.splits option.splits)
    then show ?thesis
      using step Dump dsys_dump [of k c ds d b out] by (auto simp: sys simp del: dsys_ok.simps dump_stmt.simps split: if_splits)
  qed
qed

end

section \<open>Properties\<close>

text \<open>
  C16: Reading \<open>dump\<close> while the handlers run. \<open>KboardDumper_Show\<close> does not synchronise; still, for any number of
  threads and of readers of \<open>dump\<close>, under any solution that keeps writers exclusive (\<open>rw_exclusion\<close>: solutions 1
  and 2, not solution 3) and in any interleaving, the dumps do not disturb the handlers, a dump can always execute its
  next statement (its accesses stay in the ring), and a finished one has five lines of slots that show \<open>-1\<close> or an item
  that was accepted (or is stored and about to be counted), never a rejected one, a count between 0 and 5 and an index
  between 0 and 4.
\<close>

theorem dump_concurrent:
  assumes "rw_exclusion P y n" and "reach (dsys_step P) (dsys_start P y n k) (c, ds)"
  shows "reach (conc_step P) (conc_start P y n) c \<and> length ds = k \<and>
    (\<forall>d < k. \<forall>b out. ds ! d = (Some b, out) \<longrightarrow> (\<exists>ds'. dsys_step P (Dump d) (c, ds) = Some (c, ds'))) \<and>
    (\<forall>d < k. \<forall>out. ds ! d = (None, out) \<longrightarrow> (\<exists>vs count index w r. set vs \<subseteq> insert (- 1) (entered c) \<and>
      length vs = 5 \<and> unat count \<le> 5 \<and> unat index < 5 \<and> out = dump_text vs count index w r))"
proof -
  have ok: "dsys_ok P y n k (c, ds)"
    by (rule rw_exclusion.dsys_reach [OF assms])
  have "\<exists>ds'. dsys_step P (Dump d) (c, ds) = Some (c, ds')" if "d < k" "ds ! d = (Some b, out)" for d b out
    using rw_exclusion.dsys_dump [OF assms(1) ok that] ok that by auto
  moreover have "\<exists>vs count index w r. set vs \<subseteq> insert (- 1) (entered c) \<and> length vs = 5 \<and> unat count \<le> 5 \<and> unat index < 5 \<and>
      out = dump_text vs count index w r" if "d < k" "ds ! d = (None, out)" for d out
  proof -
    have "dumper_ok (insert (- 1) (entered c)) (None, out)"
      using ok that by (auto simp: list_all_length simp del: dumper_ok.simps)
    then show ?thesis
      by auto
  qed
  ultimately show ?thesis
    using ok by (simp only: dsys_ok.simps) blast
qed

text \<open>Thread 0 enqueues 7. The dump has listed the slots before the item is there, and prints the count after.\<close>

definition torn_dump :: "dchoice list" where
  "torn_dump = replicate 8 (Dump 0) @ Module (Start 0 (Copy 7)) # replicate 9 (Module (Sched 0)) @ replicate 5 (Dump 0)"

lemma fmt_digits: "fmt_d 0 = show_nat 0" "fmt_d 1 = show_nat (Suc 0)" "fmt_d 2 = show_nat (Suc (Suc 0))"
  "fmt_d 3 = show_nat (Suc (Suc (Suc 0)))" "fmt_d 4 = show_nat (Suc (Suc (Suc (Suc 0))))"
  by (simp_all add: fmt_d_def eval_nat_numeral)

lemma torn_dump_run:
  "\<exists>c. exec (dsys_step (sol1 counting_sem)) torn_dump
      (dsys_start (sol1 counting_sem) (InitializeSyncSolution1 counting_sem) 1 1) =
        Some (c, [(None, dump_text (replicate 5 (- 1)) 1 0 1 0)]) \<and> clog c = [(Enq 7, Accepted)] \<and>
    RingBuffer (board c) = [7, - 1, - 1, - 1, - 1] \<and> RingBufferCount (board c) = 1 \<and> RingBufferCurrentIndex (board c) = 0 \<and>
    PerformWriter (board c) = 1 \<and> PerformReader (board c) = 0"
  by (simp add: torn_dump_def dsys_start_def conc_eval eval_nat_numeral dump_text_def dump_head_def dump_line_def
    dump_counts_def dump_index_def dump_times_def dump_solution_def fmt_digits)

lemma dump_show:
  assumes "length (RingBuffer s) = 5"
  shows "KboardDumper_Show s = Inr (0, dump_text (RingBuffer s) (RingBufferCount s) (RingBufferCurrentIndex s)
    (PerformWriter s) (PerformReader s), s)"
proof -
  have "map (\<lambda>i. dump_line i (RingBuffer s ! i)) [unat (0 :: cint)..<5] = map2 dump_line [0..<length (RingBuffer s)] (RingBuffer s)"
    by (rule nth_equalityI) (simp_all add: assms)
  then show ?thesis
    using dump_loop_all [OF assms, of 0]
    by (simp add: KboardDumper_Show_def dump_text_def dump_head_def dump_counts_def dump_index_def dump_times_def dump_solution_def)
qed

text \<open>A well-formed kboard that counts one item does not show five empty slots.\<close>

lemma dump_not_torn:
  assumes "km_wf s"
  shows "KboardDumper_Show s \<noteq> Inr (0, dump_text (replicate 5 (- 1)) 1 0 w r, s')"
proof
  assume d: "KboardDumper_Show s = Inr (0, dump_text (replicate 5 (- 1)) 1 0 w r, s')"
  have "length (RingBuffer s) = 5"
    using assms by (simp add: km_wf_def ring_inv_def)
  then have "RingBuffer s = replicate 5 (- 1)" "RingBufferCount s = 1" "RingBufferCurrentIndex s = 0"
    using d by (auto simp: dump_show dump_text_inj)
  then have "km_contents s = [- 1]"
    by (simp add: km_contents_def ring_contents_def rslice_def)
  then show False
    using assms by (simp add: km_wf_def word_sless_alt)
qed

text \<open>
  C38: A dump may show a kboard that never existed. On an empty kboard a dump executes eight statements, among them those that
  print the five slots; then a thread enqueues 7, which is accepted; then the dump goes on to its end. Its text is five
  empty slots (-1), a count of 1, the index 0 and one use by a writer. A dump before the enqueue prints the count 0, a dump after
  it prints 7 in the first slot, and no well-formed kboard has a dump with five empty slots, the count 1 and the index 0.
\<close>

theorem dump_torn:
  "\<exists>c. exec (dsys_step (sol1 counting_sem))
      (replicate 8 (Dump 0) @ Module (Start 0 (Copy 7)) # replicate 9 (Module (Sched 0)) @ replicate 5 (Dump 0))
      (dsys_start (sol1 counting_sem) (InitializeSyncSolution1 counting_sem) 1 1) =
        Some (c, [(None, dump_text [- 1, - 1, - 1, - 1, - 1] 1 0 1 0)]) \<and>
    clog c = [(Enq 7, Accepted)] \<and>
    KboardDumper_Show (board (conc_start (sol1 counting_sem) (InitializeSyncSolution1 counting_sem) 1)) =
      Inr (0, dump_text [- 1, - 1, - 1, - 1, - 1] 0 0 0 0, board (conc_start (sol1 counting_sem) (InitializeSyncSolution1 counting_sem) 1)) \<and>
    KboardDumper_Show (board c) = Inr (0, dump_text [7, - 1, - 1, - 1, - 1] 1 0 1 0, board c) \<and>
    (\<nexists>(s :: nat sync1 kboard) w r s'. km_wf s \<and> KboardDumper_Show s = Inr (0, dump_text [- 1, - 1, - 1, - 1, - 1] 1 0 w r, s'))"
proof -
  have five: "[- 1, - 1, - 1, - 1, - 1 :: cint] = replicate 5 (- 1)"
    by (simp add: eval_nat_numeral)
  obtain c where c: "exec (dsys_step (sol1 counting_sem)) torn_dump (dsys_start (sol1 counting_sem) (InitializeSyncSolution1 counting_sem) 1 1) =
      Some (c, [(None, dump_text (replicate 5 (- 1)) 1 0 1 0)])" "clog c = [(Enq 7, Accepted)]"
    and d: "KboardDumper_Show (board c) = Inr (0, dump_text [7, - 1, - 1, - 1, - 1] 1 0 1 0, board c)"
    using torn_dump_run by (auto simp: dump_show)
  have "KboardDumper_Show (board (conc_start (sol1 counting_sem) (InitializeSyncSolution1 counting_sem) 1)) =
      Inr (0, dump_text (replicate 5 (- 1)) 0 0 0 0, board (conc_start (sol1 counting_sem) (InitializeSyncSolution1 counting_sem) 1))"
    by (simp add: dump_show conc_start_def RING_BUFFER_INIT_VALUE_def)
  then show ?thesis
    using c(2) d by (intro exI [of _ c] conjI c(1) [unfolded torn_dump_def, folded five]) (auto simp: five dump_not_torn)
qed

theorem dump_concurrent_witness:
  "\<exists>c. reach (dsys_step (sol1 counting_sem)) (dsys_start (sol1 counting_sem) (InitializeSyncSolution1 counting_sem) 1 1)
      (c, [(None, dump_text (replicate 5 (- 1)) 1 0 1 0)]) \<and>
    reach (conc_step (sol1 counting_sem)) (conc_start (sol1 counting_sem) (InitializeSyncSolution1 counting_sem) 1) c"
proof -
  obtain c where r: "reach (dsys_step (sol1 counting_sem)) (dsys_start (sol1 counting_sem) (InitializeSyncSolution1 counting_sem) 1 1)
      (c, [(None, dump_text (replicate 5 (- 1)) 1 0 1 0)])"
    using torn_dump_run by (blast intro: exec_reach)
  have "rw_exclusion (sol1 counting_sem) (InitializeSyncSolution1 counting_sem) 1"
    by (rule sol1_exclusion [OF counting.kernel_semaphore_axioms]) simp
  note dump_concurrent [OF this r, THEN conjunct1]
  with r show ?thesis
    by (intro exI conjI)
qed

end
