(* ===== verification/Kboard_Conc3.thy ===== *)
theory Kboard_Conc3
  imports Kboard_Conc Sync3
begin

text \<open>
  The handlers of \<open>lab2/KboardModule.c\<close> over solution 3. It lacks the contract \<open>rw_exclusion\<close> the results of \<open>Kboard_Conc\<close>
  rest on, and they fail with it: one run of two writing and two reading threads, found by exploring the statements
  of \<open>step3\<close> and executed here by \<open>conc_step\<close>, lets two dequeues in together, delivers an item twice, leaves
  \<open>RingBufferCount\<close> at \<open>-1\<close>, and makes the next enqueue write in front of the ring.
\<close>

section \<open>A run of four threads\<close>

text \<open>All threads outside, everybody's synchronisation finished, the kboard as given.\<close>

definition four3 ::
    "cint list \<Rightarrow> cint \<Rightarrow> cint \<Rightarrow> cint \<Rightarrow> cint \<Rightarrow> (cint qop \<times> cint qres) list \<Rightarrow> (pc3, nat sync3) conc" where
  "four3 ring count index writers readers log =
     \<lparr>board = \<lparr>Sync = InitializeSyncSolution3 counting_sem, RingBuffer = ring, RingBufferCount = count,
        RingBufferCurrentIndex = index, PerformWriter = writers, PerformReader = readers\<rparr>,
      pos = replicate 4 Idle3, acts = replicate 4 NoJob, clog = log\<rparr>"

text \<open>Thread 0 enqueues and dequeues, alone: the queue is empty again, its start has moved by one.\<close>

definition visit3 :: "choice list" where
  "visit3 = Start 0 (Copy 7) # replicate 16 (Sched 0) @ Start 0 Paste # replicate 18 (Sched 0)"

text \<open>
  Writer 0 enqueues; reader 2 sleeps meanwhile, is permitted, and does not count itself yet. Reader 3 enters, writers
  0 and 1 come to dequeue and sleep, reader 3 leaves as the last one and permits writer 0. Now reader 2 counts itself,
  leaves as the last one again, and permits writer 1: both writers are inside.
\<close>

definition overlap3 :: "choice list" where
  "overlap3 = Start 0 (Copy 7) # replicate 4 (Sched 0) @ Start 2 (Read 0) # replicate 4 (Sched 2) @ replicate 14 (Sched 0) @
     Sched 2 # Start 3 (Read 0) # replicate 4 (Sched 3) @ Start 0 Paste # replicate 4 (Sched 0) @ Start 1 Paste # replicate 4 (Sched 1) @
     replicate 10 (Sched 3) @ replicate 5 (Sched 0) @ replicate 14 (Sched 2) @ replicate 5 (Sched 1)"

text \<open>Both take the item before either has cleared its slot, and finish.\<close>

definition both_take3 :: "choice list" where
  "both_take3 = replicate 5 (Sched 0) @ replicate 5 (Sched 1) @ replicate 3 (Sched 0) @ replicate 3 (Sched 1) @
     replicate 6 (Sched 0) @ replicate 6 (Sched 1)"

lemmas conc_eval3 = four3_def enter_pos_def in_pos_def leave_pos_def sync_stmt_def sem3_defs writer_waits3_def reader_waits3_def
  InitializeSyncSolution3_def counting_sem_def RING_BUFFER_SIZE_def RING_BUFFER_INIT_VALUE_def c_eval eval_nat_numeral

lemma four3_start: "conc_start (sol3 counting_sem) (InitializeSyncSolution3 counting_sem) 4 = four3 (replicate 5 (- 1)) 0 0 0 0 []"
  by (simp add: conc_start_def four3_def RING_BUFFER_INIT_VALUE_def)

lemma visit3_run:
  "exec (conc_step (sol3 counting_sem)) visit3 (four3 (replicate 5 (- 1)) 0 0 p r l) =
     Some (four3 (replicate 5 (- 1)) 0 1 (p + 2) r (l @ [(Enq 7, Accepted), (Deq, Got 7)]))"
  "exec (conc_step (sol3 counting_sem)) visit3 (four3 (replicate 5 (- 1)) 0 1 p r l) =
     Some (four3 (replicate 5 (- 1)) 0 2 (p + 2) r (l @ [(Enq 7, Accepted), (Deq, Got 7)]))"
  "exec (conc_step (sol3 counting_sem)) visit3 (four3 (replicate 5 (- 1)) 0 2 p r l) =
     Some (four3 (replicate 5 (- 1)) 0 3 (p + 2) r (l @ [(Enq 7, Accepted), (Deq, Got 7)]))"
  by (simp_all add: visit3_def conc_eval3)

lemma overlap3_run:
  "exec (conc_step (sol3 counting_sem)) (overlap3 @ both_take3) (four3 (replicate 5 (- 1)) 0 3 p r l) =
     Some (four3 (replicate 5 (- 1)) (- 1) 0 (p + 3) (r + 2) (l @ [(Enq 7, Accepted), (Deq, Got 7), (Deq, Got 7)]))"
  by (simp add: overlap3_def both_take3_def conc_eval3)

lemma last3_run:
  "\<exists>c. exec (conc_step (sol3 counting_sem)) (Start 0 (Copy 9) # replicate 8 (Sched 0)) (four3 (replicate 5 (- 1)) (- 1) 0 p r l) = Some c \<and>
     acts c ! 0 = Body (CPut 9) \<and> body_step (CPut 9) (board c) = Inl OutOfBounds"
  by (simp add: conc_eval3)

section \<open>Properties\<close>

text \<open>
  C8: Over solution 3 the module is neither linearizable nor safe. With a working semaphore and four threads there is
  an execution after which all calls have returned, four enqueues of 7 were accepted and five dequeues delivered 7,
  so that the results are those of no sequential queue, and \<open>RingBufferCount\<close> is \<open>-1\<close>; and in its continuation by one
  more enqueue the assignment to \<open>RingBuffer[(RingBufferCurrentIndex + RingBufferCount) % RING_BUFFER_SIZE]\<close> is outside
  the array.
\<close>

theorem sol3_kboard_broken:
  "\<exists>c c'. reach (conc_step (sol3 counting_sem)) (conc_start (sol3 counting_sem) (InitializeSyncSolution3 counting_sem) 4) c \<and>
    acts c = replicate 4 NoJob \<and> RingBufferCount (board c) = - 1 \<and>
    filter (\<lambda>r. r \<noteq> Got 7) (map snd (clog c)) = replicate 4 Accepted \<and> filter (\<lambda>r. r = Got 7) (map snd (clog c)) = replicate 5 (Got 7) \<and>
    (\<nexists>q. run_ops (bq_step 5) (map fst (clog c)) [] = (map snd (clog c), q)) \<and>
    reach (conc_step (sol3 counting_sem)) c c' \<and> acts c' ! 0 = Body (CPut 9) \<and> body_step (CPut 9) (board c') = Inl OutOfBounds"
proof -
  let ?l = "[(Enq 7, Accepted), (Deq, Got 7)]"
  let ?log = "?l @ ?l @ ?l @ [(Enq 7, Accepted), (Deq, Got 7), (Deq, Got 7)]"
  let ?c = "four3 (replicate 5 (- 1)) (- 1) 0 9 2 ?log"
  obtain c' where c': "exec (conc_step (sol3 counting_sem)) (Start 0 (Copy 9) # replicate 8 (Sched 0)) ?c = Some c'"
    "acts c' ! 0 = Body (CPut 9)" "body_step (CPut 9) (board c') = Inl OutOfBounds"
    using last3_run by blast
  have "exec (conc_step (sol3 counting_sem)) (visit3 @ visit3 @ visit3 @ overlap3 @ both_take3)
      (conc_start (sol3 counting_sem) (InitializeSyncSolution3 counting_sem) 4) = Some ?c"
    by (simp add: four3_start exec_append [of _ visit3] visit3_run overlap3_run)
  then have r: "reach (conc_step (sol3 counting_sem)) (conc_start (sol3 counting_sem) (InitializeSyncSolution3 counting_sem) 4) ?c"
    by (rule exec_reach)
  show ?thesis
    by (intro exI [of _ ?c] exI [of _ c'] conjI r exec_reach [OF c'(1)] c'(2,3)) (simp_all add: four3_def eval_nat_numeral)
qed

end
