(* ===== verification/Sync3_Progress.thy ===== *)
theory Sync3_Progress
  imports Sync3
begin

text \<open>
  Solution 3 does not deadlock, although it does not exclude (\<open>sync3_exclusion_fails\<close>). The invariant \<open>linv3\<close> adds to
  the bookkeeping of \<open>Sync3\<close> where the permits are: when nobody is inside and nobody is in the middle of handing
  permits over, a waiting thread has a permit to come, in its semaphore or already fetched (\<open>writers_served3\<close>,
  \<open>readers_served3\<close>), and readers that sleep while no writer is about have one each (\<open>sleepers_served3\<close>). \<open>knows3\<close> is what
  the owner of the mutex has learnt from the tests before its position. Each part is preserved by each kind of
  statement: one outside the mutex, one that begins or continues a hand-over, one that ends it, and the rest.
\<close>

section \<open>Permits\<close>

text \<open>A thread that has fetched its permit and still counts as waiting.\<close>

definition fetched_writer3 :: "pc3 \<Rightarrow> bool" where
  "fetched_writer3 p \<longleftrightarrow> p = EW3_down_Mutex_again \<or> p = EW3_dec_waiting"

definition fetched_reader3 :: "pc3 \<Rightarrow> bool" where
  "fetched_reader3 p \<longleftrightarrow> p = ER3_down_Mutex_again \<or> p = ER3_dec_waiting"

text \<open>Positions between a change of a counter and the change of a counter or the hand-over that follows it.\<close>

fun changing3 :: "pc3 \<Rightarrow> bool" where
  "changing3 EW3_inc = True"
| "changing3 ER3_inc = True"
| "changing3 LW3_if = True"
| "changing3 (LW3_for i) = True"
| "changing3 (LW3_up_Reader i) = True"
| "changing3 LW3_else_if = True"
| "changing3 LW3_up_Writer = True"
| "changing3 LR3_if = True"
| "changing3 LR3_up_Writer = True"
| "changing3 _ = False"

fun handing3 :: "pc3 \<Rightarrow> bool" where
  "handing3 EW3_inc = True"
| "handing3 LW3_if = True"
| "handing3 (LW3_for i) = True"
| "handing3 (LW3_up_Reader i) = True"
| "handing3 _ = False"

text \<open>What the owner of the mutex knows at its position.\<close>

fun knows3 :: "('sm \<Rightarrow> nat) \<Rightarrow> 'sm sync3 \<Rightarrow> pc3 list \<Rightarrow> pc3 \<Rightarrow> bool" where
  "knows3 val s ps EW3_inc_waiting \<longleftrightarrow>
     0 < cnt writing3 ps + cnt reading3 ps + cnt waiting_writer3 ps + cnt waiting_reader3 ps"
| "knows3 val s ps ER3_inc_waiting \<longleftrightarrow> 0 < cnt writing3 ps + cnt waiting_writer3 ps"
| "knows3 val s ps ER3_up_Mutex_wait \<longleftrightarrow> 0 < cnt writing3 ps + cnt waiting_writer3 ps"
| "knows3 val s ps (LW3_for i) \<longleftrightarrow>
     unat i \<le> val (SemaphoreReader3 s) + cnt fetched_reader3 ps \<and> 0 < cnt waiting_reader3 ps \<and> unat i \<le> cnt waiting_reader3 ps"
| "knows3 val s ps (LW3_up_Reader i) \<longleftrightarrow>
     unat i \<le> val (SemaphoreReader3 s) + cnt fetched_reader3 ps \<and> unat i < cnt waiting_reader3 ps"
| "knows3 val s ps LW3_else_if \<longleftrightarrow> cnt waiting_reader3 ps = 0"
| "knows3 val s ps LW3_up_Writer \<longleftrightarrow> cnt waiting_reader3 ps = 0"
| "knows3 val s ps LR3_up_Writer \<longleftrightarrow> 0 < cnt waiting_writer3 ps"
| "knows3 val s ps p \<longleftrightarrow> True"

text \<open>
  If nobody is inside, waiting writers have a permit on its way when no reader waits, and waiting readers have one,
  or a writer before them has. If no writer is inside or waits, there is a permit for every reader asleep.
\<close>

definition quiet3 :: "pc3 list \<Rightarrow> bool" where
  "quiet3 ps \<longleftrightarrow> cnt changing3 ps = 0 \<and> cnt writing3 ps = 0 \<and> cnt reading3 ps = 0"

definition writers_served3 :: "('sm \<Rightarrow> nat) \<Rightarrow> 'sm sync3 \<Rightarrow> pc3 list \<Rightarrow> bool" where
  "writers_served3 val s ps \<longleftrightarrow> (quiet3 ps \<longrightarrow> cnt waiting_reader3 ps = 0 \<longrightarrow> 0 < cnt waiting_writer3 ps \<longrightarrow>
     0 < val (SemaphoreWriter3 s) + cnt fetched_writer3 ps)"

definition readers_served3 :: "('sm \<Rightarrow> nat) \<Rightarrow> 'sm sync3 \<Rightarrow> pc3 list \<Rightarrow> bool" where
  "readers_served3 val s ps \<longleftrightarrow> (quiet3 ps \<longrightarrow> 0 < cnt waiting_reader3 ps \<longrightarrow>
     0 < val (SemaphoreReader3 s) + cnt fetched_reader3 ps + cnt fetched_writer3 ps \<or>
     0 < val (SemaphoreWriter3 s) \<and> 0 < occ ps EW3_down_Writer)"

definition sleepers_served3 :: "('sm \<Rightarrow> nat) \<Rightarrow> 'sm sync3 \<Rightarrow> pc3 list \<Rightarrow> bool" where
  "sleepers_served3 val s ps \<longleftrightarrow> (cnt handing3 ps = 0 \<longrightarrow> cnt writing3 ps = 0 \<longrightarrow> cnt waiting_writer3 ps = 0 \<longrightarrow>
     occ ps ER3_down_Reader \<le> val (SemaphoreReader3 s))"

definition linv3 :: "('sm \<Rightarrow> nat) \<Rightarrow> 'sm sync3 \<Rightarrow> pc3 list \<Rightarrow> bool" where
  "linv3 val s ps \<longleftrightarrow> inv3 val s ps \<and> (\<forall>t < length ps. knows3 val s ps (ps ! t)) \<and>
     writers_served3 val s ps \<and> readers_served3 val s ps \<and> sleepers_served3 val s ps"

lemmas served3 = writers_served3_def readers_served3_def sleepers_served3_def quiet3_def

lemma waiting_writer3_split:
  "cnt waiting_writer3 ps = occ ps EW3_up_Mutex_wait + occ ps EW3_down_Writer + cnt fetched_writer3 ps"
proof (induction ps)
  case (Cons p ps)
  then show ?case
    by (cases p) (simp_all add: occ_Cons fetched_writer3_def)
qed (simp add: occ_def)

lemma waiting_reader3_split:
  "cnt waiting_reader3 ps = occ ps ER3_up_Mutex_wait + occ ps ER3_down_Reader + cnt fetched_reader3 ps"
proof (induction ps)
  case (Cons p ps)
  then show ?case
    by (cases p) (simp_all add: occ_Cons fetched_reader3_def)
qed (simp add: occ_def)

lemma knows3_owner: "\<not> has_mutex3 p \<Longrightarrow> knows3 val s ps p"
  by (cases p) simp_all

context kernel_semaphore
begin

text \<open>A step of a thread without the mutex changes nothing of what its owner knows.\<close>

lemma knows3_other:
  assumes inv: "inv3 val s ps" and u: "u < length ps" "u \<noteq> t" "knows3 val s ps (ps ! u)"
    and t: "t < length ps" "ps ! t = p" and step: "step3 K p s = Some (q, s')"
  shows "knows3 val s' (ps[t := q]) (ps ! u)"
proof (cases "has_mutex3 (ps ! u)")
  case True
  then have m: "val (SemaphoreMutex3 s) = 0" "\<not> has_mutex3 p"
    using inv3_owner [OF inv u(1)] t u(2) by auto
  have "cnt writing3 (ps[t := q]) = cnt writing3 ps" "cnt reading3 (ps[t := q]) = cnt reading3 ps"
    "cnt waiting_writer3 (ps[t := q]) = cnt waiting_writer3 ps" "cnt waiting_reader3 (ps[t := q]) = cnt waiting_reader3 ps"
    using m step t by (intro cnt_move(1) [OF t(1)]; cases p; auto simp: sem3_defs dest!: down_Some)+
  moreover have "val (SemaphoreReader3 s') + cnt fetched_reader3 (ps[t := q]) = val (SemaphoreReader3 s) + cnt fetched_reader3 ps"
    using m step t cnt_shift [OF t(1), of fetched_reader3 q]
    by (cases p) (auto simp: sem3_defs fetched_reader3_def dest!: down_Some)
  ultimately show ?thesis
    using u(3) by (cases "ps ! u") simp_all
qed (rule knows3_owner)

lemma knows3_next:
  assumes inv: "inv3 val s ps" and k: "knows3 val s ps p"
    and t: "t < length ps" "ps ! t = p" and step: "step3 K p s = Some (q, s')"
  shows "knows3 val s' (ps[t := q]) q"
proof -
  have small: "unat (ReaderWaitingCount3 s) = cnt waiting_reader3 ps" "cnt waiting_reader3 ps < 2147483648"
    using inv cnt_le [of waiting_reader3 ps] by (auto simp: inv3_def tally_def)
  show ?thesis
  proof (cases "\<exists>i. p = LW3_for i \<or> p = LW3_up_Reader i \<or> p = LW3_if")
    case True
    then show ?thesis
      using step k t(2) inv3_counts(4) [OF inv] small cnt_shift [OF t(1), of waiting_reader3 q] cnt_shift [OF t(1), of fetched_reader3 q]
      by (auto simp: sem3_defs fetched_reader3_def cint_simps)
  next
    case False
    then show ?thesis
      using step k t(2) inv3_counts [OF inv] cnt_shift [OF t(1), of writing3 q] cnt_shift [OF t(1), of reading3 q]
        cnt_shift [OF t(1), of waiting_writer3 q] cnt_shift [OF t(1), of waiting_reader3 q]
      by (cases p) (auto simp: sem3_defs writer_waits3_def reader_waits3_def split: if_splits)
  qed
qed


text \<open>While a thread owns the mutex no other thread is between two changes.\<close>

lemma changing3_owner: "changing3 p \<Longrightarrow> has_mutex3 p" "handing3 p \<Longrightarrow> has_mutex3 p"
  by (cases p; simp)+

lemma inv3_only:
  assumes inv: "inv3 val s ps" and t: "t < length ps" "has_mutex3 (ps ! t)"
  shows "cnt changing3 ps = of_bool (changing3 (ps ! t))" "cnt handing3 ps = of_bool (handing3 (ps ! t))"
    "occ ps ER3_up_Mutex_wait = of_bool (ps ! t = ER3_up_Mutex_wait)" "occ ps EW3_up_Mutex_wait = of_bool (ps ! t = EW3_up_Mutex_wait)"
proof -
  have one: "cnt P ps = of_bool (P (ps ! t))" if "\<And>p. P p \<Longrightarrow> has_mutex3 p" for P
  proof -
    have "cnt has_mutex3 ps = 1"
      using inv inv3_owner(1) [OF inv t] by (simp add: inv3_def lock_tally_def)
    then have "cnt P ps \<le> 1"
      using cnt_mono [of P has_mutex3 ps] that by simp
    moreover have "0 < cnt P ps \<longleftrightarrow> P (ps ! t)"
      unfolding cnt_pos_iff using inv3_owner(2) [OF inv t] t(1) that by blast
    ultimately show ?thesis by (cases "P (ps ! t)") simp_all
  qed
  show "cnt changing3 ps = of_bool (changing3 (ps ! t))" "cnt handing3 ps = of_bool (handing3 (ps ! t))"
    by (intro one changing3_owner; assumption)+
  show "occ ps ER3_up_Mutex_wait = of_bool (ps ! t = ER3_up_Mutex_wait)"
    using one [of "(=) ER3_up_Mutex_wait"] by (auto simp: occ_def eq_commute)
  show "occ ps EW3_up_Mutex_wait = of_bool (ps ! t = EW3_up_Mutex_wait)"
    using one [of "(=) EW3_up_Mutex_wait"] by (auto simp: occ_def eq_commute)
qed

lemma linv3_writers:
  assumes inv: "linv3 val s ps" and t: "t < length ps" "ps ! t = p" and step: "step3 K p s = Some (q, s')"
  shows "writers_served3 val s' (ps[t := q])"
proof -
  have i: "inv3 val s ps" and k: "knows3 val s ps p" and J: "writers_served3 val s ps"
    using inv t by (auto simp: linv3_def)
  note c = cnt_shift [OF t(1), of writing3 q] cnt_shift [OF t(1), of reading3 q] cnt_shift [OF t(1), of waiting_writer3 q]
    cnt_shift [OF t(1), of waiting_reader3 q] cnt_shift [OF t(1), of fetched_writer3 q] cnt_shift [OF t(1), of changing3 q]
  note defs = sem3_defs writers_served3_def quiet3_def fetched_writer3_def
  consider "\<not> has_mutex3 p" | "changing3 q" | "changing3 p" "\<not> changing3 q" | "has_mutex3 p" "\<not> changing3 p" "\<not> changing3 q"
    by blast
  then show ?thesis
  proof cases
    case 1
    then show ?thesis
      using step t(2) J c by (cases p) (auto simp: defs simp del: occ_arith dest!: down_Some)
  next
    case 2
    then have "0 < cnt changing3 (ps[t := q])"
      using cnt_posI [of t "ps[t := q]" changing3] t(1) by simp
    then show ?thesis
      by (simp add: writers_served3_def quiet3_def)
  next
    case 3
    have "unat (ReaderCount3 s) = cnt reading3 ps"
      using i by (simp add: inv3_def tally_def)
    with 3 show ?thesis
      using step t(2) c(1-4) k inv3_counts(2) [OF i] by (cases p) (auto simp: defs eq_zero_unat split: if_splits)
  next
    case 4
    then have "cnt changing3 ps = 0"
      using inv3_only(1) [OF i t(1)] t(2) by simp
    with 4 show ?thesis
      using step t(2) J c(1-5) k by (cases p) (auto simp: defs simp del: occ_arith split: if_splits)
  qed
qed

text \<open>
  For the readers, first the statements between two changes: a leaving writer has given a permit to each of them, or
  none waits; a leaving reader gives one to a writer before them, or no writer waits and they have theirs.
\<close>

lemma linv3_readers_changing:
  assumes inv: "linv3 val s ps" and t: "t < length ps" "ps ! t = p" and step: "step3 K p s = Some (q, s')"
    and p: "changing3 p" and q: "\<not> changing3 q"
  shows "readers_served3 val s' (ps[t := q])"
proof -
  have i: "inv3 val s ps" and k: "knows3 val s ps p" and H: "sleepers_served3 val s ps"
    using inv t by (auto simp: linv3_def)
  note c = cnt_shift [OF t(1), of writing3 q] cnt_shift [OF t(1), of reading3 q] cnt_shift [OF t(1), of waiting_reader3 q]
    cnt_shift [OF t(1), of fetched_reader3 q] cnt_shift [OF t(1), of fetched_writer3 q]
    cnt_shift [OF t(1), of "(=) EW3_down_Writer" q, folded occ_def]
  note only = inv3_only [OF i t(1), unfolded t(2), OF changing3_owner(1) [OF p]]
  note defs = readers_served3_def quiet3_def fetched_reader3_def fetched_writer3_def
  have small: "unat (ReaderWaitingCount3 s) = cnt waiting_reader3 ps" "cnt waiting_reader3 ps < 2147483648"
    "unat (ReaderCount3 s) = cnt reading3 ps"
    using i cnt_le [of waiting_reader3 ps] by (auto simp: inv3_def tally_def)
  consider "p = LR3_up_Writer" | "p = LR3_if" | "p \<noteq> LR3_up_Writer" "p \<noteq> LR3_if"
    by blast
  then show ?thesis
  proof cases
    case 1
    then have "0 < occ ps EW3_down_Writer + cnt fetched_writer3 ps" "q = LR3_up_Mutex" "0 < val (SemaphoreWriter3 s')"
      using k only(4) waiting_writer3_split [of ps] step by (auto simp: sem3_defs)
    then show ?thesis
      using 1 t(2) c(5,6) by (auto simp: defs)
  next
    case 2
    then have go: "q = LR3_up_Mutex" "s' = s" "ReaderCount3 s = 0 \<longrightarrow> cnt waiting_writer3 ps = 0"
      using step q inv3_counts(2) [OF i] by (auto split: if_splits)
    have "cnt writing3 ps = 0 \<longrightarrow> cnt reading3 ps = 0 \<longrightarrow> occ ps ER3_down_Reader \<le> val (SemaphoreReader3 s)"
      using H go(3) only(2) 2 small(3) by (auto simp: sleepers_served3_def eq_zero_unat)
    then show ?thesis
      using 2 go(1,2) t(2) c(1-4) only(3) waiting_reader3_split [of ps] by (auto simp: defs)
  next
    case 3
    then show ?thesis
      using step t(2) c(1-4) k small(1,2) p q by (cases p) (auto simp: defs sem3_defs cint_simps split: if_splits)
  qed
qed

text \<open>A reader that has to wait: the writer it waits for is inside, or has its permit.\<close>

lemma linv3_readers_waits:
  assumes inv: "linv3 val s ps" and t: "t < length ps" "ps ! t = ER3_inc_waiting" and step: "step3 K ER3_inc_waiting s = Some (q, s')"
  shows "readers_served3 val s' (ps[t := q])"
proof -
  have i: "inv3 val s ps" and k: "knows3 val s ps ER3_inc_waiting" and J: "readers_served3 val s ps" "writers_served3 val s ps"
    using inv t by (force simp: linv3_def)+
  note c = cnt_shift [OF t(1), of writing3 q] cnt_shift [OF t(1), of reading3 q] cnt_shift [OF t(1), of fetched_reader3 q]
    cnt_shift [OF t(1), of fetched_writer3 q] cnt_shift [OF t(1), of changing3 q]
    cnt_shift [OF t(1), of "(=) EW3_down_Writer" q, folded occ_def]
  note only = inv3_only [OF i t(1), unfolded t(2), simplified]
  have "0 < cnt waiting_writer3 ps \<or> 0 < cnt writing3 ps"
    "cnt fetched_writer3 ps = 0 \<longrightarrow> cnt waiting_writer3 ps = occ ps EW3_down_Writer"
    using k only(4) waiting_writer3_split [of ps] by auto
  then show ?thesis
    using step t(2) J c only(1)
    by (auto simp: sem3_defs readers_served3_def writers_served3_def quiet3_def fetched_reader3_def fetched_writer3_def)
qed

lemma linv3_readers:
  assumes inv: "linv3 val s ps" and t: "t < length ps" "ps ! t = p" and step: "step3 K p s = Some (q, s')"
  shows "readers_served3 val s' (ps[t := q])"
proof -
  have i: "inv3 val s ps" and J: "readers_served3 val s ps"
    using inv by (auto simp: linv3_def)
  note c = cnt_shift [OF t(1), of writing3 q] cnt_shift [OF t(1), of reading3 q] cnt_shift [OF t(1), of waiting_writer3 q]
    cnt_shift [OF t(1), of waiting_reader3 q] cnt_shift [OF t(1), of fetched_reader3 q] cnt_shift [OF t(1), of fetched_writer3 q]
    cnt_shift [OF t(1), of changing3 q] cnt_shift [OF t(1), of "(=) EW3_down_Writer" q, folded occ_def]
  note defs = sem3_defs readers_served3_def quiet3_def fetched_reader3_def fetched_writer3_def
  consider "\<not> has_mutex3 p" | "changing3 p" "changing3 q" | "changing3 p" "\<not> changing3 q"
    | "p = ER3_inc_waiting" | "has_mutex3 p" "\<not> changing3 p" "p \<noteq> ER3_inc_waiting"
    by blast
  then show ?thesis
  proof cases
    case 1
    then show ?thesis
      using step t(2) J c by (cases p) (auto simp: defs simp del: occ_arith dest!: down_Some)
  next
    case 2
    then have "0 < cnt changing3 (ps[t := q])"
      using c(7) cnt_posI [OF t(1), of changing3] t(2) by simp
    then show ?thesis
      by (simp add: readers_served3_def quiet3_def)
  next
    case 5
    then have "cnt changing3 ps = 0"
      using inv3_only(1) [OF i t(1)] t(2) by simp
    then show ?thesis
      using 5 step t(2) J c by (cases p) (auto simp: defs simp del: occ_arith split: if_splits dest!: down_Some)
  qed (use linv3_readers_changing [OF inv t step] linv3_readers_waits [OF inv t(1)] t(2) step in blast)+
qed

lemma linv3_sleepers:
  assumes inv: "linv3 val s ps" and t: "t < length ps" "ps ! t = p" and step: "step3 K p s = Some (q, s')"
  shows "sleepers_served3 val s' (ps[t := q])"
proof -
  have i: "inv3 val s ps" and k: "knows3 val s ps p"
    and H: "sleepers_served3 val s ps"
    using inv t by (auto simp: linv3_def)
  have small: "unat (ReaderWaitingCount3 s) = cnt waiting_reader3 ps" "cnt waiting_reader3 ps < 2147483648"
    using i cnt_le [of waiting_reader3 ps] by (auto simp: inv3_def tally_def)
  note c = cnt_shift [OF t(1), of writing3 q] cnt_shift [OF t(1), of waiting_writer3 q] cnt_shift [OF t(1), of handing3 q]
    cnt_shift [OF t(1), of "(=) ER3_down_Reader" q, folded occ_def]
  note defs = sem3_defs sleepers_served3_def
  consider "\<not> has_mutex3 p" | "handing3 q" | "handing3 p" "\<not> handing3 q" | "has_mutex3 p" "\<not> handing3 p" "\<not> handing3 q"
    by blast
  then show ?thesis
  proof cases
    case 1
    then show ?thesis
      using step t(2) H c by (cases p) (auto simp: defs simp del: occ_arith dest!: down_Some)
  next
    case 2
    then have "0 < cnt handing3 (ps[t := q])"
      using cnt_posI [of t "ps[t := q]" handing3] t(1) by simp
    then show ?thesis
      by (simp add: sleepers_served3_def)
  next
    case 3
    then show ?thesis
      using step t(2) c(1,4) k inv3_counts(4) [OF i] small waiting_reader3_split [of ps]
      by (cases p) (auto simp: defs cint_simps split: if_splits)
  next
    case 4
    then have "cnt handing3 ps = 0"
      using inv3_only(2) [OF i t(1)] t(2) by simp
    with 4 show ?thesis
      using step t(2) H c(1,2,4) k by (cases p) (auto simp: defs simp del: occ_arith split: if_splits)
  qed
qed

lemma linv3_step:
  assumes inv: "linv3 val s ps" and t: "t < length ps" "ps ! t = p" and step: "step3 K p s = Some (q, s')"
  shows "linv3 val s' (ps[t := q])"
proof -
  have i: "inv3 val s ps" and k: "\<forall>u < length ps. knows3 val s ps (ps ! u)"
    using inv by (auto simp: linv3_def)
  have "knows3 val s' (ps[t := q]) (ps[t := q] ! u)" if "u < length ps" for u
    using knows3_other [OF i that _ _ t step] knows3_next [OF i _ t step] k that t by (cases "u = t") auto
  then show ?thesis
    unfolding linv3_def
    using inv3_step [OF i t step] linv3_writers [OF inv t step] linv3_readers [OF inv t step] linv3_sleepers [OF inv t step] by simp
qed

lemma linv3_call:
  assumes inv: "linv3 val s ps" and t: "t < length ps"
    and call: "(ps ! t, q) \<in> {(Idle3, EW3_down_Mutex), (Idle3, ER3_down_Mutex), (InW3, LW3_down_Mutex), (InR3, LR3_down_Mutex)}"
  shows "linv3 val s (ps[t := q])"
proof -
  have same: "cnt P (ps[t := q]) = cnt P ps" if "P (ps ! t) = P q" for P
    using cnt_move(1) [OF t that] .
  have eq: "cnt writing3 (ps[t := q]) = cnt writing3 ps" "cnt reading3 (ps[t := q]) = cnt reading3 ps"
    "cnt waiting_writer3 (ps[t := q]) = cnt waiting_writer3 ps" "cnt waiting_reader3 (ps[t := q]) = cnt waiting_reader3 ps"
    "cnt fetched_writer3 (ps[t := q]) = cnt fetched_writer3 ps" "cnt fetched_reader3 (ps[t := q]) = cnt fetched_reader3 ps"
    "cnt changing3 (ps[t := q]) = cnt changing3 ps" "cnt handing3 (ps[t := q]) = cnt handing3 ps"
    "occ (ps[t := q]) ER3_down_Reader = occ ps ER3_down_Reader" "occ (ps[t := q]) EW3_down_Writer = occ ps EW3_down_Writer"
    unfolding occ_def using call by (intro same; auto simp: fetched_writer3_def fetched_reader3_def)+
  have "knows3 val s (ps[t := q]) p = knows3 val s ps p" for p
    by (cases p) (simp_all add: eq)
  moreover have "knows3 val s ps q"
    using call by auto
  ultimately show ?thesis
    using inv inv3_call [OF _ t call, of val s] t by (auto simp: linv3_def served3 eq nth_update)
qed

lemma linv3_reach:
  assumes n: "n < 2147483648"
    and reach: "reach (rw_step (sol3 K)) (rw_start (sol3 K) (InitializeSyncSolution3 K) n) (s, ps)"
  shows "linv3 val s ps"
proof (rule rw_invariantI [OF reach])
  have "inv3 val (InitializeSyncSolution3 K) (replicate n Idle3)"
    using inv3_reach [OF n, of "InitializeSyncSolution3 K" "replicate n Idle3"] by (simp add: rw_start_def reach.start)
  then show "linv3 val (InitializeSyncSolution3 K) (replicate n (pos_idle (sol3 K)))"
    by (simp add: linv3_def served3)
qed (auto intro: linv3_step linv3_call)

lemma linv3_no_deadlock:
  assumes inv: "linv3 val s ps"
  shows "\<not> rw_deadlock (sol3 K) (s, ps)"
proof
  assume "rw_deadlock (sol3 K) (s, ps)"
  then obtain u where u: "u < length ps" "ps ! u \<notin> {Idle3, InW3, InR3}"
    and stuck: "\<And>t. t < length ps \<Longrightarrow> ps ! t \<noteq> InW3 \<and> ps ! t \<noteq> InR3 \<and> step3 K (ps ! t) s = None"
    by (auto simp: rw_deadlock_def)
  have i: "inv3 val s ps"
    using inv by (simp add: linv3_def)
  have nm: "\<not> has_mutex3 (ps ! t)" if "t < length ps" for t
    using stuck [OF that] by (cases "ps ! t") (auto simp: sem3_defs)
  then have none: "cnt has_mutex3 ps = 0"
    using cnt_pos_iff [of has_mutex3 ps] by auto
  then have m: "val (SemaphoreMutex3 s) = 1"
    using i by (simp add: inv3_def lock_tally_def)
  have at: "ps ! t = Idle3 \<or> ps ! t = EW3_down_Writer \<and> val (SemaphoreWriter3 s) = 0 \<or>
      ps ! t = ER3_down_Reader \<and> val (SemaphoreReader3 s) = 0" if "t < length ps" for t
    using stuck [OF that] m by (cases "ps ! t") (auto simp: sem3_defs down_None_iff)
  have zero: "cnt P ps = 0" if "\<not> P Idle3" "\<not> P EW3_down_Writer" "\<not> P ER3_down_Reader" for P
    using at that cnt_pos_iff [of P ps] by (metis gr0I)
  have f: "cnt fetched_writer3 ps = 0" "cnt fetched_reader3 ps = 0" "quiet3 ps"
    by (simp_all add: zero quiet3_def fetched_writer3_def fetched_reader3_def)
  have asleep: "val (SemaphoreWriter3 s) = 0 \<or> occ ps EW3_down_Writer = 0" "val (SemaphoreReader3 s) = 0 \<or> occ ps ER3_down_Reader = 0"
    using at occ_pos_iff [of ps EW3_down_Writer] occ_pos_iff [of ps ER3_down_Reader] by fastforce+
  have "cnt waiting_writer3 ps = occ ps EW3_down_Writer" "cnt waiting_reader3 ps = occ ps ER3_down_Reader"
    unfolding waiting_writer3_split waiting_reader3_split by (simp_all add: f occ_def zero)
  moreover have "0 < occ ps EW3_down_Writer + occ ps ER3_down_Reader"
    using at [OF u(1)] u(2) occ_pos [OF u(1)] by fastforce
  ultimately show False
    using inv f asleep by (auto simp: linv3_def writers_served3_def readers_served3_def)
qed

end

section \<open>Properties\<close>

text \<open>
  C10: Solution 3 does not deadlock: in no reachable state, for any number of threads (fewer than \<open>2^31\<close>) and any
  interleaving, has a thread called a method while no thread is in a critical section and no thread can execute
  its next statement. No wake-up is lost, although the permits handed out are not tied to the threads they are
  meant for.
\<close>

theorem sync3_no_deadlock:
  assumes "kernel_semaphore K val" and "n < 2147483648"
    and "reach (rw_step (sol3 K)) (rw_start (sol3 K) (InitializeSyncSolution3 K) n) (s, ps)"
  shows "\<not> rw_deadlock (sol3 K) (s, ps)"
  using kernel_semaphore.linv3_no_deadlock [OF assms(1) kernel_semaphore.linv3_reach [OF assms]] .

theorem sync3_no_deadlock_witness:
  "\<exists>s. reach (rw_step (sol3 counting_sem)) (rw_start (sol3 counting_sem) (InitializeSyncSolution3 counting_sem) 2)
      (s, [InW3, ER3_down_Reader]) \<and> \<not> rw_deadlock (sol3 counting_sem) (s, [InW3, ER3_down_Reader])"
proof -
  obtain s where r: "reach (rw_step (sol3 counting_sem)) (rw_start (sol3 counting_sem) (InitializeSyncSolution3 counting_sem) 2)
      (s, [InW3, ER3_down_Reader])"
    by (rule sync3_demo)
  from sync3_no_deadlock [OF counting.kernel_semaphore_axioms _ r] r show ?thesis
    by auto
qed

end
