(* ===== verification/Sync_Test.thy ===== *)
theory Sync_Test
  imports Kboard_Conc Kboard_User
begin

text \<open>
  The load test of the second kboard (\<open>lab2/SyncTest.c\<close>). \<open>SyncTest_main\<close> is \<open>main\<close> as the list of the
  library calls it makes; what \<open>pthread_create\<close> stores and returns is a parameter \<open>create\<close>, \<open>malloc\<close> is taken to succeed and
  \<open>pthread_join\<close> to return; what it stores through \<open>(void**)&result\<close>, eight bytes into an \<open>int\<close> that is not used, is left out. The three
  thread functions repeat one shell command for ever; a command opens a file of the module and reads it
  or writes one line, so it is one job of \<open>Kboard_Conc\<close>. The second half of the theory puts test and
  module together: whatever the threads do, only 777 is ever in the kboard.
\<close>

section \<open>The main program\<close>

datatype routine = WriterEnqueue | WriterDequeue | Reader

datatype test_call =
    Print_usage
  | Malloc clong
  | Pthread_create routine
  | Pthread_join clong
  | Usleep cint
  | Free

text \<open>
  \<open>for (index = 0; index < n; index++) thread[index] = pthread_create(&thread[index], NULL, routine, NULL);\<close>
  from a given index on. The \<open>k\<close>-th call of \<open>pthread_create\<close> stores a thread identifier in the array and
  returns a code; then the assignment stores the code.
\<close>

function create_loop ::
    "(nat \<Rightarrow> clong \<times> cint) \<Rightarrow> routine \<Rightarrow> cint \<Rightarrow> cint \<Rightarrow> nat \<Rightarrow> clong list \<Rightarrow> (clong list \<times> test_call list) result" where
  "create_loop create f n index k thread =
     (if index <s n then
        case create k of (tid, code) \<Rightarrow>
          rbind (arr_set thread index tid) (\<lambda>thread.
          rbind (arr_set thread index (scast code)) (\<lambda>thread.
          rbind (create_loop create f n (index + 1) (Suc k) thread) (\<lambda>(thread, calls).
            Inr (thread, Pthread_create f # calls))))
      else Inr (thread, []))"
  by pat_completeness auto
termination
  by (relation "measure (\<lambda>(create, f, n, index, k, thread). nat (sint n - sint index))") (auto dest: loop_bound)
declare create_loop.simps [simp del]

text \<open>\<open>for (index = 0; index < n; index++) pthread_join(thread[index], (void**)&result);\<close>\<close>

function join_loop :: "cint \<Rightarrow> cint \<Rightarrow> clong list \<Rightarrow> test_call list result" where
  "join_loop n index thread =
     (if index <s n then
        rbind (arr_get thread index) (\<lambda>tid.
        rbind (join_loop n (index + 1) thread) (\<lambda>calls. Inr (Pthread_join tid # calls)))
      else Inr [])"
  by pat_completeness auto
termination
  by (relation "measure (\<lambda>(n, index, thread). nat (sint n - sint index))") (auto dest: loop_bound)
declare join_loop.simps [simp del]

text \<open>
  \<open>malloc(sizeof(pthread_t) * n)\<close>: the size asked for, and an array of \<open>n\<close> elements of any contents. (A
  negative \<open>n\<close> asks for a huge size; the array is then empty, as no loop uses it.)
\<close>

definition thread_array :: "(nat \<Rightarrow> clong) \<Rightarrow> cint \<Rightarrow> clong list" where
  "thread_array junk n = map junk [0..<nat (sint n)]"

definition SyncTest_main ::
    "(nat \<Rightarrow> clong \<times> cint) \<Rightarrow> (nat \<Rightarrow> clong) \<Rightarrow> string list \<Rightarrow> (cint \<times> test_call list) result" where
  "SyncTest_main create junk argv =
     (if length argv < 4 then Inr (- 1, [Print_usage])
      else
        let writerEnqueueNumber = c_div (atoi (argv ! 1)) 2;
            writerDequeueNumber = atoi (argv ! 1) - c_div (atoi (argv ! 1)) 2;
            readerNumber = atoi (argv ! 2);
            duration = atoi (argv ! 3);
            mallocs = map (\<lambda>n. Malloc (8 * scast n)) [writerEnqueueNumber, writerDequeueNumber, readerNumber] in
        rbind (create_loop create WriterEnqueue writerEnqueueNumber 0 0 (thread_array junk writerEnqueueNumber)) (\<lambda>(writerEnqueueThread, c1).
        rbind (create_loop create WriterDequeue writerDequeueNumber 0 (length c1) (thread_array junk writerDequeueNumber)) (\<lambda>(writerDequeueThread, c2).
        rbind (create_loop create Reader readerNumber 0 (length c1 + length c2) (thread_array junk readerNumber)) (\<lambda>(readerThread, c3).
        rbind (join_loop writerEnqueueNumber 0 writerEnqueueThread) (\<lambda>j1.
        rbind (join_loop writerDequeueNumber 0 writerDequeueThread) (\<lambda>j2.
        rbind (join_loop readerNumber 0 readerThread) (\<lambda>j3.
          Inr (0, mallocs @ c1 @ c2 @ c3 @ j1 @ j2 @ j3 @ [Usleep (duration * 1000 * 1000), Free, Free, Free]))))))))"

section \<open>The loops\<close>

lemma create_loop_all:
  assumes "length thread = unat n" and "unat n < 2147483648" and "unat index \<le> unat n"
  shows "create_loop create f n index k thread =
    Inr (take (unat index) thread @ map (\<lambda>i. scast (snd (create (k + i)))) [0..<unat n - unat index],
      replicate (unat n - unat index) (Pthread_create f))"
  using assms
proof (induction create f n index k thread rule: create_loop.induct)
  case (1 create f n index k thread)
  obtain tid code where c: "create k = (tid, code)" by (cases "create k")
  show ?case
  proof (cases "index <s n")
    case True
    then have lt: "unat index < unat n" and nxt: "unat (index + 1) = Suc (unat index)"
      using "1.prems" by (simp_all add: cint_simps)
    let ?t = "thread[unat index := scast code]"
    have "create_loop create f n (index + 1) (Suc k) ?t =
      Inr (take (unat (index + 1)) ?t @ map (\<lambda>i. scast (snd (create (Suc k + i)))) [0..<unat n - unat (index + 1)],
        replicate (unat n - unat (index + 1)) (Pthread_create f))"
      by (rule "1.IH" [OF True c [symmetric]]) (use "1.prems" lt nxt in simp_all)
    moreover have "unat n - unat index = Suc (unat n - Suc (unat index))"
      using lt by simp
    moreover have "map (\<lambda>i. scast (snd (create (k + i))) :: clong) [0..<Suc m] =
        scast code # map (\<lambda>i. scast (snd (create (Suc k + i)))) [0..<m]" for m
      using c by (simp add: upt_conv_Cons map_Suc_upt [symmetric] del: upt_Suc)
    ultimately show ?thesis
      using True c lt nxt "1.prems"
      by (simp add: create_loop.simps [of create f n index k thread] arr_set_small take_Suc_conv_app_nth del: upt_Suc)
  next
    case False
    then have "unat index = unat n"
      using "1.prems" by (simp add: cint_simps)
    with False "1.prems" show ?thesis
      by (simp add: create_loop.simps [of create f n index k thread])
  qed
qed

lemma join_loop_all:
  assumes "length thread = unat n" and "unat n < 2147483648" and "unat index \<le> unat n"
  shows "join_loop n index thread = Inr (map Pthread_join (drop (unat index) thread))"
  using assms
proof (induction n index thread rule: join_loop.induct)
  case (1 n index thread)
  show ?case
  proof (cases "index <s n")
    case True
    then have lt: "unat index < unat n" and nxt: "unat (index + 1) = Suc (unat index)"
      using "1.prems" by (simp_all add: cint_simps)
    have "drop (unat index) thread = thread ! unat index # drop (Suc (unat index)) thread"
      using lt "1.prems" by (simp add: Cons_nth_drop_Suc)
    then show ?thesis
      using True lt nxt "1.prems" "1.IH" [OF True]
      by (simp add: join_loop.simps [of n index thread] arr_get_small)
  next
    case False
    then show ?thesis
      using "1.prems" by (simp add: join_loop.simps [of n index thread] cint_simps)
  qed
qed


lemma unat_minus_div:
  "unat (w :: cint) < 2147483648 \<Longrightarrow> unat (w - c_div w 2) = unat w - unat w div 2"
  by (simp add: unat_sub word_le_nat_alt c_div_small)

lemma thread_array_length: "unat n < 2147483648 \<Longrightarrow> length (thread_array junk n) = unat n"
  by (simp add: thread_array_def sint_small)

lemma scast_small: "unat (n :: cint) < 2147483648 \<Longrightarrow> scast n = (of_nat (unat n) :: clong)"
  by (simp add: scast_eq sint_small)

lemma synctest_main_run:
  assumes "4 \<le> length argv"
    and w: "unat (atoi (argv ! 1)) = w" "w < 2147483648" and r: "unat (atoi (argv ! 2)) = r" "r < 2147483648"
  shows "SyncTest_main create junk argv = Inr (0,
    map (\<lambda>n. Malloc (8 * of_nat n)) [w div 2, w - w div 2, r] @
    replicate (w div 2) (Pthread_create WriterEnqueue) @ replicate (w - w div 2) (Pthread_create WriterDequeue) @
    replicate r (Pthread_create Reader) @
    map (\<lambda>k. Pthread_join (scast (snd (create k)))) [0..<w + r] @
    [Usleep (atoi (argv ! 3) * 1000000), Free, Free, Free])"
proof -
  let ?e = "c_div (atoi (argv ! 1)) 2" and ?d = "atoi (argv ! 1) - c_div (atoi (argv ! 1)) 2"
  let ?J = "\<lambda>k. scast (snd (create k)) :: clong"
  have n: "unat ?e = w div 2" "unat ?d = w - w div 2"
    using w by (simp_all add: c_div_small unat_minus_div)
  have loops: "create_loop create f n 0 k (thread_array junk n) = Inr (map (\<lambda>i. ?J (k + i)) [0..<unat n], replicate (unat n) (Pthread_create f)) \<and>
      join_loop n 0 (map (\<lambda>i. ?J (k + i)) [0..<unat n]) = Inr (map (\<lambda>i. Pthread_join (?J (k + i))) [0..<unat n])"
    if "unat n < 2147483648" for f n k
    using create_loop_all [of "thread_array junk n" n 0 create f k] join_loop_all [of "map (\<lambda>i. ?J (k + i)) [0..<unat n]" n 0]
      thread_array_length [OF that] that by (simp add: comp_def)
  have split: "map f [0..<a + b] = map f [0..<a] @ map (\<lambda>i. f (a + i)) [0..<b]" for f :: "nat \<Rightarrow> test_call" and a b
    by (rule nth_equalityI) (auto simp: nth_append)
  have joins: "map (\<lambda>k. Pthread_join (?J k)) [0..<w + r] =
      map (\<lambda>i. Pthread_join (?J (0 + i))) [0..<w div 2] @ map (\<lambda>i. Pthread_join (?J (w div 2 + i))) [0..<w - w div 2] @
      map (\<lambda>i. Pthread_join (?J (w div 2 + (w - w div 2) + i))) [0..<r]"
    using split [of _ w r] split [of _ "w div 2" "w - w div 2"] by simp
  have sz: "scast ?e = (of_nat (w div 2) :: clong)" "scast ?d = (of_nat (w - w div 2) :: clong)" "scast (atoi (argv ! 2)) = (of_nat r :: clong)"
    using w r n scast_small [of ?e] scast_small [of ?d] scast_small [of "atoi (argv ! 2)"] by simp_all
  have big: "unat ?e < 2147483648" "unat ?d < 2147483648" "unat (atoi (argv ! 2)) < 2147483648"
    using n w r by simp_all
  show ?thesis
    unfolding joins SyncTest_main_def
    using assms(1) n r sz loops [OF big(1), of WriterEnqueue 0] loops [OF big(2), of WriterDequeue "w div 2"]
      loops [OF big(3), of Reader "w div 2 + (w - w div 2)"]
    by (simp add: Let_def)
qed


section \<open>The threads and the module\<close>

text \<open>
  The argument of \<open>system\<close> in the three thread functions, and what the command asks of the module. A write
  is scanned as in \<open>KboardWriter_Write\<close> (\<open>rest\<close> is what follows it in the buffer and on the stack; a
  write that scans to no item or to a negative one never reaches the kboard); a read of \<open>reader\<close> draws a
  random number.
\<close>

datatype shell = Echo_writer string | Cat_writer | Cat_reader

fun thread_command :: "routine \<Rightarrow> shell" where
  "thread_command WriterEnqueue = Echo_writer ''777''"
| "thread_command WriterDequeue = Cat_writer"
| "thread_command Reader = Cat_reader"

fun command_job :: "(string \<Rightarrow> cint option) \<Rightarrow> string \<Rightarrow> cint \<Rightarrow> shell \<Rightarrow> job option" where
  "command_job sscanf_d rest random_bytes (Echo_writer txt) =
     (case sscanf_d (c_string (txt @ newline @ rest)) of
        None \<Rightarrow> None
      | Some item \<Rightarrow> if item <s 0 then None else Some (Copy item))"
| "command_job sscanf_d rest random_bytes Cat_writer = Some Paste"
| "command_job sscanf_d rest random_bytes Cat_reader = Some (Read (random_bytes mod RING_BUFFER_SIZE))"

datatype stress_choice = Issue nat string cint | Exec nat

text \<open>The threads of the test: thread \<open>t\<close> runs the function \<open>rs ! t\<close>, one command after the other.\<close>

fun stress_step ::
    "(string \<Rightarrow> cint option) \<Rightarrow> ('p, 'y) sync_ops \<Rightarrow> routine list \<Rightarrow> stress_choice \<Rightarrow> ('p, 'y) conc \<Rightarrow> ('p, 'y) conc option" where
  "stress_step sscanf_d P rs (Issue t rest random_bytes) c =
     (if t < length rs then
        case command_job sscanf_d rest random_bytes (thread_command (rs ! t)) of
          None \<Rightarrow> None
        | Some j \<Rightarrow> conc_step P (Start t j) c
      else None)"
| "stress_step sscanf_d P rs (Exec t) c = conc_step P (Sched t) c"

lemma stress_conc:
  assumes "stress_step sscanf_d P rs x c = Some c'"
  obtains t rest rnd j where "x = Issue t rest rnd" and "t < length rs"
      and "command_job sscanf_d rest rnd (thread_command (rs ! t)) = Some j" and "conc_step P (Start t j) c = Some c'"
  | t where "x = Exec t" and "conc_step P (Sched t) c = Some c'"
  using assms by (cases x) (auto split: if_splits option.splits)

lemma stress_reach:
  assumes "reach (stress_step sscanf_d P rs) c0 c"
  shows "reach (conc_step P) c0 c"
  using assms
proof (induction rule: reach_invariant)
  case (step x c c')
  from step.hyps(2) show ?case
    by (rule stress_conc) (rule reach.step [OF step.IH], assumption)+
qed (rule reach.start)

context decimal_scan
begin

lemma scan_777: "scan (c_string (''777'' @ newline @ rest)) = Some 777"
proof -
  have "item_line 777 = ''777'' @ newline"
    by (simp add: item_line_def fmt_d_def show_nat.simps) code_simp
  moreover have "\<not> (777 :: cint) <s 0"
    by (simp add: word_sless_alt)
  ultimately show ?thesis
    using scan_line [of 777 rest] by simp
qed

lemma routine_job:
  "command_job scan rest rnd (thread_command f) =
     Some (case f of WriterEnqueue \<Rightarrow> Copy 777 | WriterDequeue \<Rightarrow> Paste | Reader \<Rightarrow> Read (rnd mod 5))"
  using scan_777 [of rest] by (cases f) (simp_all add: RING_BUFFER_SIZE_def word_sless_alt)

end


text \<open>A bounded queue to which only \<open>v\<close> is ever enqueued.\<close>

lemma bq_one_item:
  "run_ops (bq_step cap) xs q = (rs, q') \<Longrightarrow> set xs \<subseteq> {Enq v, Deq} \<Longrightarrow> set q \<subseteq> {v} \<Longrightarrow>
    set rs \<subseteq> {Accepted, Rejected, Nothing, Got v} \<and> set q' \<subseteq> {v}"
proof (induction xs arbitrary: q rs)
  case (Cons x xs)
  obtain r q1 rs1 where s: "bq_step cap x q = (r, q1)" "run_ops (bq_step cap) xs q1 = (rs1, q')" "rs = r # rs1"
    using Cons.prems(1) by (auto split: prod.splits)
  have "r \<in> {Accepted, Rejected, Nothing, Got v} \<and> set q1 \<subseteq> {v}"
    using s(1) Cons.prems(2,3) by (cases "(cap, x, q)" rule: bq_step.cases) (auto split: if_splits)
  then show ?case
    using Cons.IH [OF s(2)] Cons.prems(2) s(3) by simp
qed simp

lemma bq_one_item_count:
  "run_ops (bq_step cap) xs q = (rs, q') \<Longrightarrow> set xs \<subseteq> {Enq v, Deq} \<Longrightarrow> set q \<subseteq> {v} \<Longrightarrow>
    length q + length (filter (\<lambda>r. r = Accepted) rs) = length (filter (\<lambda>r. r = Got v) rs) + length q'"
proof (induction xs arbitrary: q rs)
  case (Cons x xs)
  obtain r q1 rs1 where s: "bq_step cap x q = (r, q1)" "run_ops (bq_step cap) xs q1 = (rs1, q')" "rs = r # rs1"
    using Cons.prems(1) by (auto split: prod.splits)
  have "set q1 \<subseteq> {v} \<and> length q + (if r = Accepted then 1 else 0) = (if r = Got v then 1 else 0) + length q1"
    using s(1) Cons.prems(2,3) by (cases "(cap, x, q)" rule: bq_step.cases) (auto split: if_splits)
  then show ?case
    using Cons.IH [OF s(2)] Cons.prems(2) s(3) by (simp split: if_splits)
qed simp

text \<open>Every operation under way or in the history is one of the test's, every result to be printed one it allows.\<close>

definition act_777 :: "act \<Rightarrow> bool" where
  "act_777 a = (case a of NoJob \<Rightarrow> True | Entering b \<Rightarrow> stmt_op b \<in> {Enq 777, Deq} | Body b \<Rightarrow> stmt_op b \<in> {Enq 777, Deq}
     | Leaving r \<Rightarrow> r \<in> {Accepted, Rejected, Nothing, Got 777, Got (- 1)})"

definition all_777 :: "('p, 'y) conc \<Rightarrow> bool" where
  "all_777 c \<longleftrightarrow> (\<forall>a \<in> set (acts c). act_777 a) \<and> (\<forall>e \<in> set (clog c). fst e \<in> {Enq 777, Deq})"

lemma act_777_update: "\<forall>a \<in> set as. act_777 a \<Longrightarrow> act_777 a \<Longrightarrow> \<forall>a \<in> set (as[t := a]). act_777 a"
  using set_update_subset_insert [of as t a] by auto

lemma body_step_op: "body_step b s = Inr (Inl b', s') \<Longrightarrow> stmt_op b' = stmt_op b"
  by (cases b) (auto simp: rbind_Inr split: if_splits)

lemma first_stmt_op: "stmt_op (first_stmt j) = (case j of Copy x \<Rightarrow> Enq x | _ \<Rightarrow> Deq)"
  by (cases j) simp_all

context rw_exclusion
begin

lemma history_777:
  assumes "reach (conc_step P) (conc_start P s0 n) c" and "\<forall>e \<in> set (clog c). fst e \<in> {Enq 777, Deq}"
  shows "set (map snd (clog c)) \<subseteq> {Accepted, Rejected, Nothing, Got 777} \<and>
    (no_writer (acts c) \<longrightarrow> km_wf (board c) \<and> set (km_contents (board c)) \<subseteq> {777} \<and>
      length (filter (\<lambda>r. r = Accepted) (map snd (clog c))) =
      length (filter (\<lambda>r. r = Got 777) (map snd (clog c))) + length (km_contents (board c)))"
proof -
  obtain q where q: "run_ops (bq_step 5) (map fst (clog c)) [] = (map snd (clog c), q)"
    and nw: "no_writer (acts c) \<longrightarrow> km_wf (board c) \<and> km_contents (board c) = q"
    using conc_history [OF assms(1)] by blast
  have "set (map fst (clog c)) \<subseteq> {Enq 777, Deq}"
    using assms(2) by auto
  then show ?thesis
    using bq_one_item [OF q, of 777] bq_one_item_count [OF q, of 777] nw by simp
qed

lemma leaving_777:
  assumes r: "reach (conc_step P) (conc_start P s0 n) c" and c': "conc_step P (Sched t) c = Some c'"
    and a: "acts c ! t = Body b" and b: "body_step b (board c) = Inr (Inr q, s)" and all: "all_777 c" and t: "t < length (pos c)"
  shows "all_777 c'"
proof -
  have inv: "conc_inv P s0 n c" and r': "reach (conc_step P) (conc_start P s0 n) c'"
    using conc_inv_reach [OF r] reach.step [OF r c'] by simp_all
  note inside = conc_inside [OF inv t a]
  have "acts c ! t \<in> set (acts c)"
    using t inv by (simp add: conc_inv_def)
  then have op: "stmt_op b \<in> {Enq 777, Deq}"
    using all a by (auto simp: all_777_def act_777_def)
  have eq: "acts c' = (acts c)[t := Leaving q]" "clog c' = clog c @ (if is_reader b then [] else [(stmt_op b, q)])"
    using c' a b t by auto
  have log: "\<forall>e \<in> set (clog c'). fst e \<in> {Enq 777, Deq}"
    using all eq(2) op by (auto simp: all_777_def)
  have "act_777 (Leaving q)"
  proof (cases "is_reader b")
    case True
    have "km_wf (board c)" "set (km_contents (board c)) \<subseteq> {777}"
      using history_777 [OF r] all inside(5) [OF True] by (simp_all add: all_777_def)
    then show ?thesis
      using body_reader [of "board c" b, OF _ True inside(6)] b by (auto simp: act_777_def)
  next
    case False
    then show ?thesis
      using history_777 [OF r' log] eq(2) by (auto simp: act_777_def)
  qed
  then show ?thesis
    using act_777_update [of "acts c" "Leaving q" t] all log eq(1) by (simp add: all_777_def)
qed

lemma sched_777:
  assumes r: "reach (conc_step P) (conc_start P s0 n) c" and c': "conc_step P (Sched t) c = Some c'" and all: "all_777 c"
  shows "all_777 c'"
proof -
  have t: "t < length (pos c)"
    using c' by (simp split: if_splits)
  then have old: "act_777 (acts c ! t)"
    using all conc_inv_reach [OF r] by (auto simp: all_777_def conc_inv_def)
  have upd: "all_777 (c\<lparr>board := s, acts := (acts c)[t := a]\<rparr>)" "all_777 (c\<lparr>acts := (acts c)[t := a]\<rparr>)" if "act_777 a" for a s
    using all act_777_update [of "acts c" a t] that by (simp_all add: all_777_def)
  show ?thesis
    using c'
  proof (cases rule: conc_sched_cases)
    case (enter b)
    then show ?thesis
      using old upd(2) [of "Body b"] by (simp add: act_777_def)
  next
    case (sync p y)
    then show ?thesis
      using all by (simp add: all_777_def)
  next
    case (body b b' s)
    then have "act_777 (Body b')"
      using body_step_op [OF body(3)] old by (simp add: act_777_def)
    then show ?thesis
      using body(4) upd(1) by simp
  next
    case (finish b r s)
    then show ?thesis
      using leaving_777 [OF r c' finish(2,3) all t] by simp
  next
    case (idle r)
    then show ?thesis
      using upd(2) [of NoJob] by (simp add: act_777_def)
  qed
qed

end

lemma stress_777:
  assumes scan: "decimal_scan sscanf_d" and ex: "rw_exclusion P y n"
    and reach: "reach (stress_step sscanf_d P rs) (conc_start P y n) c"
  shows "all_777 c"
  using reach
proof (induction rule: reach_invariant)
  case start
  show ?case by (simp add: all_777_def conc_start_def act_777_def)
next
  case (step x c c')
  note conc = stress_reach [OF step.hyps(1)]
  from step.hyps(2) show ?case
  proof (rule stress_conc)
    fix t rest rnd j
    assume j: "command_job sscanf_d rest rnd (thread_command (rs ! t)) = Some j" and s: "conc_step P (Start t j) c = Some c'"
    have "stmt_op (first_stmt j) \<in> {Enq 777, Deq}"
      using j decimal_scan.routine_job [OF scan] by (auto simp: first_stmt_op split: routine.splits)
    then have "act_777 (Entering (first_stmt j))"
      by (simp add: act_777_def)
    then show ?thesis
      using s step.IH act_777_update [of "acts c" _ t] by (auto simp: all_777_def split: if_splits)
  qed (rule rw_exclusion.sched_777 [OF ex conc _ step.IH])
qed


text \<open>
  The load test and the module together, under any solution that keeps writers exclusive and however
  the threads of the test interleave: every enqueue is of 777, every dequeue delivers 777 or finds the
  kboard empty, every reader prints 777 or \<open>-1\<close>; and whenever no writer is inside, the kboard holds only
  777, as many as were accepted and not yet delivered.
\<close>

lemma stress_values:
  assumes "decimal_scan sscanf_d" and "rw_exclusion P y n"
    and "reach (stress_step sscanf_d P rs) (conc_start P y n) c"
  shows "(\<forall>(x, r) \<in> set (clog c). (x = Enq 777 \<or> x = Deq) \<and> r \<in> {Accepted, Rejected, Nothing, Got 777}) \<and>
    (\<forall>v. Leaving (Got v) \<in> set (acts c) \<longrightarrow> v = 777 \<or> v = - 1) \<and>
    (no_writer (acts c) \<longrightarrow> set (km_contents (board c)) \<subseteq> {777} \<and>
      length (filter (\<lambda>r. r = Accepted) (map snd (clog c))) =
      length (filter (\<lambda>r. r = Got 777) (map snd (clog c))) + length (km_contents (board c)))"
proof -
  have all: "all_777 c"
    by (rule stress_777 [OF assms])
  have h: "set (map snd (clog c)) \<subseteq> {Accepted, Rejected, Nothing, Got 777}"
    "no_writer (acts c) \<longrightarrow> km_wf (board c) \<and> set (km_contents (board c)) \<subseteq> {777} \<and>
      length (filter (\<lambda>r. r = Accepted) (map snd (clog c))) =
      length (filter (\<lambda>r. r = Got 777) (map snd (clog c))) + length (km_contents (board c))"
    using rw_exclusion.history_777 [OF assms(2) stress_reach [OF assms(3)]] all by (simp_all add: all_777_def)
  have "v = 777 \<or> v = - 1" if "Leaving (Got v) \<in> set (acts c)" for v
    using all that by (auto simp: all_777_def act_777_def)
  moreover have "(x = Enq 777 \<or> x = Deq) \<and> r \<in> {Accepted, Rejected, Nothing, Got 777}" if "(x, r) \<in> set (clog c)" for x r
    using all h(1) that by (auto simp: all_777_def)
  ultimately show ?thesis
    using h(2) by blast
qed

section \<open>Properties\<close>

text \<open>
  C35: What the load test does, for non-negative numbers of threads and as far as its calls return: it creates half of the
  writers (rounded down) as enqueuers, the rest as dequeuers and all the readers, in this order, joins them, waits and
  exits with 0; it writes only into the arrays it allocated. But what it hands to \<open>pthread_join\<close>, for every thread, is the return
  code of its \<open>pthread_create\<close>, which was stored over the thread identifier, and the argument of
  \<open>usleep\<close> is the duration in microseconds modulo \<open>2^32\<close>. With fewer than three arguments it only explains
  its usage.
\<close>

theorem synctest_main_correct:
  assumes "length argv < 4 \<or> \<not> atoi (argv ! 1) <s 0 \<and> \<not> atoi (argv ! 2) <s 0"
  shows "if length argv < 4 then SyncTest_main create junk argv = Inr (- 1, [Print_usage])
    else let w = unat (atoi (argv ! 1)); r = unat (atoi (argv ! 2)); d = unat (atoi (argv ! 3)) in
      \<exists>us. SyncTest_main create junk argv = Inr (0,
        map (\<lambda>n. Malloc (8 * of_nat n)) [w div 2, w - w div 2, r] @
        replicate (w div 2) (Pthread_create WriterEnqueue) @ replicate (w - w div 2) (Pthread_create WriterDequeue) @
        replicate r (Pthread_create Reader) @
        map (\<lambda>k. Pthread_join (scast (snd (create k)))) [0..<w + r] @
        [Usleep us, Free, Free, Free]) \<and> unat us = d * 1000000 mod 2 ^ 32"
proof (cases "length argv < 4")
  case True
  then show ?thesis by (simp add: SyncTest_main_def)
next
  case False
  then have "4 \<le> length argv" "unat (atoi (argv ! 1)) < 2147483648" "unat (atoi (argv ! 2)) < 2147483648"
    using assms by (simp_all add: nonneg_iff_small)
  moreover have "unat (atoi (argv ! 3) * 1000000) = unat (atoi (argv ! 3)) * 1000000 mod 2 ^ 32"
    by (simp add: unat_word_ariths)
  ultimately show ?thesis
    using synctest_main_run [of argv _ _ create junk] False
    by (simp add: Let_def)
qed

text \<open>Three writers, one reader, 5000 seconds; every thread is created, with identifiers 100, 101, ...\<close>

theorem synctest_main_correct_witness:
  "\<exists>us. SyncTest_main (\<lambda>k. (of_nat (100 + k), 0)) (\<lambda>i. 0) [''SyncTest'', ''3'', ''1'', ''5000''] = Inr (0,
     [Malloc 8, Malloc 16, Malloc 8, Pthread_create WriterEnqueue, Pthread_create WriterDequeue,
      Pthread_create WriterDequeue, Pthread_create Reader,
      Pthread_join 0, Pthread_join 0, Pthread_join 0, Pthread_join 0, Usleep us, Free, Free, Free]) \<and>
    unat us = 705032704"
proof -
  have "unat (atoi ''3'') = 3" "unat (atoi ''1'') = 1" "unat (atoi ''5000'') = 5000"
    by (code_simp, code_simp, code_simp)
  moreover have "replicate 2 x = [x, x]" "[0..<3] = [0, 1, 2]" for x :: test_call
    by (simp_all add: numeral_2_eq_2 upt_rec)
  ultimately show ?thesis
    using synctest_main_correct [of "[''SyncTest'', ''3'', ''1'', ''5000'']" "\<lambda>k. (of_nat (100 + k), 0)" "\<lambda>i. 0"]
    by (simp add: nonneg_iff_small Let_def)
qed

end
