(* ===== verification/Spec2Isabelle.thy ===== *)
theory Spec2Isabelle
  imports Single_Caller User_Processes Kernel_Stubs Syscall_Entry Proc_Fs Kboard_Progress Kboard_Dump Kboard_Conc3 Sync3_Progress Sync_Test
begin

text \<open>
  \<^bold>\<open>Verification of the kboard exercises\<close>

  \<^bold>\<open>The program.\<close> The repository holds two exercises on a clipboard ("kboard"), a ring of five integers in
  the Linux kernel.

  \<^item> \<open>lab1\<close>: three system calls, \<open>kb_enqueue\<close>, \<open>kb_dequeue\<close> and \<open>kb_init\<close> (\<open>lab1/kernel/os_kboard.c\<close>), which work on
    the ring under a spin lock; a user library around them (\<open>lab1/user/kboard.c\<close>); the programs \<open>copy\<close>, \<open>paste\<close>
    and \<open>init\<close>; and a synchronisation test of two programs, one that copies 0, 1, 2, ... and one that checks
    that it pastes 0, 1, 2, ....
  \<^item> \<open>lab2\<close>: a module (\<open>lab2/KboardModule.c\<close>) with the files \<open>writer\<close>, \<open>reader\<close>, \<open>count\<close> and \<open>dump\<close> under
    \<open>/proc/kboard\<close>. Writing a number to \<open>writer\<close> enqueues it, reading \<open>writer\<close> dequeues, reading \<open>reader\<close> shows
    a random slot. The handlers are synchronised by one of three solutions of the readers-writers problem,
    chosen by \<open>SYNC_SOLUTION\<close>. \<open>lab2/SyncTest.c\<close> loads the module with threads.

  \<^bold>\<open>Theories.\<close>

  \<^item> \<open>Prelude\<close>: C integers as 32- and 64-bit words (\<open>cint\<close>, \<open>clong\<close>) with signed comparison, division and array
    access (\<open>arr_get\<close>, \<open>arr_set\<close>: a fault outside the array); errors as values (\<open>result\<close>, \<open>rbind\<close>); printing of
    numbers; schedules (\<open>exec\<close>), reachable states (\<open>reach\<close>) and invariants; counting of threads at a position.
  \<^item> \<open>Ring_Buffer\<close>, \<open>Bounded_Queue\<close>: the ring as a queue, shared by both exercises, and the abstract bounded queue
    \<open>bq_step\<close>. The locale \<open>call_refinement\<close> lifts a refinement of single calls to runs; \<open>bounded_queue\<close> is its case for
    \<open>bq_step\<close>, where the first-in first-out law is proved.
  \<^item> \<open>Kernel_Api\<close>: what the sources use of the kernel and do not contain, as parameters with their documented
    laws: spin locks (\<open>kernel_spinlock\<close>), semaphores (\<open>kernel_semaphore\<close>), \<open>copy_to_user\<close> (\<open>user_memory\<close>),
    \<open>copy_from_user\<close> (\<open>user_text\<close>), \<open>sscanf\<close> of a decimal number (\<open>decimal_scan\<close>), \<open>single_open\<close> (\<open>seq_files\<close>), the functions of the proc file system
    (\<open>proc_filesystem\<close>). Each has a concrete instance.
  \<^item> \<open>Os_Kboard\<close>: \<open>os_kboard.c\<close>, call by call. The globals \<open>Lock\<close>, \<open>Ring\<close>, \<open>Count\<close>, \<open>CurrentIndex\<close> are the record \<open>kb\<close>.
    Shown: every path of every call, the invariant \<open>kb_wf\<close>, and that any sequence of calls, refused items, failed copies and
    initialisations included, refines the specification \<open>kb_spec\<close>.
  \<^item> \<open>Os_Kboard_Conc\<close>: the same calls by any number of processes, statement by statement. Shown: linearizability,
    release of the lock, completion of every call, and the race of \<open>kb_init\<close> with a call in progress.
  \<^item> \<open>Syscall_Entry\<close>: the macros of \<open>syscalls.h\<close> that make the entry point of a system call (\<open>SYSCALL_DEFINE1\<close>, ...) and describe
    it to the tracer. Shown: the body gets values of the declared types, and the entry points of the kboard are those
    the user library calls.
  \<^item> \<open>Kboard_User\<close>: library, programs and synchronisation test of \<open>lab1/user\<close>, through the system call table.
    Shown: what each program prints and returns on each path, copy and paste as a round trip, and that the
    test never reports a fault. \<open>Sync_Programs\<close>: the same for the two test programs as processes of \<open>Os_Kboard_Conc\<close>,
    switched at any statement of their system calls. \<open>User_Processes\<close>: any number of \<open>copy\<close> and \<open>paste\<close> programs as processes.
    Shown: what each of them prints, that no number is lost, duplicated or invented, and that all of them end.
  \<^item> \<open>Kernel_Stubs\<close>: the inline functions of \<open>syscalls.h\<close>, with the C conversions. Shown: error numbers and flags pass through
    them, and a length of \<open>2^63\<close> or more becomes negative.
  \<^item> \<open>Rw_Sync\<close>, \<open>Lightswitch\<close>, \<open>Sync1\<close>, \<open>Sync2\<close>, \<open>Sync3\<close>: the interface between handlers and synchronisation (the
    locales \<open>rw_exclusion\<close> and \<open>cs_contract\<close>), the counter-and-semaphore pattern two solutions share, and the three
    solutions, each as functions (\<open>EnterCriticalSection_Writer1\<close>, ...) and statement by statement (\<open>step1\<close>, ...),
    with the proof that the two agree (the locale \<open>alone_methods\<close>). Shown: solutions 1 and 2 exclude and do not deadlock; in solution 2
    readers wait for announced writers; in solution 1 readers can keep a writer out for ever, in solution 2 writers a reader; solution 3 lets a
    reader and a writer in together. \<open>Sync3_Progress\<close>: solution 3 does not deadlock either.
  \<^item> \<open>Kboard_Module\<close>: the handlers of \<open>KboardModule.c\<close> over any solution. The globals are the record \<open>kboard\<close>. Shown:
    every path of every handler, the invariant \<open>km_wf\<close>, the files as a bounded queue of lines, and what the missing
    terminator in \<open>KboardWriter_Write\<close> does.
  \<^item> \<open>Kboard_Conc\<close>: the synchronised handlers by any number of threads, statement by statement, over any solution
    with \<open>rw_exclusion\<close>. Shown: linearizability, no fault, consistent reads, and the lost update of \<open>PerformReader\<close>.
  \<^item> \<open>Single_Caller\<close>: the functional and the interleaved models agree. A process that executes a system call of \<open>lab1\<close>, or a
    handler of \<open>lab2\<close> over any of the three solutions, alone, does what the function does and carries the same result out of
    its critical section, waits, faults and early errors included.
  \<^item> \<open>Kboard_Progress\<close>: completion. The locale \<open>rw_progress\<close> adds phases, ranks and the absence of deadlock to the contract;
    solutions 1 and 2 have them. Shown: a handler is always at the place its progress says (\<open>module_phases\<close>), and every
    call returns.
  \<^item> \<open>Kboard_Dump\<close>: \<open>KboardDumper_Show\<close>, which does not synchronise, together with the handlers. Shown: it is safe, it shows
    only values that belong there, and it is not a snapshot.
  \<^item> \<open>Kboard_Conc3\<close>: the handlers over solution 3. Shown: an execution that delivers an item twice and ends in an access
    outside the ring.
  \<^item> \<open>Proc_Fs\<close>: loading and unloading of the module, over any proc file system with the contract \<open>proc_filesystem\<close>. Shown: which
    handlers the files run, what a failed load leaves behind (\<open>init_failure\<close>), and that unloading uses freed entries.
  \<^item> \<open>Sync_Test\<close>: \<open>SyncTest.c\<close>, its main program and its threads as clients of \<open>Kboard_Conc\<close>.
  \<^item> This theory: module, solution 1 and load test together (\<open>load_test_end_to_end\<close>).

  \<^bold>\<open>Modelling.\<close> A call that may fault or wait returns a value of type \<open>result\<close>: \<open>Inl\<close> says that an access left an array
  or that the caller waits on a lock for ever. The loops of the sources run over the ring or over an array and
  are total functions with a termination proof; the endless loops of the tests are steps of a transition system.
  There is no fuel, except for \<open>run_alone\<close>, which executes one synchronisation method, and \<open>run_until\<close>, which executes one
  call or handler; the equivalence theorems give the numbers of statements that suffice, or state the result for all
  sufficiently large numbers (\<open>settles\<close>). Threads are fewer than \<open>2^31\<close>, so that counters of threads fit an
  \<open>int\<close>. Overflow wraps, also where C leaves it undefined. Statements of an interleaving are atomic, except that
  the increments of \<open>PerformWriter\<close> and \<open>PerformReader\<close> are a load and a store each; the histories \<open>klog\<close> and \<open>clog\<close> are only written.

  \<^bold>\<open>Hypotheses.\<close> The laws of \<open>Kernel_Api\<close>: a free lock can be taken and is then held; \<open>down\<close> waits at 0 and otherwise
  decrements, \<open>up\<close> increments; a successful copy has copied; \<open>sscanf\<close> reads what \<open>printf\<close> printed; entries of the proc file
  system are created at unused addresses under unused names, and \<open>remove_proc_subtree\<close> removes all below an entry. No order of
  wake-ups is assumed. The results on interleaved handlers hold for solutions with \<open>rw_exclusion\<close>, which solutions 1 and 2 have and
  solution 3 has not.

  \<^bold>\<open>Not modelled.\<close> \<open>printk\<close> and \<open>mdelay\<close> (log and time). Of \<open>lab1/kernel/syscalls.h\<close>, a copy of the kernel's header, the
  prototypes of functions that the kernel defines elsewhere, and the empty variants of the macros for a kernel without the
  tracer. \<open>asm/syscall_wrapper.h\<close>, which x86-64 kernels put in place of \<open>__SYSCALL_DEFINEx\<close>, is not in the sources. The rest of
  \<open>syscall_64.tbl\<close>; the Makefiles. Closing of the files (\<open>seq_release\<close>) is kernel code. The words of the usage text of \<open>SyncTest\<close>
  are not kept.
\<close>

section \<open>The load test on the loaded module\<close>

text \<open>The functions of the threads a run of \<open>SyncTest\<close> creates, in order.\<close>

fun created :: "test_call list \<Rightarrow> routine list" where
  "created [] = []"
| "created (Pthread_create f # cs) = f # created cs"
| "created (_ # cs) = created cs"

text \<open>The kboard as \<open>KboardModuleInit\<close> left it and threads that have not called it yet.\<close>

definition system_start :: "'sm sync1 kboard \<Rightarrow> nat \<Rightarrow> (pc1, 'sm sync1) conc" where
  "system_start s n = \<lparr>board = s, pos = replicate n Idle1, acts = replicate n NoJob, clog = []\<rparr>"

lemma module_system:
  assumes "length (RingBuffer s) = 5" and "KboardModuleInit K F s g w = Inr (ret, s', g', w')"
  shows "system_start s' n = conc_start (sol1 K) (InitializeSyncSolution1 K) n"
proof -
  have "s' = board (conc_start (sol1 K) (InitializeSyncSolution1 K) n)"
    using assms(2) module_board [OF assms(1), of K n] by (auto simp: KboardModuleInit_def Let_def split: prod.splits)
  then show ?thesis
    by (simp add: system_start_def conc_start_def sol1_def)
qed

text \<open>
  C2: The whole second exercise. The module has been loaded, \<open>SyncTest\<close> has created its threads (fewer than
  \<open>2^31\<close>), and these run in any order, statement by statement, over semaphores that work as documented.
  Then a thread inside its critical section can always go on; every operation that took effect is an
  enqueue of 777 or a dequeue, the results are those of a sequential queue of five items in the order
  of the critical sections; every reader prints 777 or \<open>-1\<close>; and whenever no writer is inside, the kboard
  holds what was accepted and not yet delivered, all of it 777.
\<close>

theorem load_test_end_to_end:
  assumes "kernel_semaphore K val" and "decimal_scan sscanf_d" and "length (RingBuffer s) = 5"
    and "KboardModuleInit K F s g w = Inr (0, s', g', w')"
    and "SyncTest_main create junk argv = Inr (0, calls)" and "length (created calls) < 2147483648"
    and "reach (stress_step sscanf_d (sol1 K) (created calls)) (system_start s' (length (created calls))) c"
  shows "(\<forall>t < length (created calls). \<forall>b. acts c ! t = Body b \<longrightarrow>
      (\<exists>c'. stress_step sscanf_d (sol1 K) (created calls) (Exec t) c = Some c')) \<and>
    (\<forall>(x, r) \<in> set (clog c). (x = Enq 777 \<or> x = Deq) \<and> r \<in> {Accepted, Rejected, Nothing, Got 777}) \<and>
    (\<forall>v. Leaving (Got v) \<in> set (acts c) \<longrightarrow> v = 777 \<or> v = - 1) \<and>
    (\<exists>q. run_ops (bq_step 5) (map fst (clog c)) [] = (map snd (clog c), q) \<and>
      (no_writer (acts c) \<longrightarrow> km_wf (board c) \<and> km_contents (board c) = q \<and> set q \<subseteq> {777} \<and>
        length (filter (\<lambda>r. r = Accepted) (map snd (clog c))) =
        length (filter (\<lambda>r. r = Got 777) (map snd (clog c))) + length q))"
proof -
  let ?n = "length (created calls)"
  have ex: "rw_exclusion (sol1 K) (InitializeSyncSolution1 K) ?n"
    using assms(1,6) by (rule sol1_exclusion)
  have r: "reach (stress_step sscanf_d (sol1 K) (created calls)) (conc_start (sol1 K) (InitializeSyncSolution1 K) ?n) c"
    using assms(7) module_system [OF assms(3,4), of ?n] by simp
  have go: "\<exists>c'. stress_step sscanf_d (sol1 K) (created calls) (Exec t) c = Some c'" if "t < ?n" "acts c ! t = Body b" for t b
    using rw_exclusion.conc_no_fault [OF ex stress_reach [OF r] that] by simp
  obtain q where "run_ops (bq_step 5) (map fst (clog c)) [] = (map snd (clog c), q)"
    "no_writer (acts c) \<longrightarrow> km_wf (board c) \<and> km_contents (board c) = q"
    using rw_exclusion.conc_history [OF ex stress_reach [OF r]] by blast
  moreover note vals = stress_values [OF assms(2) ex r]
  ultimately show ?thesis
    by (intro conjI exI [of _ q] vals [THEN conjunct1] vals [THEN conjunct2, THEN conjunct1])
      (use go vals [THEN conjunct2, THEN conjunct2] in simp_all)
qed

text \<open>\<open>SyncTest 2 0 1\<close>: one enqueuer, one dequeuer.\<close>

lemma demo_calls:
  "\<exists>calls. SyncTest_main (\<lambda>k. (of_nat (100 + k), 0)) (\<lambda>i. 0) [''SyncTest'', ''2'', ''0'', ''1''] = Inr (0, calls) \<and>
    created calls = [WriterEnqueue, WriterDequeue]"
proof -
  have "unat (atoi ''2'') = 2" "unat (atoi ''0'') = 0"
    by (code_simp, code_simp)
  then show ?thesis
    using synctest_main_run [of "[''SyncTest'', ''2'', ''0'', ''1'']" 2 0 "\<lambda>k. (of_nat (100 + k), 0)" "\<lambda>i. 0"]
    by (simp add: upt_rec)
qed

definition demo_memory :: "nat sync1 kboard" where
  "demo_memory = km_fresh\<lparr>RingBuffer := [0, 1, 2, 3, 4], RingBufferCount := 9\<rparr>"

text \<open>The enqueuer's first command is over, the dequeuer has called.\<close>

definition demo_schedule :: "stress_choice list" where
  "demo_schedule = [Issue 0 [] 0, Exec 0, Exec 0, Exec 0, Exec 0, Exec 0, Exec 0, Exec 0, Issue 1 [] 0]"

lemma demo_schedule_run:
  "\<exists>c. exec (stress_step scan_dec (sol1 counting_sem) [WriterEnqueue, WriterDequeue]) demo_schedule
     (conc_start (sol1 counting_sem) (InitializeSyncSolution1 counting_sem) 2) = Some c \<and>
    clog c = [(Enq 777, Accepted)] \<and> acts c = [Leaving Accepted, Entering PLoad]"
  by (simp add: demo_schedule_def conc_eval dec.routine_job del: thread_command.simps command_job.simps)

lemma demo_load:
  obtains s' g w where "KboardModuleInit counting_sem table_procfs demo_memory proc_null no_entries = Inr (0, s', g, w)"
  using module_board [of demo_memory counting_sem 0] demo_proc that
  by (auto simp: KboardModuleInit_def Let_def demo_memory_def)

theorem load_test_end_to_end_witness:
  "\<exists>s' g w calls c. KboardModuleInit counting_sem table_procfs demo_memory proc_null no_entries = Inr (0, s', g, w) \<and>
    SyncTest_main (\<lambda>k. (of_nat (100 + k), 0)) (\<lambda>i. 0) [''SyncTest'', ''2'', ''0'', ''1''] = Inr (0, calls) \<and>
    reach (stress_step scan_dec (sol1 counting_sem) (created calls)) (system_start s' (length (created calls))) c \<and>
    acts c = [Leaving Accepted, Entering PLoad] \<and> length (km_contents (board c)) = 1 \<and> set (km_contents (board c)) \<subseteq> {777}"
proof -
  let ?main = "SyncTest_main (\<lambda>k. (of_nat (100 + k), 0)) (\<lambda>i. 0) [''SyncTest'', ''2'', ''0'', ''1'']"
  obtain s' g w where l: "KboardModuleInit counting_sem table_procfs demo_memory proc_null no_entries = Inr (0, s', g, w)"
    by (rule demo_load)
  obtain calls where m: "?main = Inr (0, calls)" and f: "created calls = [WriterEnqueue, WriterDequeue]"
    using demo_calls by blast
  obtain c where c: "reach (stress_step scan_dec (sol1 counting_sem) [WriterEnqueue, WriterDequeue])
      (conc_start (sol1 counting_sem) (InitializeSyncSolution1 counting_sem) 2) c"
    and log: "clog c = [(Enq 777, Accepted)]" "acts c = [Leaving Accepted, Entering PLoad]"
    using demo_schedule_run by (elim exE conjE) (rule that [OF exec_reach])
  have len: "length (RingBuffer demo_memory) = 5"
    by (simp add: demo_memory_def)
  have r: "reach (stress_step scan_dec (sol1 counting_sem) (created calls)) (system_start s' (length (created calls))) c"
    using c module_system [OF len l, of 2] by (simp add: f numeral_2_eq_2)
  have n: "length (created calls) < 2147483648"
    by (simp add: f)
  have "no_writer (acts c)"
    by (auto simp: no_writer_def log less_Suc_eq)
  then have "length (km_contents (board c)) = 1 \<and> set (km_contents (board c)) \<subseteq> {777}"
    using load_test_end_to_end [OF counting.kernel_semaphore_axioms dec.decimal_scan_axioms len l m n r] log(1) by auto
  with l m r log(2) show ?thesis
    by blast
qed

end
